(* ===== verification/Prelude.thy ===== *)
theory Prelude
  imports Main "HOL-Library.Word"
begin

text \<open>
  What every component of the development shares: the machine integers of the C code, the
  monad in which kernel routines are written (explicit state, with \<open>panic\<close> and its like as
  values), the table scan that the kernel writes as a \<open>for\<close> loop over an array, and the
  generic lemmas about them.  The collection \<open>kernel_simps\<close> unfolds the monad.
\<close>

section \<open>Machine integers\<close>

type_synonym u8 = "8 word"
type_synonym u16 = "16 word"
type_synonym u32 = "32 word"

text \<open>\<open>src/types.h\<close>: \<open>uint\<close>, \<open>ushort\<close>, \<open>uchar\<close> and \<open>pde_t\<close> are the unsigned words above.\<close>

type_synonym pde_t = u32
type_synonym pte_t = u32

section \<open>The kernel monad\<close>

text \<open>
  A kernel routine maps a state to a result and a new state, or stops.  \<open>Panic\<close> is a call of
  \<open>panic()\<close> with its message.  \<open>Spin\<close> is a busy-wait that only another CPU can end.
  \<open>Fault\<close> is a load or store through a null pointer.  \<open>Blocked\<close> is a call of \<open>sleep()\<close> by a routine
  that is modelled as a whole: it goes on only when another process has run.
\<close>

datatype kexn = Panic string | Spin | Fault | Blocked

type_synonym ('s, 'a) kernel = "'s \<Rightarrow> kexn + 'a \<times> 's"

named_theorems kernel_simps "equations that unfold the kernel monad"

definition kret :: "'a \<Rightarrow> ('s, 'a) kernel" where
  "kret x = (\<lambda>s. Inr (x, s))"

definition kbind :: "('s, 'a) kernel \<Rightarrow> ('a \<Rightarrow> ('s, 'b) kernel) \<Rightarrow> ('s, 'b) kernel" where
  "kbind m f = (\<lambda>s. case m s of Inl e \<Rightarrow> Inl e | Inr (x, t) \<Rightarrow> f x t)"

definition kstop :: "kexn \<Rightarrow> ('s, 'a) kernel" where
  "kstop e = (\<lambda>s. Inl e)"

abbreviation panic :: "string \<Rightarrow> ('s, 'a) kernel" where
  "panic msg \<equiv> kstop (Panic msg)"

definition kgets :: "('s \<Rightarrow> 'a) \<Rightarrow> ('s, 'a) kernel" where
  "kgets f = (\<lambda>s. Inr (f s, s))"

definition kmodify :: "('s \<Rightarrow> 's) \<Rightarrow> ('s, unit) kernel" where
  "kmodify f = (\<lambda>s. Inr ((), f s))"

definition kwhen :: "bool \<Rightarrow> ('s, unit) kernel \<Rightarrow> ('s, unit) kernel" where
  "kwhen b m = (if b then m else kret ())"

text \<open>Statements in sequence: the body of a C block.\<close>

primrec kseq :: "('s, unit) kernel list \<Rightarrow> ('s, unit) kernel" where
  "kseq [] = kret ()"
| "kseq (m # ms) = kbind m (\<lambda>_. kseq ms)"

text \<open>\<open>n\<close> calls of the same routine, with the list of their results.\<close>

primrec krepeat :: "nat \<Rightarrow> ('s, 'a) kernel \<Rightarrow> ('s, 'a list) kernel" where
  "krepeat 0 m = kret []"
| "krepeat (Suc n) m = kbind m (\<lambda>x. kbind (krepeat n m) (\<lambda>xs. kret (x # xs)))"

lemma kret_run [kernel_simps, simp]: "kret x s = Inr (x, s)"
  by (simp add: kret_def)

lemma kstop_run [kernel_simps, simp]: "kstop e s = Inl e"
  by (simp add: kstop_def)

lemma kgets_run [kernel_simps, simp]: "kgets f s = Inr (f s, s)"
  by (simp add: kgets_def)

lemma kmodify_run [kernel_simps, simp]: "kmodify f s = Inr ((), f s)"
  by (simp add: kmodify_def)

lemma kwhen_run [kernel_simps]: "kwhen b m s = (if b then m s else Inr ((), s))"
  by (simp add: kwhen_def)

lemma kwhen_simps [simp]: "kwhen True m = m" "kwhen False m = kret ()"
  by (simp_all add: kwhen_def)

lemma kbind_Inr [kernel_simps]: "m s = Inr (x, t) \<Longrightarrow> kbind m f s = f x t"
  by (simp add: kbind_def)

lemma kbind_Inl [kernel_simps]: "m s = Inl e \<Longrightarrow> kbind m f s = Inl e"
  by (simp add: kbind_def)

lemma kbind_run [simp]:
  "kbind (kret x) f = f x"
  "kbind (kstop e) f = kstop e"
  "kbind (kgets g) f s = f (g s) s"
  "kbind (kmodify h) f' s = f' () (h s)"
  by (simp_all add: kbind_def kret_def kstop_def kgets_def kmodify_def)

lemma kbind_assoc: "kbind (kbind m f) g = kbind m (\<lambda>x. kbind (f x) g)"
  by (rule ext) (auto simp: kbind_def split: sum.splits)

text \<open>A sequence that returned: every step returned.  The main elimination rule of the development.\<close>

lemma kbind_Inr_iff:
  "kbind m f s = Inr (y, u) \<longleftrightarrow> (\<exists>x t. m s = Inr (x, t) \<and> f x t = Inr (y, u))"
  by (auto simp: kbind_def split: sum.splits)

lemma kbindE [elim]:
  assumes "kbind m f s = Inr (y, u)"
  obtains x t where "m s = Inr (x, t)" and "f x t = Inr (y, u)"
  using assms by (auto simp: kbind_Inr_iff)

lemma kwhen_Inr_iff:
  "kwhen b m s = Inr (x, t) \<longleftrightarrow> (if b then m s = Inr (x, t) else t = s)"
  by (simp add: kwhen_def eq_commute)

text \<open>
  \<open>keeps f m\<close>: whenever \<open>m\<close> returns, it has left \<open>f\<close> of the state as it was.  Frame facts are
  stated with it and compose along the monad.
\<close>

definition keeps :: "('s \<Rightarrow> 'b) \<Rightarrow> ('s, 'a) kernel \<Rightarrow> bool" where
  "keeps f m \<longleftrightarrow> (\<forall>s x t. m s = Inr (x, t) \<longrightarrow> f t = f s)"

lemma keepsI: "(\<And>s x t. m s = Inr (x, t) \<Longrightarrow> f t = f s) \<Longrightarrow> keeps f m"
  by (simp add: keeps_def)

lemma keepsD: "keeps f m \<Longrightarrow> m s = Inr (x, t) \<Longrightarrow> f t = f s"
  by (simp add: keeps_def)

named_theorems keeps_intros "frame facts and their composition"

lemma keeps_ret [keeps_intros, intro]: "keeps f (kret x)"
  by (simp add: keeps_def)

lemma keeps_stop [keeps_intros, intro]: "keeps f (kstop e)"
  by (simp add: keeps_def)

lemma keeps_gets [keeps_intros, intro]: "keeps f (kgets g)"
  by (simp add: keeps_def)

lemma keeps_modify [keeps_intros]: "(\<And>s. f (h s) = f s) \<Longrightarrow> keeps f (kmodify h)"
  by (simp add: keeps_def)

lemma keeps_bind [keeps_intros, intro]:
  "keeps f m \<Longrightarrow> (\<And>x. keeps f (g x)) \<Longrightarrow> keeps f (kbind m g)"
  unfolding keeps_def kbind_Inr_iff by metis

lemma keeps_when [keeps_intros, intro]: "keeps f m \<Longrightarrow> keeps f (kwhen b m)"
  by (simp add: kwhen_def keeps_ret)

lemma keeps_if [keeps_intros]:
  "(b \<Longrightarrow> keeps f m) \<Longrightarrow> (\<not> b \<Longrightarrow> keeps f m') \<Longrightarrow> keeps f (if b then m else m')"
  by simp

lemma keeps_seq [keeps_intros]: "(\<And>m. m \<in> set ms \<Longrightarrow> keeps f m) \<Longrightarrow> keeps f (kseq ms)"
  by (induction ms) (auto intro: keeps_intros)

section \<open>Partial correctness\<close>

text \<open>
  \<open>kpost m s Q\<close>: if \<open>m\<close> returns from \<open>s\<close>, its result and final state satisfy \<open>Q\<close>.  The collection
  \<open>kpost_simps\<close> computes it along the monad; \<open>kpost_keeps\<close> replaces a call by its frame.
\<close>

definition kpost :: "('s, 'a) kernel \<Rightarrow> 's \<Rightarrow> ('a \<Rightarrow> 's \<Rightarrow> bool) \<Rightarrow> bool" where
  "kpost m s Q \<longleftrightarrow> (\<forall>x t. m s = Inr (x, t) \<longrightarrow> Q x t)"

named_theorems kpost_simps "partial correctness along the monad"

lemma kpost_simp [kpost_simps]:
  "kpost (kret x) s Q = Q x s"
  "kpost (kstop e) s Q = True"
  "kpost (kgets g) s Q = Q (g s) s"
  "kpost (kmodify h) s Q' = Q' () (h s)"
  "kpost (kbind m f) s P = kpost m s (\<lambda>x t. kpost (f x) t P)"
  "kpost (kwhen b n) s Q' = (if b then kpost n s Q' else Q' () s)"
  by (auto simp: kpost_def kbind_Inr_iff kwhen_def)

lemma kpost_seq [kpost_simps]:
  "kpost (kseq []) s Q = Q () s" "kpost (kseq (m # ms)) s Q = kpost m s (\<lambda>_ t. kpost (kseq ms) t Q)"
  by (simp_all add: kpost_simps)

lemma kpost_if [kpost_simps]: "kpost (if b then m else n) s Q = (if b then kpost m s Q else kpost n s Q)"
  by simp

lemma kpostD: "kpost m s Q \<Longrightarrow> m s = Inr (x, t) \<Longrightarrow> Q x t"
  by (simp add: kpost_def)

lemma kpostI: "(\<And>x t. m s = Inr (x, t) \<Longrightarrow> Q x t) \<Longrightarrow> kpost m s Q"
  by (simp add: kpost_def)

lemma kpost_keeps: "keeps f m \<Longrightarrow> (\<And>x t. f t = f s \<Longrightarrow> Q x t) \<Longrightarrow> kpost m s Q"
  by (auto simp: kpost_def dest: keepsD)

lemma kpost_mono: "kpost m s P \<Longrightarrow> (\<And>x t. P x t \<Longrightarrow> Q x t) \<Longrightarrow> kpost m s Q"
  by (auto simp: kpost_def)

section \<open>Table scans\<close>

text \<open>
  \<open>for(p = table; p < &table[N]; p++) if(P(p)) ...\<close> : the index of the first entry that
  satisfies the test.
\<close>

primrec first_index :: "('a \<Rightarrow> bool) \<Rightarrow> 'a list \<Rightarrow> nat option" where
  "first_index P [] = None"
| "first_index P (x # xs) = (if P x then Some 0 else map_option Suc (first_index P xs))"

lemma first_index_Some_iff:
  "first_index P xs = Some i \<longleftrightarrow> i < length xs \<and> P (xs ! i) \<and> (\<forall>j<i. \<not> P (xs ! j))"
proof (induction xs arbitrary: i)
  case Nil
  then show ?case by simp
next
  case (Cons x xs)
  show ?case
  proof (cases i)
    case 0
    then show ?thesis by auto
  next
    case (Suc k)
    have "(\<forall>j<Suc k. \<not> P ((x # xs) ! j)) \<longleftrightarrow> \<not> P x \<and> (\<forall>j<k. \<not> P (xs ! j))"
      by (auto simp: less_Suc_eq_0_disj)
    with Suc Cons.IH[of k] show ?thesis by auto
  qed
qed

lemma first_index_None_iff: "first_index P xs = None \<longleftrightarrow> (\<forall>x\<in>set xs. \<not> P x)"
  by (induction xs) auto

lemma first_index_SomeD:
  assumes "first_index P xs = Some i"
  shows "i < length xs" and "P (xs ! i)" and "\<And>j. j < i \<Longrightarrow> \<not> P (xs ! j)"
  using assms by (simp_all add: first_index_Some_iff)

lemma first_index_ex: "x \<in> set xs \<Longrightarrow> P x \<Longrightarrow> \<exists>i. first_index P xs = Some i"
  using first_index_None_iff[of P xs] by auto

lemma first_index_cong:
  "length xs = length ys \<Longrightarrow> (\<And>i. i < length xs \<Longrightarrow> P (xs ! i) = Q (ys ! i)) \<Longrightarrow>
    first_index P xs = first_index Q ys"
proof (induction xs ys rule: list_induct2)
  case Nil
  then show ?case by simp
next
  case (Cons x xs y ys)
  have "P x = Q y" using Cons.prems[of 0] by simp
  moreover have "first_index P xs = first_index Q ys"
    using Cons.prems[of "Suc i" for i] by (intro Cons.IH) auto
  ultimately show ?case by simp
qed

section \<open>Lists updated in place\<close>

lemma sum_list_update_nat:
  "i < length xs \<Longrightarrow> sum_list (xs[i := (v::nat)]) + xs ! i = sum_list xs + v"
  by (induction xs arbitrary: i) (auto split: nat.splits)

lemma filter_update_other:
  "i < length xs \<Longrightarrow> \<not> P (xs ! i) \<Longrightarrow> \<not> P v \<Longrightarrow> filter P (xs[i := v]) = filter P xs"
  by (induction xs arbitrary: i) (auto split: nat.splits)

lemma list_all_update [intro]: "list_all P xs \<Longrightarrow> P v \<Longrightarrow> list_all P (xs[i := v])"
  by (auto simp: list_all_iff dest: set_update_subset_insert[THEN subsetD])

end
