(* ===== verification/Mmu.thy ===== *)
theory Mmu
  imports Prelude
begin

unbundle bit_operations_syntax

text \<open>
  The x86 structures and address arithmetic of \<open>src/mmu.h\<close> and \<open>src/memlayout.h\<close>: page
  rounding, the three-part split of a linear address, segment descriptors, gate descriptors and
  the fields of the task state segment that the kernel writes.  The lemmas show that the split
  and the rounding macros compute what their names say, on 32-bit words.
\<close>

section \<open>Constants\<close>

abbreviation (input) FL_IF :: u32 where "FL_IF \<equiv> 0x200"
abbreviation (input) PGSIZE :: u32 where "PGSIZE \<equiv> 4096"
abbreviation (input) PTXSHIFT :: nat where "PTXSHIFT \<equiv> 12"
abbreviation (input) PDXSHIFT :: nat where "PDXSHIFT \<equiv> 22"
abbreviation (input) PTE_P :: u32 where "PTE_P \<equiv> 1"
abbreviation (input) PTE_W :: u32 where "PTE_W \<equiv> 2"
abbreviation (input) PTE_U :: u32 where "PTE_U \<equiv> 4"
abbreviation (input) EXTMEM :: u32 where "EXTMEM \<equiv> 0x100000"
abbreviation (input) PHYSTOP :: u32 where "PHYSTOP \<equiv> 0xE000000"
abbreviation (input) DEVSPACE :: u32 where "DEVSPACE \<equiv> 0xFE000000"
abbreviation (input) KERNBASE :: u32 where "KERNBASE \<equiv> 0x80000000"
abbreviation (input) KSTACKSIZE :: u32 where "KSTACKSIZE \<equiv> 4096"

definition V2P :: "u32 \<Rightarrow> u32" where "V2P a = a - KERNBASE"
definition P2V :: "u32 \<Rightarrow> u32" where "P2V a = a + KERNBASE"

section \<open>Addresses\<close>

definition PDX :: "u32 \<Rightarrow> u32" where
  "PDX va = drop_bit PDXSHIFT va AND 0x3FF"

definition PTX :: "u32 \<Rightarrow> u32" where
  "PTX va = drop_bit PTXSHIFT va AND 0x3FF"

definition PGADDR :: "u32 \<Rightarrow> u32 \<Rightarrow> u32 \<Rightarrow> u32" where
  "PGADDR d t off = push_bit PDXSHIFT d OR push_bit PTXSHIFT t OR off"

definition PGROUNDUP :: "u32 \<Rightarrow> u32" where
  "PGROUNDUP sz = (sz + PGSIZE - 1) AND NOT (PGSIZE - 1)"

definition PGROUNDDOWN :: "u32 \<Rightarrow> u32" where
  "PGROUNDDOWN a = a AND NOT (PGSIZE - 1)"

definition PTE_ADDR :: "pte_t \<Rightarrow> u32" where
  "PTE_ADDR pte = pte AND NOT 0xFFF"

definition PTE_FLAGS :: "pte_t \<Rightarrow> u32" where
  "PTE_FLAGS pte = pte AND 0xFFF"

section \<open>Descriptors\<close>

text \<open>\<open>struct segdesc\<close>: the bit fields, each a word of its own width.\<close>

record segdesc =
  lim_15_0 :: u16
  base_15_0 :: u16
  base_23_16 :: u8
  seg_type :: "4 word"
  seg_s :: "1 word"
  seg_dpl :: "2 word"
  seg_p :: "1 word"
  lim_19_16 :: "4 word"
  seg_avl :: "1 word"
  seg_rsv1 :: "1 word"
  seg_db :: "1 word"
  seg_g :: "1 word"
  base_31_24 :: u8

definition SEG :: "4 word \<Rightarrow> u32 \<Rightarrow> u32 \<Rightarrow> 2 word \<Rightarrow> segdesc" where
  "SEG ty base lim dpl =
     \<lparr> lim_15_0 = ucast (drop_bit 12 lim AND 0xffff), base_15_0 = ucast (base AND 0xffff),
       base_23_16 = ucast (drop_bit 16 base AND 0xff), seg_type = ty, seg_s = 1, seg_dpl = dpl,
       seg_p = 1, lim_19_16 = ucast (drop_bit 28 lim), seg_avl = 0, seg_rsv1 = 0, seg_db = 1,
       seg_g = 1, base_31_24 = ucast (drop_bit 24 base) \<rparr>"

definition SEG16 :: "4 word \<Rightarrow> u32 \<Rightarrow> u32 \<Rightarrow> 2 word \<Rightarrow> segdesc" where
  "SEG16 ty base lim dpl =
     \<lparr> lim_15_0 = ucast (lim AND 0xffff), base_15_0 = ucast (base AND 0xffff),
       base_23_16 = ucast (drop_bit 16 base AND 0xff), seg_type = ty, seg_s = 1, seg_dpl = dpl,
       seg_p = 1, lim_19_16 = ucast (drop_bit 16 lim), seg_avl = 0, seg_rsv1 = 0, seg_db = 1,
       seg_g = 0, base_31_24 = ucast (drop_bit 24 base) \<rparr>"

text \<open>The base address a descriptor encodes, as the processor reassembles it.\<close>

definition segdesc_base :: "segdesc \<Rightarrow> u32" where
  "segdesc_base d = push_bit 24 (ucast (base_31_24 d)) OR push_bit 16 (ucast (base_23_16 d))
     OR ucast (base_15_0 d)"

text \<open>\<open>struct taskstate\<close>: the fields the kernel writes (the others stay zero).\<close>

record taskstate =
  ts_esp0 :: u32
  ts_ss0 :: u16
  ts_iomb :: u16

text \<open>\<open>struct gatedesc\<close> and \<open>SETGATE\<close>.\<close>

record gatedesc =
  off_15_0 :: u16
  gate_cs :: u16
  gate_args :: "5 word"
  gate_rsv1 :: "3 word"
  gate_type :: "4 word"
  gate_s :: "1 word"
  gate_dpl :: "2 word"
  gate_p :: "1 word"
  off_31_16 :: u16

definition SETGATE :: "bool \<Rightarrow> u16 \<Rightarrow> u32 \<Rightarrow> 2 word \<Rightarrow> gatedesc" where
  "SETGATE istrap sel off d =
     \<lparr> off_15_0 = ucast (off AND 0xffff), gate_cs = sel, gate_args = 0, gate_rsv1 = 0,
       gate_type = (if istrap then 0xF else 0xE), gate_s = 0, gate_dpl = d, gate_p = 1,
       off_31_16 = ucast (drop_bit 16 off) \<rparr>"

section \<open>Facts about addresses\<close>

lemma mask_4095: "(0xFFF :: u32) = mask 12"
  by (simp add: mask_eq_exp_minus_1)

lemma mask_1023: "(0x3FF :: u32) = mask 10"
  by (simp add: mask_eq_exp_minus_1)

lemma PTE_split: "PTE_ADDR pte OR PTE_FLAGS pte = pte"
  by (simp add: PTE_ADDR_def PTE_FLAGS_def bit_eq_iff bit_simps) blast

lemma PGADDR_split: "PGADDR (PDX va) (PTX va) (va AND 0xFFF) = va"
proof (rule bit_word_eqI)
  fix n :: nat
  assume n: "n < LENGTH(32)"
  show "bit (PGADDR (PDX va) (PTX va) (va AND 0xFFF)) n = bit va n"
    using n by (cases "n < 12"; cases "n < 22")
      (auto simp: PGADDR_def PDX_def PTX_def mask_4095 mask_1023 bit_simps)
qed

lemma PGROUNDDOWN_shift: "PGROUNDDOWN a = push_bit 12 (drop_bit 12 a)"
  by (rule bit_word_eqI) (auto simp: PGROUNDDOWN_def mask_4095 bit_simps)

lemma unat_PGROUNDDOWN: "unat (PGROUNDDOWN a) = unat a div 4096 * 4096"
proof -
  have "unat a < 2 ^ 32"
    using unsigned_less[of a] by simp
  then have "unat a div 4096 * 4096 < 2 ^ 32"
    by simp
  then show ?thesis
    unfolding PGROUNDDOWN_shift unsigned_push_bit_eq unsigned_drop_bit_eq
    by (simp add: push_bit_eq_mult drop_bit_eq_div take_bit_nat_eq_self)
qed

lemma PGROUNDDOWN_aligned: "unat (PGROUNDDOWN a) mod 4096 = 0"
  by (simp add: unat_PGROUNDDOWN)

text \<open>\<open>PGROUNDUP\<close> rounds up to the next page, as long as the sum does not wrap.\<close>

lemma unat_PGROUNDUP:
  assumes "unat sz + 4095 < 2 ^ 32"
  shows "unat (PGROUNDUP sz) = (unat sz + 4095) div 4096 * 4096"
proof -
  have "unat (sz + 4095) = unat sz + 4095"
    using assms by (simp add: unat_word_ariths)
  moreover have "PGROUNDUP sz = PGROUNDDOWN (sz + 4095)"
    by (simp add: PGROUNDUP_def PGROUNDDOWN_def add.commute)
  ultimately show ?thesis by (simp add: unat_PGROUNDDOWN)
qed

lemma V2P_P2V [simp]: "V2P (P2V a) = a" "P2V (V2P a) = a"
  by (simp_all add: V2P_def P2V_def)

text \<open>A descriptor built by \<open>SEG\<close> or \<open>SEG16\<close> encodes the base address it was given.\<close>

lemma word32_parts:
  fixes w :: u32
  shows "push_bit 24 (ucast (ucast (drop_bit 24 w) :: u8)) OR
   push_bit 16 (ucast (ucast (drop_bit 16 w AND 0xff) :: u8)) OR
   ucast (ucast (w AND 0xffff) :: u16) = w"
proof (rule bit_word_eqI, goal_cases)
  case (1 n)
  have m: "(0xff :: u32) = mask 8" "(0xffff :: u32) = mask 16"
    by (simp_all add: mask_eq_exp_minus_1)
  from 1 show ?case
    by (cases "n < 16"; cases "n < 24") (auto simp: m bit_simps)
qed

lemma SEG_base: "segdesc_base (SEG ty base lim dpl) = base"
  by (simp add: segdesc_base_def SEG_def word32_parts)

lemma SEG16_base: "segdesc_base (SEG16 ty base lim dpl) = base"
  by (simp add: segdesc_base_def SEG16_def word32_parts)

end
