(* ===== verification/Spinlock.thy ===== *)
theory Spinlock
  imports Mmu
begin

unbundle bit_operations_syntax

text \<open>
  The machine as the locking code sees it, and \<open>src/spinlock.c\<close> over it, with \<open>cpuid\<close> and
  \<open>mycpu\<close> of \<open>src/proc.c\<close> and \<open>lapicid\<close> of \<open>src/lapic.c\<close>.  The state \<open>mach\<close> is the bottom
  of the kernel state: every later component extends this record with its own globals, so the
  routines here are polymorphic in the rest of the kernel.

  \<open>hw j\<close> is the register file of the \<open>j\<close>-th physical processor and \<open>this\<close> is the processor that
  executes; an interleaving of processors changes \<open>this\<close> between routines.
\<close>

section \<open>State\<close>

record hwcpu =
  eflags :: u32
  lapic_reg :: "nat \<Rightarrow> u32"
  cr3 :: u32
  task_reg :: u16
  gdtr :: "nat option"

record cpu =
  apicid :: u8
  ts :: taskstate
  gdt :: "segdesc list"
  started :: u32
  ncli :: int
  intena :: u32
  cpu_proc :: "nat option"

record spinlock =
  locked :: u32
  lk_name :: string
  lk_cpu :: "nat option"
  pcs :: "u32 list"

datatype lockid =
    Ptable_lock | Kmem_lock | Ticks_lock | Ftable_lock | Icache_lock | Bcache_lock | Log_lock
  | Cons_lock | Ide_lock | Pipe_lock u32 | Buf_lk nat | Inode_lk nat

record mach =
  cpus :: "cpu list"
  ncpu :: nat
  lapic :: u32
  hw :: "nat \<Rightarrow> hwcpu"
  this :: nat
  locks :: "lockid \<Rightarrow> spinlock"
  stack_word :: "u32 \<Rightarrow> u32"
  arg_addr :: u32
  ts_addr :: "nat \<Rightarrow> u32"

text \<open>
  \<open>gdtr\<close> is the processor whose descriptor table has been loaded, \<open>stack_word\<close> reads the kernel
  stack and \<open>arg_addr\<close> is the address of the argument of \<open>acquire\<close> (both only for the call trace
  kept in a lock), and \<open>ts_addr i\<close> is the address of \<open>cpus[i].ts\<close>.
\<close>

definition upd_hw :: "(hwcpu \<Rightarrow> hwcpu) \<Rightarrow> 'x mach_scheme \<Rightarrow> 'x mach_scheme" where
  "upd_hw f s = s\<lparr>hw := (hw s)(this s := f (hw s (this s)))\<rparr>"

definition upd_cpu :: "nat \<Rightarrow> (cpu \<Rightarrow> cpu) \<Rightarrow> 'x mach_scheme \<Rightarrow> 'x mach_scheme" where
  "upd_cpu c f s = s\<lparr>cpus := (cpus s)[c := f (cpus s ! c)]\<rparr>"

definition upd_lock :: "lockid \<Rightarrow> (spinlock \<Rightarrow> spinlock) \<Rightarrow> 'x mach_scheme \<Rightarrow> 'x mach_scheme" where
  "upd_lock l f s = s\<lparr>locks := (locks s)(l := f (locks s l))\<rparr>"

section \<open>Reading and setting the interrupt flag\<close>

definition readeflags :: "('x mach_scheme, u32) kernel" where
  "readeflags = kgets (\<lambda>s. eflags (hw s (this s)))"

definition cli :: "('x mach_scheme, unit) kernel" where
  "cli = kmodify (upd_hw (\<lambda>h. h\<lparr>eflags := eflags h AND NOT FL_IF\<rparr>))"

definition sti :: "('x mach_scheme, unit) kernel" where
  "sti = kmodify (upd_hw (\<lambda>h. h\<lparr>eflags := eflags h OR FL_IF\<rparr>))"

section \<open>Which processor is this?\<close>

text \<open>\<open>lapicid\<close>: register \<open>ID\<close> is at index \<open>0x20/4 = 8\<close>.\<close>

definition lapic_id :: "'x mach_scheme \<Rightarrow> u32" where
  "lapic_id s = (if lapic s = 0 then 0 else drop_bit 24 (lapic_reg (hw s (this s)) 8))"

definition lapicid :: "('x mach_scheme, u32) kernel" where
  "lapicid = kgets lapic_id"

definition mycpu :: "('x mach_scheme, nat) kernel" where
  "mycpu =
     kbind readeflags (\<lambda>efl.
     if efl AND FL_IF \<noteq> 0 then panic ''mycpu called with interrupts enabled\<newline>''
     else kbind lapicid (\<lambda>id.
     kbind (kgets (\<lambda>s. first_index (\<lambda>c. ucast (apicid c) = id) (take (ncpu s) (cpus s)))) (\<lambda>r.
     case r of Some i \<Rightarrow> kret i | None \<Rightarrow> panic ''unknown apicid\<newline>'')))"

definition cpuid :: "('x mach_scheme, nat) kernel" where
  "cpuid = mycpu"

definition mycpu_get :: "(cpu \<Rightarrow> 'b) \<Rightarrow> ('x mach_scheme, 'b) kernel" where
  "mycpu_get g = kbind mycpu (\<lambda>c. kgets (\<lambda>s. g (cpus s ! c)))"

definition mycpu_upd :: "(cpu \<Rightarrow> cpu) \<Rightarrow> ('x mach_scheme, unit) kernel" where
  "mycpu_upd f = kbind mycpu (\<lambda>c. kmodify (upd_cpu c f))"

section \<open>spinlock.c\<close>

definition pushcli :: "('x mach_scheme, unit) kernel" where
  "pushcli =
     kbind readeflags (\<lambda>efl. kseq
      [cli,
       kbind (mycpu_get ncli) (\<lambda>n. kwhen (n = 0) (mycpu_upd (\<lambda>c. c\<lparr>intena := efl AND FL_IF\<rparr>))),
       mycpu_upd (\<lambda>c. c\<lparr>ncli := ncli c + 1\<rparr>)])"

definition popcli :: "('x mach_scheme, unit) kernel" where
  "popcli =
     kbind readeflags (\<lambda>efl.
     if efl AND FL_IF \<noteq> 0 then panic ''popcli - interruptible''
     else kbind (mycpu_upd (\<lambda>c. c\<lparr>ncli := ncli c - 1\<rparr>)) (\<lambda>_.
     kbind (mycpu_get ncli) (\<lambda>n.
     if n < 0 then panic ''popcli''
     else kbind (mycpu_get ncli) (\<lambda>n.
     kbind (mycpu_get intena) (\<lambda>e. kwhen (n = 0 \<and> e \<noteq> 0) sti)))))"

definition holding :: "lockid \<Rightarrow> ('x mach_scheme, bool) kernel" where
  "holding l =
     kbind pushcli (\<lambda>_.
     kbind mycpu (\<lambda>c.
     kbind (kgets (\<lambda>s. locked (locks s l) \<noteq> 0 \<and> lk_cpu (locks s l) = Some c)) (\<lambda>r.
     kbind popcli (\<lambda>_. kret r))))"

fun follow_ebp :: "(u32 \<Rightarrow> u32) \<Rightarrow> u32 \<Rightarrow> nat \<Rightarrow> u32 list" where
  "follow_ebp rd ebp 0 = []"
| "follow_ebp rd ebp (Suc n) =
     (if ebp = 0 \<or> ebp < KERNBASE \<or> ebp = 0xffffffff then replicate (Suc n) 0
      else rd (ebp + 4) # follow_ebp rd (rd ebp) n)"

definition getcallerpcs :: "(u32 \<Rightarrow> u32) \<Rightarrow> u32 \<Rightarrow> u32 list" where
  "getcallerpcs rd v = follow_ebp rd (v - 8) 10"

definition initlock :: "lockid \<Rightarrow> string \<Rightarrow> ('x mach_scheme, unit) kernel" where
  "initlock l nm = kmodify (upd_lock l (\<lambda>k. k\<lparr>lk_name := nm, locked := 0, lk_cpu := None\<rparr>))"

text \<open>
  \<open>while(xchg(&lk->locked, 1) != 0);\<close> returns as soon as the exchanged value is zero.  When it
  is not, this processor spins, and only a store by another processor can end the loop.
\<close>

definition xchg_spin :: "lockid \<Rightarrow> ('x mach_scheme, unit) kernel" where
  "xchg_spin l =
     kbind (kgets (\<lambda>s. locked (locks s l))) (\<lambda>old.
     if old \<noteq> 0 then kstop Spin else kmodify (upd_lock l (\<lambda>k. k\<lparr>locked := 1\<rparr>)))"

definition acquire :: "lockid \<Rightarrow> ('x mach_scheme, unit) kernel" where
  "acquire l =
     kbind pushcli (\<lambda>_.
     kbind (holding l) (\<lambda>h.
     if h then panic ''acquire''
     else kbind (xchg_spin l) (\<lambda>_.
     kbind mycpu (\<lambda>c. kseq
      [kmodify (upd_lock l (\<lambda>k. k\<lparr>lk_cpu := Some c\<rparr>)),
       kmodify (\<lambda>s. upd_lock l (\<lambda>k. k\<lparr>pcs := getcallerpcs (stack_word s) (arg_addr s)\<rparr>) s)]))))"

definition release :: "lockid \<Rightarrow> ('x mach_scheme, unit) kernel" where
  "release l =
     kbind (holding l) (\<lambda>h.
     if \<not> h then panic ''release''
     else kseq
      [kmodify (upd_lock l (\<lambda>k. k\<lparr>pcs := (pcs k)[0 := 0]\<rparr>)),
       kmodify (upd_lock l (\<lambda>k. k\<lparr>lk_cpu := None\<rparr>)),
       kmodify (upd_lock l (\<lambda>k. k\<lparr>locked := 0\<rparr>)),
       popcli])"

section \<open>What the routines leave alone\<close>

lemmas mach_defs = upd_hw_def upd_cpu_def upd_lock_def

lemma upd_more [simp]:
  "mach.more (upd_hw f s) = mach.more s"
  "mach.more (upd_cpu c g s) = mach.more s"
  "mach.more (upd_lock l h s) = mach.more s"
  by (simp_all add: mach_defs)

lemma keeps_readeflags [keeps_intros, intro]: "keeps f readeflags"
  by (simp add: readeflags_def keeps_gets)

lemma keeps_lapicid [keeps_intros, intro]: "keeps f lapicid"
  by (simp add: lapicid_def keeps_gets)

lemma keeps_mycpu [keeps_intros, intro]: "keeps f mycpu"
  unfolding mycpu_def by (intro keeps_intros) (auto split: option.split intro: keeps_intros)

lemma keeps_mycpu_get [keeps_intros, intro]: "keeps f (mycpu_get g)"
  unfolding mycpu_get_def by (intro keeps_intros)

lemma more_mycpu_upd [keeps_intros, intro]: "keeps mach.more (mycpu_upd f)"
  unfolding mycpu_upd_def by (intro keeps_intros) simp

lemma more_cli_sti [keeps_intros, intro]: "keeps mach.more cli" "keeps mach.more sti"
  unfolding cli_def sti_def by (intro keeps_intros, simp)+

lemma more_pushcli [keeps_intros, intro]: "keeps mach.more pushcli"
  unfolding pushcli_def by (intro keeps_intros) (auto intro: keeps_intros)

lemma more_popcli [keeps_intros, intro]: "keeps mach.more popcli"
  unfolding popcli_def by (intro keeps_intros)

lemma more_holding [keeps_intros, intro]: "keeps mach.more (holding l)"
  unfolding holding_def by (intro keeps_intros)

lemma more_acquire [keeps_intros, intro]: "keeps mach.more (acquire l)"
  unfolding acquire_def xchg_spin_def by (intro keeps_intros) (auto intro: keeps_intros)

lemma more_release [keeps_intros, intro]: "keeps mach.more (release l)"
  unfolding release_def by (intro keeps_intros) (auto intro: keeps_intros)

section \<open>What the routines compute\<close>

text \<open>
  The interrupt state of the executing processor is its flag register with the two counters of
  its \<open>struct cpu\<close>.  \<open>push_irq\<close> and \<open>pop_irq\<close> are what \<open>pushcli\<close> and \<open>popcli\<close> do to it.
\<close>

definition this_cpu :: "'x mach_scheme \<Rightarrow> nat option" where
  "this_cpu s = first_index (\<lambda>c. ucast (apicid c) = lapic_id s) (take (ncpu s) (cpus s))"

type_synonym irq_state = "u32 \<times> int \<times> u32"

definition irq :: "nat \<Rightarrow> 'x mach_scheme \<Rightarrow> irq_state" where
  "irq i s = (eflags (hw s (this s)), ncli (cpus s ! i), intena (cpus s ! i))"

definition set_irq :: "nat \<Rightarrow> irq_state \<Rightarrow> 'x mach_scheme \<Rightarrow> 'x mach_scheme" where
  "set_irq i x s =
     upd_cpu i (\<lambda>c. c\<lparr>intena := snd (snd x), ncli := fst (snd x)\<rparr>)
       (upd_hw (\<lambda>h. h\<lparr>eflags := fst x\<rparr>) s)"

fun push_irq :: "irq_state \<Rightarrow> irq_state" where
  "push_irq (e, n, a) = (e AND NOT FL_IF, n + 1, if n = 0 then e AND FL_IF else a)"

fun pop_irq :: "irq_state \<Rightarrow> irq_state" where
  "pop_irq (e, n, a) = (if n - 1 = 0 \<and> a \<noteq> 0 then e OR FL_IF else e, n - 1, a)"

lemma this_cpu_less: "this_cpu s = Some i \<Longrightarrow> i < length (cpus s)"
  by (auto simp: this_cpu_def first_index_Some_iff)

lemma set_irq_simps [simp]:
  "locks (set_irq i x s) = locks s" "ncpu (set_irq i x s) = ncpu s"
  "lapic (set_irq i x s) = lapic s" "this (set_irq i x s) = this s"
  "stack_word (set_irq i x s) = stack_word s" "arg_addr (set_irq i x s) = arg_addr s"
  "mach.more (set_irq i x s) = mach.more s"
  "length (cpus (set_irq i x s)) = length (cpus s)"
  "lapic_reg (hw (set_irq i x s) j) = lapic_reg (hw s j)"
  "apicid (cpus (set_irq i x s) ! j) = apicid (cpus s ! j)"
  by (simp_all add: set_irq_def mach_defs nth_list_update)
    (cases "i < length (cpus s)"; simp add: nth_list_update list_update_beyond)+

lemma this_cpu_cong:
  assumes "lapic t = lapic s" "ncpu t = ncpu s" "length (cpus t) = length (cpus s)"
    and "lapic_reg (hw t (this t)) = lapic_reg (hw s (this s))"
    and "\<And>j. apicid (cpus t ! j) = apicid (cpus s ! j)"
  shows "this_cpu t = this_cpu s"
  unfolding this_cpu_def lapic_id_def using assms by (intro first_index_cong) auto

lemma this_cpu_set_irq [simp]: "this_cpu (set_irq i x s) = this_cpu s"
  by (rule this_cpu_cong) simp_all

lemma this_cpu_upd_lock [simp]: "this_cpu (upd_lock l f s) = this_cpu s"
  by (rule this_cpu_cong) (simp_all add: upd_lock_def)

lemma irq_set_irq [simp]: "i < length (cpus s) \<Longrightarrow> irq i (set_irq i x s) = x"
  by (cases x) (simp add: irq_def set_irq_def mach_defs)

lemma irq_upd_lock [simp]: "irq i (upd_lock l f s) = irq i s"
  by (simp add: irq_def upd_lock_def)

lemma set_irq_set_irq [simp]: "set_irq i x (set_irq i y s) = set_irq i x s"
  by (cases "i < length (cpus s)") (auto simp: set_irq_def mach_defs list_update_beyond)

lemma set_irq_irq [simp]: "set_irq i (irq i s) s = s"
  by (cases "i < length (cpus s)") (auto simp: irq_def set_irq_def mach_defs list_update_beyond)

lemma set_irq_upd_lock: "set_irq i x (upd_lock l f s) = upd_lock l f (set_irq i x s)"
  by (simp add: set_irq_def mach_defs)

lemma mycpu_run:
  assumes "this_cpu s = Some i" and "eflags (hw s (this s)) AND FL_IF = 0"
  shows "mycpu s = Inr (i, s)"
  using assms
  by (simp add: mycpu_def readeflags_def lapicid_def this_cpu_def)

lemma mycpu_get_run:
  assumes "this_cpu s = Some i" and "eflags (hw s (this s)) AND FL_IF = 0"
  shows "mycpu_get g s = Inr (g (cpus s ! i), s)"
  using assms by (simp add: mycpu_get_def kbind_def mycpu_run)

lemma mycpu_upd_run:
  assumes "this_cpu s = Some i" and "eflags (hw s (this s)) AND FL_IF = 0"
  shows "mycpu_upd f s = Inr ((), upd_cpu i f s)"
  using assms by (simp add: mycpu_upd_def kbind_def mycpu_run)

lemma bind_mycpu:
  assumes "this_cpu s = Some i" and "eflags (hw s (this s)) AND FL_IF = 0"
  shows "kbind mycpu f s = f i s"
    and "kbind (mycpu_get g) f' s = f' (g (cpus s ! i)) s"
    and "kbind (mycpu_upd h) f'' s = f'' () (upd_cpu i h s)"
  using assms by (simp_all add: kbind_def mycpu_run mycpu_get_run mycpu_upd_run)

lemma upd_cpu_apicid:
  "(\<And>c. apicid (f c) = apicid c) \<Longrightarrow> apicid (cpus (upd_cpu i f s) ! j) = apicid (cpus s ! j)"
  by (cases "i < length (cpus s)") (simp_all add: upd_cpu_def nth_list_update list_update_beyond)

lemma this_cpu_upd_cpu [simp]:
  "(\<And>c. apicid (f c) = apicid c) \<Longrightarrow> this_cpu (upd_cpu i f s) = this_cpu s"
  by (rule this_cpu_cong) (simp_all add: upd_cpu_apicid, simp_all add: upd_cpu_def)

lemma this_cpu_eflags [simp]: "this_cpu (upd_hw (\<lambda>h. h\<lparr>eflags := f h\<rparr>) s) = this_cpu s"
  by (rule this_cpu_cong) (simp_all add: upd_hw_def)

lemma intena_same: "intena c = a \<Longrightarrow> c\<lparr>intena := a\<rparr> = c"
  by (cases c) simp

lemma pushcli_run:
  assumes i: "this_cpu s = Some i"
  shows "pushcli s = Inr ((), set_irq i (push_irq (irq i s)) s)"
proof -
  define e where "e = eflags (hw s (this s))"
  define e' where "e' = e AND NOT FL_IF"
  define t where "t = upd_hw (\<lambda>h. h\<lparr>eflags := e'\<rparr>) s"
  have cli: "cli s = Inr ((), t)"
    by (simp add: cli_def t_def e'_def e_def upd_hw_def)
  have ts: "cpus t = cpus s" "this t = this s" "eflags (hw t (this s)) = e'"
    by (simp_all add: t_def upd_hw_def)
  have t: "this_cpu t = Some i" "eflags (hw t (this t)) AND FL_IF = 0"
    using i by (simp add: t_def, simp add: ts e'_def and.assoc)
  have u: "this_cpu (upd_cpu i (\<lambda>c. c\<lparr>intena := a\<rparr>) t) = Some i"
    "eflags (hw (upd_cpu i (\<lambda>c. c\<lparr>intena := a\<rparr>) t) (this (upd_cpu i (\<lambda>c. c\<lparr>intena := a\<rparr>) t)))
       AND FL_IF = 0" for a
    using t by (simp, simp add: upd_cpu_def)
  have "pushcli s = Inr ((), upd_cpu i (\<lambda>c. c\<lparr>ncli := ncli c + 1\<rparr>)
      (if ncli (cpus s ! i) = 0 then upd_cpu i (\<lambda>c. c\<lparr>intena := e AND FL_IF\<rparr>) t else t))"
    by (simp add: pushcli_def readeflags_def kbind_Inr[of cli, OF cli] bind_mycpu[OF t]
        bind_mycpu[OF u] kwhen_def kbind_assoc ts flip: e_def)
  then show ?thesis
    using this_cpu_less[OF i]
    by (auto simp: irq_def set_irq_def t_def upd_cpu_def upd_hw_def intena_same e'_def
        simp flip: e_def)
qed

lemma popcli_run:
  assumes i: "this_cpu s = Some i" and irq: "irq i s = (e, n, a)"
    and "e AND FL_IF = 0" and "1 \<le> n"
  shows "popcli s = Inr ((), set_irq i (pop_irq (e, n, a)) s)"
proof -
  let ?t = "upd_cpu i (\<lambda>c. c\<lparr>ncli := ncli c - 1\<rparr>) s"
  have s: "eflags (hw s (this s)) AND FL_IF = 0" "eflags (hw s (this s)) = e"
    "ncli (cpus s ! i) = n" "intena (cpus s ! i) = a"
    using assms by (auto simp: irq_def)
  have t: "this_cpu ?t = Some i" "eflags (hw ?t (this ?t)) AND FL_IF = 0"
    using i s(1) by (simp, simp add: upd_cpu_def)
  show ?thesis
    using this_cpu_less[OF i] \<open>1 \<le> n\<close> s
    by (simp add: popcli_def readeflags_def bind_mycpu[OF i s(1)] bind_mycpu[OF t]
        kwhen_def sti_def)
      (auto simp: set_irq_def mach_defs intena_same)
qed

text \<open>Matched pairs: \<open>popcli\<close> undoes \<open>pushcli\<close>.\<close>

definition irq_ok :: "irq_state \<Rightarrow> bool" where
  "irq_ok x = (case x of (e, n, a) \<Rightarrow> 0 \<le> n \<and> (e AND FL_IF \<noteq> 0 \<longrightarrow> n = 0))"

lemma eflags_if_restore: "(e AND NOT FL_IF) OR (e AND FL_IF) = (e :: u32)"
  by (simp add: bit_eq_iff bit_simps) blast

lemma FL_IF_bit: "(0x200 :: u32) = push_bit 9 1"
  by simp

lemma bit_FL_IF: "bit (0x200 :: u32) n \<longleftrightarrow> n = 9"
  unfolding FL_IF_bit by (simp only: bit_push_bit_iff bit_1_iff) auto

lemma eflags_if_on:
  assumes "e AND FL_IF \<noteq> (0 :: u32)"
  shows "(e AND NOT FL_IF) OR FL_IF = e"
proof -
  from assms obtain n where "bit (e AND FL_IF) n"
    by (auto simp: bit_eq_iff)
  then have "bit e 9"
    unfolding bit_and_iff bit_FL_IF by auto
  then show ?thesis
    by (intro bit_word_eqI) (auto simp only: bit_or_iff bit_and_iff bit_not_iff bit_FL_IF
        possible_bit_word)
qed

lemma eflags_if_off: "e AND FL_IF = 0 \<Longrightarrow> e AND NOT FL_IF = (e :: u32)"
  using eflags_if_restore[of e] by simp

lemma pop_push_irq:
  assumes "irq_ok (e, n, a)"
  shows "\<exists>a'. pop_irq (push_irq (e, n, a)) = (e, n, a') \<and> (n \<noteq> 0 \<longrightarrow> a' = a)"
  using assms by (auto simp: irq_ok_def eflags_if_on[simplified] eflags_if_off[simplified])

lemma push_irq_off: "fst (push_irq x) AND FL_IF = 0"
  by (cases x) (simp add: and.assoc)

lemma irq_ok_push: "irq_ok x \<Longrightarrow> irq_ok (push_irq x)"
  by (cases x) (auto simp: irq_ok_def and.assoc)

definition holds :: "lockid \<Rightarrow> nat \<Rightarrow> 'x mach_scheme \<Rightarrow> bool" where
  "holds l i s \<longleftrightarrow> locked (locks s l) \<noteq> 0 \<and> lk_cpu (locks s l) = Some i"

definition acquired :: "lockid \<Rightarrow> nat \<Rightarrow> 'x mach_scheme \<Rightarrow> 'x mach_scheme" where
  "acquired l i s =
     upd_lock l (\<lambda>k. k\<lparr>locked := 1, lk_cpu := Some i,
         pcs := getcallerpcs (stack_word s) (arg_addr s)\<rparr>)
       (set_irq i (push_irq (irq i s)) s)"

definition released :: "lockid \<Rightarrow> nat \<Rightarrow> 'x mach_scheme \<Rightarrow> 'x mach_scheme" where
  "released l i s =
     set_irq i (pop_irq (irq i s))
       (upd_lock l (\<lambda>k. k\<lparr>pcs := (pcs k)[0 := 0], lk_cpu := None, locked := 0\<rparr>) s)"

lemma irq_ok_off: "irq_ok (e, n, a) \<Longrightarrow> n \<noteq> 0 \<Longrightarrow> e AND FL_IF = 0 \<and> 1 \<le> n"
  by (auto simp: irq_ok_def)

lemma holding_run:
  assumes i: "this_cpu s = Some i" and irq: "irq i s = (e, n, a)"
    and ok: "irq_ok (e, n, a)" and n: "n \<noteq> 0"
  shows "holding l s = Inr (holds l i s, s)"
proof -
  let ?t = "set_irq i (push_irq (e, n, a)) s"
  have t: "this_cpu ?t = Some i" "eflags (hw ?t (this ?t)) AND FL_IF = 0"
    using i push_irq_off[of "(e, n, a)"] by (simp, simp add: set_irq_def upd_cpu_def upd_hw_def)
  have irqt: "irq i ?t = (e AND NOT FL_IF, n + 1, a)"
    using this_cpu_less[OF i] n by simp
  have same: "set_irq i (e, n, a) s = s"
    using set_irq_irq[of i s] irq by simp
  have pop: "popcli ?t = Inr ((), s)"
    using same popcli_run[OF t(1) irqt] irq_ok_off[OF ok n] eflags_if_off[of e]
    by (simp add: and.assoc)
  have push: "pushcli s = Inr ((), ?t)"
    using pushcli_run[OF i] irq by simp
  show ?thesis
    by (simp add: holding_def kbind_def push mycpu_run[OF t] pop holds_def del: push_irq.simps)
qed

lemma acquire_run:
  assumes i: "this_cpu s = Some i" and ok: "irq_ok (irq i s)"
  shows "acquire l s =
    (if holds l i s then Inl (Panic ''acquire'')
     else if locked (locks s l) \<noteq> 0 then Inl Spin else Inr ((), acquired l i s))"
proof -
  let ?t = "set_irq i (push_irq (irq i s)) s"
  obtain e n a where irq: "irq i s = (e, n, a)"
    by (cases "irq i s")
  have t: "this_cpu ?t = Some i" "eflags (hw ?t (this ?t)) AND FL_IF = 0"
    using i push_irq_off[of "irq i s"] by (simp, simp add: set_irq_def upd_cpu_def upd_hw_def)
  have irqt: "irq i ?t = push_irq (irq i s)"
    using this_cpu_less[OF i] by simp
  have h: "holding l ?t = Inr (holds l i s, ?t)"
    using holding_run[OF t(1), of "fst (push_irq (irq i s))" "fst (snd (push_irq (irq i s)))"
        "snd (snd (push_irq (irq i s)))"] irq_ok_push[OF ok] irqt ok irq
    by (auto simp: holds_def irq_ok_def)
  have u: "this_cpu (upd_lock l f ?t) = Some i"
    "eflags (hw (upd_lock l f ?t) (this (upd_lock l f ?t))) AND FL_IF = 0" for f
    using t by (simp, simp add: upd_lock_def)
  show ?thesis
    using pushcli_run[OF i] h
    by (simp add: acquire_def kbind_def xchg_spin_def mycpu_run[OF u] acquired_def)
      (simp add: upd_lock_def)
qed

lemma release_run:
  assumes i: "this_cpu s = Some i" and irq: "irq i s = (e, n, a)"
    and ok: "irq_ok (e, n, a)" and n: "n \<noteq> 0"
  shows "release l s =
    (if holds l i s then Inr ((), released l i s) else Inl (Panic ''release''))"
proof -
  let ?u = "upd_lock l (\<lambda>k. k\<lparr>pcs := (pcs k)[0 := 0], lk_cpu := None, locked := 0\<rparr>) s"
  have "popcli ?u = Inr ((), set_irq i (pop_irq (e, n, a)) ?u)"
    using popcli_run[of ?u i e n a] i irq irq_ok_off[OF ok n] by simp
  moreover have "upd_lock l (\<lambda>k. k\<lparr>locked := 0\<rparr>) (upd_lock l (\<lambda>k. k\<lparr>lk_cpu := None\<rparr>)
     (upd_lock l (\<lambda>k. k\<lparr>pcs := (pcs k)[0 := 0]\<rparr>) s)) = ?u"
    by (simp add: upd_lock_def)
  ultimately show ?thesis
    using irq by (simp add: release_def kbind_def holding_run[OF i irq ok n] released_def)
qed

section \<open>Critical sections\<close>

text \<open>
  The contract of a lock as its clients use it.  \<open>rest\<close> is the state the lock never touches
  itself; \<open>q\<close> is the interrupt context of the caller, which the matching release restores.
  \<open>opens s t\<close> relates the states around acquiring, \<open>calm t u\<close> those around a body that respects
  the lock, and \<open>closes s v\<close> those around the whole section.
\<close>

locale mutex =
  fixes acq rel :: "('s, unit) kernel"
    and rest :: "'s \<Rightarrow> 'r"
    and avail owned :: "'q \<Rightarrow> 's \<Rightarrow> bool"
    and opens calm closes :: "'s \<Rightarrow> 's \<Rightarrow> bool"
  assumes acq_total: "avail q s \<Longrightarrow>
      \<exists>t. acq s = Inr ((), t) \<and> owned q t \<and> opens s t \<and> rest t = rest s"
    and rel_total: "owned q t \<Longrightarrow> \<exists>u. rel t = Inr ((), u) \<and> avail q u \<and> rest u = rest t"
    and owned_calm: "owned q t \<Longrightarrow> calm t u \<Longrightarrow> owned q u"
    and around: "avail q s \<Longrightarrow> acq s = Inr ((), t) \<Longrightarrow> calm t u \<Longrightarrow> rel u = Inr ((), v) \<Longrightarrow>
      closes s v"
begin

lemma critical_section:
  assumes "avail q s"
    and body: "\<And>t. owned q t \<Longrightarrow> opens s t \<Longrightarrow> rest t = rest s \<Longrightarrow>
        \<exists>x u. body t = Inr (x, u) \<and> calm t u \<and> P x u"
    and cong: "\<And>x u v. P x u \<Longrightarrow> rest v = rest u \<Longrightarrow> P x v"
  shows "\<exists>x v. kbind acq (\<lambda>_. kbind body (\<lambda>y. kbind rel (\<lambda>_. k y))) s = k x v \<and>
      avail q v \<and> closes s v \<and> P x v"
proof -
  obtain t where t: "acq s = Inr ((), t)" "owned q t" "opens s t" "rest t = rest s"
    using acq_total[OF assms(1)] by blast
  obtain x u where u: "body t = Inr (x, u)" "calm t u" "P x u"
    using body[OF t(2-4)] by blast
  obtain v where v: "rel u = Inr ((), v)" "avail q v" "rest v = rest u"
    using rel_total[OF owned_calm[OF t(2) u(2)]] by blast
  show ?thesis
    using t(1) u(1) v around[OF assms(1) t(1) u(2) v(1)] cong[OF u(3) v(3)]
    by (intro exI[of _ x] exI[of _ v]) (simp add: kbind_def)
qed

lemma critical_modify:
  assumes "avail q s" and "\<And>t. calm t (f t)" and "\<And>t. rest t = rest s \<Longrightarrow> rest (f t) = r"
  shows "\<exists>v. kseq [acq, kmodify f, rel] s = Inr ((), v) \<and> avail q v \<and> closes s v \<and> rest v = r"
proof -
  have "\<exists>x v. kbind acq (\<lambda>_. kbind (kmodify f) (\<lambda>y. kbind rel (\<lambda>_. kret ()))) s = Inr ((), v) \<and>
      avail q v \<and> closes s v \<and> rest v = r"
    using critical_section[OF assms(1), of "kmodify f" "\<lambda>_ u. rest u = r" "\<lambda>_. kret ()"] assms(2,3)
    by auto
  then show ?thesis by simp
qed

end

definition spin_avail :: "lockid \<Rightarrow> u32 \<times> int \<Rightarrow> 'x mach_scheme \<Rightarrow> bool" where
  "spin_avail l q s \<longleftrightarrow> (\<exists>i a. this_cpu s = Some i \<and> irq i s = (fst q, snd q, a) \<and>
     irq_ok (fst q, snd q, a) \<and> locked (locks s l) = 0)"

definition spin_owned :: "lockid \<Rightarrow> u32 \<times> int \<Rightarrow> 'x mach_scheme \<Rightarrow> bool" where
  "spin_owned l q s \<longleftrightarrow> (\<exists>i a. this_cpu s = Some i \<and> irq i s = push_irq (fst q, snd q, a) \<and>
     irq_ok (fst q, snd q, a) \<and> holds l i s)"

text \<open>
  \<open>same_ctx L s t\<close>: the machine has run from \<open>s\<close> to \<open>t\<close> on the same processor with its interrupt
  state restored, using only the locks in \<open>L\<close> and leaving those free.  Only \<open>intena\<close>, which is
  meaningful only while nested, may differ in a \<open>struct cpu\<close>.
\<close>

definition same_cpus :: "cpu list \<Rightarrow> cpu list \<Rightarrow> bool" where
  "same_cpus xs ys \<longleftrightarrow> length ys = length xs \<and>
     (\<forall>j. \<exists>a. ys ! j = (xs ! j)\<lparr>intena := a\<rparr> \<and> (ncli (xs ! j) \<noteq> 0 \<longrightarrow> ys ! j = xs ! j))"

definition same_ctx :: "lockid set \<Rightarrow> 'x mach_scheme \<Rightarrow> 'x mach_scheme \<Rightarrow> bool" where
  "same_ctx L s t \<longleftrightarrow> this t = this s \<and> ncpu t = ncpu s \<and> lapic t = lapic s \<and> hw t = hw s \<and>
     same_cpus (cpus s) (cpus t) \<and>
     (\<forall>l. if l \<in> L then locked (locks t l) = 0 else locks t l = locks s l)"

definition opened :: "'x mach_scheme \<Rightarrow> 'x mach_scheme \<Rightarrow> bool" where
  "opened s t \<longleftrightarrow> this_cpu t = this_cpu s \<and> this t = this s \<and>
     (\<forall>j. cpu_proc (cpus t ! j) = cpu_proc (cpus s ! j))"

lemma same_cpus_refl [simp]: "same_cpus xs xs"
  unfolding same_cpus_def by (auto intro!: exI[of _ "intena _"] intena_same[symmetric])

lemma same_cpus_trans: "same_cpus xs ys \<Longrightarrow> same_cpus ys zs \<Longrightarrow> same_cpus xs zs"
proof -
  assume xy: "same_cpus xs ys" and yz: "same_cpus ys zs"
  have "\<exists>a. zs ! j = (xs ! j)\<lparr>intena := a\<rparr> \<and> (ncli (xs ! j) \<noteq> 0 \<longrightarrow> zs ! j = xs ! j)" for j
  proof -
    obtain a where a: "ys ! j = (xs ! j)\<lparr>intena := a\<rparr>" "ncli (xs ! j) \<noteq> 0 \<longrightarrow> ys ! j = xs ! j"
      using xy unfolding same_cpus_def by blast
    obtain b where b: "zs ! j = (ys ! j)\<lparr>intena := b\<rparr>" "ncli (ys ! j) \<noteq> 0 \<longrightarrow> zs ! j = ys ! j"
      using yz unfolding same_cpus_def by blast
    show ?thesis
      using a b by (intro exI[of _ b]) auto
  qed
  then show ?thesis
    using xy yz by (simp add: same_cpus_def)
qed

lemma same_cpus_fields:
  assumes "same_cpus xs ys"
  shows "apicid (ys ! j) = apicid (xs ! j)" and "ncli (ys ! j) = ncli (xs ! j)"
    and "cpu_proc (ys ! j) = cpu_proc (xs ! j)" and "length ys = length xs"
    and "ts (ys ! j) = ts (xs ! j)" and "gdt (ys ! j) = gdt (xs ! j)"
    and "ncli (xs ! j) \<noteq> 0 \<Longrightarrow> ys ! j = xs ! j"
  using assms unfolding same_cpus_def by (metis cpu.select_convs cpu.update_convs cpu.surjective)+

lemma same_cpus_update:
  assumes "\<exists>a. c = (xs ! i)\<lparr>intena := a\<rparr> \<and> (ncli (xs ! i) \<noteq> 0 \<longrightarrow> c = xs ! i)"
  shows "same_cpus xs (xs[i := c])"
proof -
  have "\<exists>a. xs[i := c] ! j = (xs ! j)\<lparr>intena := a\<rparr> \<and> (ncli (xs ! j) \<noteq> 0 \<longrightarrow> xs[i := c] ! j = xs ! j)"
    for j
  proof (cases "i = j \<and> i < length xs")
    case True
    then show ?thesis using assms by auto
  next
    case False
    then have "xs[i := c] ! j = xs ! j"
      by (cases "i = j") (auto simp: list_update_beyond)
    then show ?thesis
      by (auto intro!: exI[of _ "intena (xs ! j)"] intena_same[symmetric])
  qed
  then show ?thesis
    by (simp add: same_cpus_def)
qed

lemma same_ctx_refl [simp]: "same_ctx {} s s"
  by (simp add: same_ctx_def)

lemma same_ctx_locks:
  "same_ctx L s t \<Longrightarrow> l \<notin> L \<Longrightarrow> locks t l = locks s l"
  "same_ctx L s t \<Longrightarrow> l \<in> L \<Longrightarrow> locked (locks t l) = 0"
  by (meson same_ctx_def)+

lemma same_ctx_trans:
  assumes "same_ctx L s t" and "same_ctx M t u"
  shows "same_ctx (L \<union> M) s u"
proof -
  have "if l \<in> L \<union> M then locked (locks u l) = 0 else locks u l = locks s l" for l
    using same_ctx_locks[OF assms(1), of l] same_ctx_locks[OF assms(2), of l]
    by (cases "l \<in> L"; cases "l \<in> M") simp_all
  then show ?thesis
    using assms same_cpus_trans by (auto simp: same_ctx_def)
qed

lemma same_ctx_cpu:
  assumes "same_ctx L s t"
  shows "this_cpu t = this_cpu s"
    and "irq i t = (eflags (hw s (this s)), ncli (cpus s ! i), intena (cpus t ! i))"
    and "ncli (cpus s ! i) \<noteq> 0 \<Longrightarrow> irq i t = irq i s"
    and "cpu_proc (cpus t ! i) = cpu_proc (cpus s ! i)"
  using assms same_cpus_fields[of "cpus s" "cpus t"]
  by (auto simp: same_ctx_def irq_def intro!: this_cpu_cong)

lemma same_ctx_avail: "same_ctx L s t \<Longrightarrow> spin_avail l q s \<Longrightarrow> spin_avail l q t"
  using same_ctx_cpu(1,2)[of L s t] same_ctx_locks[of L s t l]
  by (cases "l \<in> L") (auto simp: spin_avail_def irq_ok_def irq_def)

lemma same_ctx_owned:
  assumes "same_ctx L s t" and "l \<notin> L" and "spin_owned l q s"
  shows "spin_owned l q t"
proof -
  obtain i a where i: "this_cpu s = Some i" "irq i s = push_irq (fst q, snd q, a)"
    "irq_ok (fst q, snd q, a)" "holds l i s"
    using assms(3) by (auto simp: spin_owned_def)
  have "ncli (cpus s ! i) \<noteq> 0"
    using i(2,3) by (auto simp: irq_def irq_ok_def)
  then have "irq i t = irq i s"
    using same_ctx_cpu(3)[OF assms(1)] by simp
  then show ?thesis
    using i same_ctx_cpu(1)[OF assms(1)] same_ctx_locks(1)[OF assms(1,2)]
    unfolding spin_owned_def holds_def by auto
qed

lemma same_ctx_update: "same_ctx {} s (mach.more_update f s)"
  by (simp add: same_ctx_def)

lemma opened_acquired:
  assumes "this_cpu s = Some i"
  shows "opened s (acquired l i s)"
proof -
  have "cpu_proc (cpus (acquired l i s) ! j) = cpu_proc (cpus s ! j)" for j
    by (cases "i < length (cpus s)"; cases "i = j")
      (simp_all add: acquired_def set_irq_def mach_defs list_update_beyond)
  then show ?thesis
    by (simp add: opened_def acquired_def) (simp add: upd_lock_def)
qed

lemma released_acquired_ctx:
  assumes i: "this_cpu s = Some i" and irq: "irq i s = (e, n, a)" and ok: "irq_ok (e, n, a)"
    and calm: "same_ctx L (acquired l i s) u"
  shows "same_ctx (insert l L) s (released l i u)"
proof -
  let ?t = "acquired l i s"
  obtain b where pop: "pop_irq (push_irq (e, n, a)) = (e, n, b)" "n \<noteq> 0 \<longrightarrow> b = a"
    using pop_push_irq[OF ok] by blast
  have il: "i < length (cpus s)"
    by (rule this_cpu_less[OF i])
  have irqt: "irq i ?t = push_irq (e, n, a)"
    using irq il by (simp add: acquired_def del: push_irq.simps)
  then have "ncli (cpus ?t ! i) \<noteq> 0"
    using ok by (auto simp: irq_def irq_ok_def)
  note c = same_ctx_cpu(3)[OF calm this] same_cpus_fields(7)[of "cpus ?t" "cpus u", OF _ this]
  have u: "this u = this s" "ncpu u = ncpu s" "lapic u = lapic s" "hw u = hw ?t"
    "same_cpus (cpus ?t) (cpus u)"
    using calm by (simp_all add: same_ctx_def acquired_def upd_lock_def)
  have pop_u: "pop_irq (irq i u) = (e, n, b)"
    unfolding c(1) irqt by (rule pop(1))
  have hw: "hw (released l i u) = hw s"
    using u irq unfolding released_def pop_u
    by (auto simp: set_irq_def mach_defs irq_def acquired_def)
  have "\<exists>a. cpus (released l i u) ! j = (cpus s ! j)\<lparr>intena := a\<rparr> \<and>
      (ncli (cpus s ! j) \<noteq> 0 \<longrightarrow> cpus (released l i u) ! j = cpus s ! j)" for j
  proof (cases "i = j")
    case True
    have "cpus u ! i = cpus ?t ! i"
      using c(2) u(5) by simp
    then show ?thesis
      using True il pop(2) irq same_cpus_fields(4)[OF u(5)] unfolding released_def pop_u
      by (intro exI[of _ b]) (auto simp: set_irq_def mach_defs acquired_def irq_def intena_same)
  next
    case False
    then have "cpus (released l i u) ! j = cpus u ! j" "cpus ?t ! j = cpus s ! j"
      by (simp_all add: released_def acquired_def set_irq_def mach_defs)
    then show ?thesis
      using u(5) unfolding same_cpus_def by metis
  qed
  moreover have "length (cpus (released l i u)) = length (cpus s)"
    using same_cpus_fields(4)[OF u(5)] by (simp add: released_def acquired_def mach_defs)
  moreover have "if k \<in> insert l L then locked (locks (released l i u) k) = 0
      else locks (released l i u) k = locks s k" for k
    using same_ctx_locks[OF calm, of k] by (auto simp: released_def acquired_def upd_lock_def)
  ultimately show ?thesis
    using u hw by (simp add: same_ctx_def same_cpus_def) (simp add: released_def upd_lock_def)
qed

lemma spin_avail_acquire:
  assumes "spin_avail l q s"
  obtains i a where "this_cpu s = Some i" and "irq i s = (fst q, snd q, a)"
    and "irq_ok (fst q, snd q, a)" and "acquire l s = Inr ((), acquired l i s)"
proof -
  from assms obtain i a where i: "this_cpu s = Some i" "irq i s = (fst q, snd q, a)"
    "irq_ok (fst q, snd q, a)" "locked (locks s l) = 0"
    by (auto simp: spin_avail_def)
  then show thesis
    using that[of i a] acquire_run[OF i(1), of l] by (simp add: holds_def)
qed

lemma spin_owned_release:
  assumes "spin_owned l q t"
  obtains i a where "this_cpu t = Some i" and "irq i t = push_irq (fst q, snd q, a)"
    and "irq_ok (fst q, snd q, a)" and "release l t = Inr ((), released l i t)"
proof -
  from assms obtain i a where i: "this_cpu t = Some i" "irq i t = push_irq (fst q, snd q, a)"
    "irq_ok (fst q, snd q, a)" "holds l i t"
    by (auto simp: spin_owned_def)
  then show thesis
    using that[of i a] irq_ok_push[OF i(3)]
      release_run[OF i(1), of "fst (irq i t)" "fst (snd (irq i t))" "snd (snd (irq i t))" l]
    by (auto simp: irq_ok_def)
qed

interpretation spin: mutex "acquire l" "release l" mach.more "spin_avail l" "spin_owned l"
  opened "same_ctx (L - {l})" "same_ctx (insert l L)" for l L
proof (unfold_locales, goal_cases)
  case (1 q s)
  then obtain i a where i: "this_cpu s = Some i" "irq i s = (fst q, snd q, a)"
    "irq_ok (fst q, snd q, a)" "acquire l s = Inr ((), acquired l i s)"
    by (rule spin_avail_acquire)
  have "spin_owned l q (acquired l i s)"
    using i this_cpu_less[OF i(1)]
    by (auto simp: spin_owned_def acquired_def holds_def)
      (auto simp: upd_lock_def)
  then show ?case
    using i opened_acquired[OF i(1)] by (auto simp: acquired_def)
next
  case (2 q t)
  then obtain i a where i: "this_cpu t = Some i" "irq i t = push_irq (fst q, snd q, a)"
    "irq_ok (fst q, snd q, a)" "release l t = Inr ((), released l i t)"
    by (rule spin_owned_release)
  obtain a' where a': "pop_irq (irq i t) = (fst q, snd q, a')"
    using pop_push_irq[OF i(3)] i(2) by metis
  have "spin_avail l q (released l i t)"
    using i a' this_cpu_less[OF i(1)]
    by (auto simp: spin_avail_def released_def irq_ok_def)
      (auto simp: upd_lock_def)
  then show ?case
    using i(4) by (auto simp: released_def)
next
  case (3 q t u)
  then show ?case
    by (auto intro: same_ctx_owned)
next
  case (4 q s t u v)
  from 4(1) obtain i a where i: "this_cpu s = Some i" "irq i s = (fst q, snd q, a)"
    "irq_ok (fst q, snd q, a)" "acquire l s = Inr ((), acquired l i s)"
    by (rule spin_avail_acquire)
  have t: "t = acquired l i s"
    using i(4) 4(2) by simp
  have "spin_owned l q t"
    using i this_cpu_less[OF i(1)] unfolding t
    by (auto simp: spin_owned_def acquired_def holds_def) (auto simp: upd_lock_def)
  then have "spin_owned l q u"
    using 4(3) by (auto intro: same_ctx_owned)
  then obtain j b where j: "this_cpu u = Some j" "release l u = Inr ((), released l j u)"
    by (rule spin_owned_release)
  have "j = i"
    using j(1) i(1) same_ctx_cpu(1)[OF 4(3)] opened_acquired[OF i(1)] by (simp add: t opened_def)
  then show ?case
    using released_acquired_ctx[OF i(1-3), of "L - {l}" l u] 4(3,4) j(2) t by simp
qed

section \<open>Interleaved processors\<close>

text \<open>
  One lock under any interleaving of any number of processors, at the granularity of its memory
  accesses: the check of \<open>holding\<close> at the head of \<open>acquire\<close>, each iteration of the \<open>xchg\<close> loop
  (which stores 1 whether or not it wins), the store of \<open>lk->cpu\<close>, and in \<open>release\<close> the check, the
  clearing of \<open>lk->cpu\<close> and the final store of 0.  A failed check is a panic.
\<close>

datatype lock_pc = Outside | Spinning | Won | Inside | Leaving | Panicked

record spin_sys =
  w_locked :: u32
  w_cpu :: "nat option"
  pc :: "nat \<Rightarrow> lock_pc"

definition goto :: "nat \<Rightarrow> lock_pc \<Rightarrow> spin_sys \<Rightarrow> spin_sys" where
  "goto c p s = s\<lparr>pc := (pc s)(c := p)\<rparr>"

definition holding_now :: "nat \<Rightarrow> spin_sys \<Rightarrow> bool" where
  "holding_now c s \<longleftrightarrow> w_locked s \<noteq> 0 \<and> w_cpu s = Some c"

inductive spin_step :: "spin_sys \<Rightarrow> spin_sys \<Rightarrow> bool" where
  acquire_check: "pc s c = Outside \<Longrightarrow>
     spin_step s (goto c (if holding_now c s then Panicked else Spinning) s)"
| xchg: "pc s c = Spinning \<Longrightarrow>
     spin_step s (goto c (if w_locked s = 0 then Won else Spinning) (s\<lparr>w_locked := 1\<rparr>))"
| set_cpu: "pc s c = Won \<Longrightarrow> spin_step s (goto c Inside (s\<lparr>w_cpu := Some c\<rparr>))"
| release_check: "pc s c = Inside \<Longrightarrow> \<not> holding_now c s \<Longrightarrow> spin_step s (goto c Panicked s)"
| clear_cpu: "pc s c = Inside \<Longrightarrow> holding_now c s \<Longrightarrow>
     spin_step s (goto c Leaving (s\<lparr>w_cpu := None\<rparr>))"
| store_zero: "pc s c = Leaving \<Longrightarrow> spin_step s (goto c Outside (s\<lparr>w_locked := 0\<rparr>))"

definition spin_init :: spin_sys where
  "spin_init = \<lparr>w_locked = 0, w_cpu = None, pc = (\<lambda>_. Outside)\<rparr>"

definition owns_lock :: "nat \<Rightarrow> spin_sys \<Rightarrow> bool" where
  "owns_lock c s \<longleftrightarrow> pc s c \<in> {Won, Inside, Leaving}"

definition spin_inv :: "spin_sys \<Rightarrow> bool" where
  "spin_inv s \<longleftrightarrow>
     (\<forall>c d. owns_lock c s \<longrightarrow> owns_lock d s \<longrightarrow> c = d) \<and>
     (\<forall>c. owns_lock c s \<longrightarrow> w_locked s \<noteq> 0) \<and>
     (\<forall>c. pc s c = Inside \<longleftrightarrow> w_cpu s = Some c) \<and>
     (\<forall>c. pc s c \<noteq> Panicked)"

lemma spin_inv_init: "spin_inv spin_init"
  by (simp add: spin_inv_def spin_init_def owns_lock_def)

lemma spin_inv_owner:
  "spin_inv s \<Longrightarrow> owns_lock c s \<Longrightarrow> w_locked s \<noteq> 0 \<and> (\<forall>d. d \<noteq> c \<longrightarrow> \<not> owns_lock d s)"
  unfolding spin_inv_def by blast

lemma spin_inv_inside: "spin_inv s \<Longrightarrow> pc s c = Inside \<longleftrightarrow> w_cpu s = Some c"
  unfolding spin_inv_def by blast

lemma spin_inv_no_panic: "spin_inv s \<Longrightarrow> pc s c \<noteq> Panicked"
  unfolding spin_inv_def by blast

lemmas spin_invE = spin_inv_owner spin_inv_inside spin_inv_no_panic

lemma spin_inv_step: "spin_step s t \<Longrightarrow> spin_inv s \<Longrightarrow> spin_inv t"
proof (induction rule: spin_step.induct)
  case (acquire_check s c)
  then have "w_cpu s \<noteq> Some c"
    by (auto simp flip: spin_inv_inside)
  then show ?case
    using acquire_check by (auto simp: spin_inv_def owns_lock_def holding_now_def goto_def)
next
  case (xchg s c)
  show ?case
  proof (cases "w_locked s = 0")
    case True
    then have "\<not> owns_lock d s" for d
      using xchg(2) spin_inv_owner by blast
    moreover from this have "w_cpu s = None"
      using spin_inv_inside[OF xchg(2)] by (cases "w_cpu s") (auto simp: owns_lock_def)
    ultimately show ?thesis
      using True spin_inv_no_panic[OF xchg(2)] by (auto simp: spin_inv_def owns_lock_def goto_def)
  next
    case False
    then show ?thesis
      using xchg by (simp add: spin_inv_def owns_lock_def goto_def fun_upd_idem)
  qed
next
  case (set_cpu s c)
  then have c: "owns_lock c s"
    by (simp add: owns_lock_def)
  show ?case
    using set_cpu(1) spin_inv_owner[OF set_cpu(2) c] spin_inv_no_panic[OF set_cpu(2)]
    by (auto simp: spin_inv_def owns_lock_def goto_def)
next
  case (release_check s c)
  then have "owns_lock c s"
    by (simp add: owns_lock_def)
  then have "holding_now c s"
    using release_check(1,3) spin_invE[OF release_check(3)] by (simp add: holding_now_def)
  then show ?case
    using release_check(2) by simp
next
  case (clear_cpu s c)
  then have c: "owns_lock c s"
    by (simp add: owns_lock_def)
  show ?case
    using clear_cpu(1) spin_inv_owner[OF clear_cpu(3) c] spin_inv_no_panic[OF clear_cpu(3)]
    by (auto simp: spin_inv_def owns_lock_def goto_def)
next
  case (store_zero s c)
  then have c: "owns_lock c s"
    by (simp add: owns_lock_def)
  have "pc s d \<noteq> Inside" for d
    using spin_inv_owner[OF store_zero(2) c] store_zero(1) by (cases "d = c") (auto simp: owns_lock_def)
  then have "w_cpu s = None"
    using spin_inv_inside[OF store_zero(2)] by (cases "w_cpu s") auto
  then show ?case
    using store_zero(1) spin_inv_owner[OF store_zero(2) c] spin_inv_no_panic[OF store_zero(2)]
    by (auto simp: spin_inv_def owns_lock_def goto_def)
qed

lemma spin_inv_reachable: "spin_step\<^sup>*\<^sup>* spin_init s \<Longrightarrow> spin_inv s"
  by (induction rule: rtranclp_induct) (auto intro: spin_inv_init spin_inv_step)

section \<open>Nested interrupt disabling\<close>

lemma kseq_pushes:
  "this_cpu s = Some i \<Longrightarrow>
    kseq (replicate n pushcli @ ms) s = kseq ms (set_irq i ((push_irq ^^ n) (irq i s)) s)"
proof (induction n arbitrary: s)
  case (Suc n)
  then show ?case
    using this_cpu_less[OF Suc.prems]
    by (simp add: kbind_Inr[of pushcli, OF pushcli_run] funpow_swap1 del: push_irq.simps)
qed simp

lemma push_irq_ncli: "fst (snd ((push_irq ^^ n) x)) = fst (snd x) + int n"
proof (induction n)
  case (Suc n)
  then show ?case
    by (cases "(push_irq ^^ n) x") simp
qed simp

lemma irq_ok_pushes: "irq_ok x \<Longrightarrow> irq_ok ((push_irq ^^ n) x)"
  by (induction n) (auto intro: irq_ok_push)

lemma kseq_pops:
  assumes "this_cpu s = Some i" and "irq i s = (push_irq ^^ n) (e, m, a)" and "irq_ok (e, m, a)"
  shows "\<exists>a'. kseq (replicate n popcli) s = Inr ((), set_irq i (e, m, a') s) \<and> (m \<noteq> 0 \<longrightarrow> a' = a)"
  using assms
proof (induction n arbitrary: s a)
  case 0
  then show ?case
    using set_irq_irq[of i s] by (auto intro!: exI[of _ a])
next
  case (Suc n)
  obtain e' m' a' where y: "(push_irq ^^ n) (e, m, a) = (e', m', a')"
    by (cases "(push_irq ^^ n) (e, m, a)")
  have ok: "irq_ok (e', m', a')"
    using irq_ok_pushes[OF Suc.prems(3), of n] y by simp
  have m': "m' = m + int n"
    using push_irq_ncli[of n "(e, m, a)"] y by simp
  obtain b where b: "pop_irq (push_irq (e', m', a')) = (e', m', b)" "m' \<noteq> 0 \<longrightarrow> b = a'"
    using pop_push_irq[OF ok] by blast
  let ?t = "set_irq i (e', m', b) s"
  obtain x where x: "push_irq (e', m', a') = (fst x, m' + 1, snd x)"
    by (metis fst_conv push_irq.simps snd_conv)
  have "popcli s = Inr ((), set_irq i (pop_irq (fst x, m' + 1, snd x)) s)"
    using Suc.prems(2) push_irq_off[of "(e', m', a')"] y ok x
    by (intro popcli_run[OF Suc.prems(1)]) (simp_all add: irq_ok_def del: push_irq.simps)
  then have run: "popcli s = Inr ((), ?t)"
    using b(1) unfolding x by (simp del: pop_irq.simps)
  have t: "this_cpu ?t = Some i" "irq i ?t = (e', m', b)"
    using Suc.prems(1) this_cpu_less[OF Suc.prems(1)] by simp_all
  show ?case
  proof (cases "n = 0")
    case True
    then show ?thesis
      using y b by (auto simp: kbind_Inr[of popcli, OF run] intro!: exI[of _ b])
  next
    case False
    then have "b = a'"
      using b(2) m' Suc.prems(3) by (auto simp: irq_ok_def)
    then show ?thesis
      using Suc.IH[OF t(1), of a] t(2) y run Suc.prems(3)
      by (simp add: kbind_Inr[of popcli, OF run])
  qed
qed

section \<open>Properties\<close>

text \<open>
  C1: mutual exclusion.  Under every interleaving of processors that call \<open>acquire\<close> and \<open>release\<close>
  on one spinlock, at most one processor is between winning its \<open>xchg\<close> and storing 0, and neither
  the \<open>panic("acquire")\<close> nor the \<open>panic("release")\<close> check ever fires.
\<close>
theorem spinlock_mutual_exclusion:
  assumes "spin_step\<^sup>*\<^sup>* spin_init s"
  shows "(owns_lock c s \<and> owns_lock d s \<longrightarrow> c = d) \<and> pc s c \<noteq> Panicked"
  using spin_inv_reachable[OF assms] by (auto simp: spin_inv_def)

theorem spinlock_mutual_exclusion_witness:
  "\<not> owns_lock 1 (goto 0 Won ((goto 0 Spinning spin_init)\<lparr>w_locked := 1\<rparr>))"
proof -
  let ?s = "goto 0 Spinning spin_init"
  have "spin_step spin_init ?s"
    using acquire_check[of spin_init 0] by (simp add: spin_init_def holding_now_def)
  moreover have "spin_step ?s (goto 0 Won (?s\<lparr>w_locked := 1\<rparr>))"
    using xchg[of ?s 0] by (simp add: goto_def spin_init_def)
  ultimately have "spin_step\<^sup>*\<^sup>* spin_init (goto 0 Won (?s\<lparr>w_locked := 1\<rparr>))"
    by (meson converse_rtranclp_into_rtranclp rtranclp.rtrancl_refl)
  from spinlock_mutual_exclusion[OF this, of 0 1] show ?thesis
    by (auto simp: owns_lock_def goto_def)
qed


text \<open>A machine with two processors, used to exercise the theorems.\<close>

definition cpu0 :: cpu where
  "cpu0 = \<lparr>apicid = 0, ts = \<lparr>ts_esp0 = 0, ts_ss0 = 0, ts_iomb = 0\<rparr>, gdt = replicate 6 (SEG 0 0 0 0), started = 1,
     ncli = 0, intena = 0, cpu_proc = None\<rparr>"

definition lock0 :: spinlock where
  "lock0 = \<lparr>locked = 0, lk_name = [], lk_cpu = None, pcs = replicate 10 0\<rparr>"

definition mach2 :: "'x \<Rightarrow> 'x mach_scheme" where
  "mach2 x = \<lparr>cpus = [cpu0, cpu0\<lparr>apicid := 1\<rparr>], ncpu = 2, lapic = 0xFEE00000,
     hw = (\<lambda>j. \<lparr>eflags = 0x200, lapic_reg = (\<lambda>_. push_bit 24 (of_nat j)), cr3 = 0, task_reg = 0, gdtr = None\<rparr>),
     this = 0, locks = (\<lambda>_. lock0), stack_word = (\<lambda>_. 0), arg_addr = 0,
     ts_addr = (\<lambda>i. 0x80112000 + 0xB0 * of_nat i), \<dots> = x\<rparr>"

lemma mach2_this_cpu: "this_cpu (mach2 x) = Some 0" "this_cpu (mach2 x\<lparr>this := 1\<rparr>) = Some 1"
  by (simp_all add: mach2_def this_cpu_def lapic_id_def cpu0_def first_index_def)

lemma mach2_irq: "irq 0 (mach2 x) = (0x200, 0, 0)" "irq 1 (mach2 x\<lparr>this := 1\<rparr>) = (0x200, 0, 0)"
  by (simp_all add: mach2_def irq_def cpu0_def)

lemma mach2_avail: "spin_avail l (0x200, 0) (mach2 x)"
  by (simp add: spin_avail_def mach2_this_cpu mach2_irq irq_ok_def)
    (simp add: mach2_def lock0_def)


text \<open>
  C2: a critical section.  Taking a free lock, updating the protected state and releasing it
  succeeds; the lock is free again, the update has happened, and the interrupt flag and nesting
  depth are those of the caller.  While the section runs the lock is held by this processor with
  interrupts off.
\<close>
theorem critical_section_atomic:
  assumes "spin_avail l q s"
  shows "\<exists>t u. acquire l s = Inr ((), t) \<and> spin_owned l q t \<and> mach.more t = mach.more s \<and>
      kseq [acquire l, kmodify (mach.more_update f), release l] s = Inr ((), u) \<and>
      spin_avail l q u \<and> same_ctx {l} s u \<and> mach.more u = f (mach.more s)"
  using spin.critical_modify[OF assms, of "{}" "mach.more_update f" "f (mach.more s)"]
    spin.acq_total[OF assms] same_ctx_update by auto

theorem critical_section_atomic_witness:
  "\<exists>u. kseq [acquire Ticks_lock, kmodify (mach.more_update Suc), release Ticks_lock] (mach2 41) =
     Inr ((), u) \<and> mach.more u = 42"
  using critical_section_atomic[OF mach2_avail[of Ticks_lock 41], of Suc]
  by (auto simp: mach2_def)

text \<open>
  C4: misuse is caught.  A processor that acquires a lock it already holds panics instead of
  spinning on itself, and one that releases a lock it does not hold panics.
\<close>
theorem lock_misuse_panics:
  assumes "spin_avail l q s"
  shows "kseq [acquire l, acquire l] s = Inl (Panic ''acquire'') \<and>
      kseq [pushcli, release l] s = Inl (Panic ''release'')"
proof
  obtain t where t: "acquire l s = Inr ((), t)" "spin_owned l q t"
    using spin.acq_total[OF assms] by blast
  then obtain i where i: "this_cpu t = Some i" "irq_ok (irq i t)" "holds l i t"
    unfolding spin_owned_def using irq_ok_push by metis
  show "kseq [acquire l, acquire l] s = Inl (Panic ''acquire'')"
    using t i acquire_run[OF i(1,2), of l] by (simp add: kbind_def)
next
  obtain i a where i: "this_cpu s = Some i" "irq i s = (fst q, snd q, a)"
    "irq_ok (fst q, snd q, a)" "locked (locks s l) = 0"
    using assms by (auto simp: spin_avail_def)
  let ?t = "set_irq i (push_irq (irq i s)) s"
  obtain x where x: "irq i ?t = (fst x, snd q + 1, snd x)"
    using this_cpu_less[OF i(1)] i(2) by (metis fst_conv irq_set_irq push_irq.simps snd_conv)
  have ok: "irq_ok (fst x, snd q + 1, snd x)"
    using irq_ok_push[OF i(3)] x this_cpu_less[OF i(1)] i(2) by (simp del: push_irq.simps)
  show "kseq [pushcli, release l] s = Inl (Panic ''release'')"
    using release_run[OF _ x ok, of l] i ok
    by (simp add: kbind_Inr[of pushcli, OF pushcli_run] holds_def irq_ok_def del: push_irq.simps)
      (auto simp: kbind_def irq_ok_def)
qed

theorem lock_misuse_panics_witness:
  "kseq [acquire Kmem_lock, acquire Kmem_lock] (mach2 ()) = Inl (Panic ''acquire'')"
  using lock_misuse_panics[OF mach2_avail[of Kmem_lock "()"]] by simp

end
