(* ===== verification/Cstring.thy ===== *)
theory Cstring
  imports Prelude
begin

unbundle bit_operations_syntax

text \<open>
  Byte-addressed memory and the string routines of \<open>src/string.c\<close> (kernel) and \<open>src/ulib.c\<close> (user
  library) over it, with the two string instructions of \<open>src/x86.h\<close> they use.  A pointer is a 32-bit
  address; pointer arithmetic wraps.  Counted loops recurse on the count.  Loops that run to a NUL
  byte are partial functions, whose value is \<open>None\<close> when the loop does not end.
\<close>

type_synonym memory = "u32 \<Rightarrow> u8"

section \<open>Little-endian words in memory\<close>

definition rd32 :: "memory \<Rightarrow> u32 \<Rightarrow> u32" where
  "rd32 m a = ucast (m a) OR push_bit 8 (ucast (m (a + 1)))
     OR push_bit 16 (ucast (m (a + 2))) OR push_bit 24 (ucast (m (a + 3)))"

definition wr32 :: "memory \<Rightarrow> u32 \<Rightarrow> u32 \<Rightarrow> memory" where
  "wr32 m a v = m(a := ucast v, a + 1 := ucast (drop_bit 8 v),
     a + 2 := ucast (drop_bit 16 v), a + 3 := ucast (drop_bit 24 v))"

section \<open>x86.h: string instructions\<close>

fun stosb :: "memory \<Rightarrow> u32 \<Rightarrow> u8 \<Rightarrow> nat \<Rightarrow> memory" where
  "stosb m a c 0 = m"
| "stosb m a c (Suc n) = stosb (m(a := c)) (a + 1) c n"

fun stosl :: "memory \<Rightarrow> u32 \<Rightarrow> u32 \<Rightarrow> nat \<Rightarrow> memory" where
  "stosl m a v 0 = m"
| "stosl m a v (Suc n) = stosl (wr32 m a v) (a + 4) v n"

section \<open>string.c\<close>

definition memset :: "memory \<Rightarrow> u32 \<Rightarrow> u32 \<Rightarrow> u32 \<Rightarrow> memory" where
  "memset m dst c n =
     (if dst mod 4 = 0 \<and> n mod 4 = 0 then
        let c = c AND 0xFF in
        stosl m dst (push_bit 24 c OR push_bit 16 c OR push_bit 8 c OR c) (unat (n div 4))
      else stosb m dst (ucast c) (unat n))"

fun memcmp_loop :: "memory \<Rightarrow> u32 \<Rightarrow> u32 \<Rightarrow> nat \<Rightarrow> int" where
  "memcmp_loop m s1 s2 0 = 0"
| "memcmp_loop m s1 s2 (Suc n) =
     (if m s1 \<noteq> m s2 then uint (m s1) - uint (m s2) else memcmp_loop m (s1 + 1) (s2 + 1) n)"

definition memcmp :: "memory \<Rightarrow> u32 \<Rightarrow> u32 \<Rightarrow> u32 \<Rightarrow> int" where
  "memcmp m v1 v2 n = memcmp_loop m v1 v2 (unat n)"

fun copy_down :: "memory \<Rightarrow> u32 \<Rightarrow> u32 \<Rightarrow> nat \<Rightarrow> memory" where
  "copy_down m d s 0 = m"
| "copy_down m d s (Suc n) = copy_down (m(d - 1 := m (s - 1))) (d - 1) (s - 1) n"

fun copy_up :: "memory \<Rightarrow> u32 \<Rightarrow> u32 \<Rightarrow> nat \<Rightarrow> memory" where
  "copy_up m d s 0 = m"
| "copy_up m d s (Suc n) = copy_up (m(d := m s)) (d + 1) (s + 1) n"

definition memmove :: "memory \<Rightarrow> u32 \<Rightarrow> u32 \<Rightarrow> u32 \<Rightarrow> memory" where
  "memmove m d s n =
     (if s < d \<and> s + n > d then copy_down m (d + n) (s + n) (unat n)
      else copy_up m d s (unat n))"

definition memcpy :: "memory \<Rightarrow> u32 \<Rightarrow> u32 \<Rightarrow> u32 \<Rightarrow> memory" where
  "memcpy m d s n = memmove m d s n"

fun strncmp_loop :: "memory \<Rightarrow> u32 \<Rightarrow> u32 \<Rightarrow> nat \<Rightarrow> int" where
  "strncmp_loop m p q 0 = 0"
| "strncmp_loop m p q (Suc n) =
     (if m p \<noteq> 0 \<and> m p = m q then strncmp_loop m (p + 1) (q + 1) n
      else uint (m p) - uint (m q))"

definition strncmp :: "memory \<Rightarrow> u32 \<Rightarrow> u32 \<Rightarrow> u32 \<Rightarrow> int" where
  "strncmp m p q n = strncmp_loop m p q (unat n)"

fun strncpy_loop :: "memory \<Rightarrow> u32 \<Rightarrow> u32 \<Rightarrow> nat \<Rightarrow> memory" where
  "strncpy_loop m s t 0 = m"
| "strncpy_loop m s t (Suc n) =
     (let m' = m(s := m t) in
      if m t \<noteq> 0 then strncpy_loop m' (s + 1) (t + 1) n else stosb m' (s + 1) 0 n)"

definition strncpy :: "memory \<Rightarrow> u32 \<Rightarrow> u32 \<Rightarrow> int \<Rightarrow> memory" where
  "strncpy m s t n = strncpy_loop m s t (nat n)"

text \<open>\<open>safestrcpy\<close>: the loop copies at most \<open>n - 1\<close> bytes, then one NUL is stored where it stopped.\<close>

fun safestrcpy_loop :: "memory \<Rightarrow> u32 \<Rightarrow> u32 \<Rightarrow> nat \<Rightarrow> memory" where
  "safestrcpy_loop m s t 0 = m(s := 0)"
| "safestrcpy_loop m s t (Suc n) =
     (let m' = m(s := m t) in
      if m t \<noteq> 0 then safestrcpy_loop m' (s + 1) (t + 1) n else m'(s + 1 := 0))"

definition safestrcpy :: "memory \<Rightarrow> u32 \<Rightarrow> u32 \<Rightarrow> int \<Rightarrow> memory" where
  "safestrcpy m s t n = (if n \<le> 0 then m else safestrcpy_loop m s t (nat (n - 1)))"

partial_function (option) strlen_from :: "memory \<Rightarrow> u32 \<Rightarrow> nat \<Rightarrow> nat option" where
  "strlen_from m s n = (if m (s + of_nat n) = 0 then Some n else strlen_from m s (Suc n))"

definition strlen :: "memory \<Rightarrow> u32 \<Rightarrow> nat option" where
  "strlen m s = strlen_from m s 0"

section \<open>ulib.c\<close>

partial_function (option) strcpy :: "memory \<Rightarrow> u32 \<Rightarrow> u32 \<Rightarrow> memory option" where
  "strcpy m s t =
     (let m' = m(s := m t) in if m t \<noteq> 0 then strcpy m' (s + 1) (t + 1) else Some m')"

partial_function (option) strcmp :: "memory \<Rightarrow> u32 \<Rightarrow> u32 \<Rightarrow> int option" where
  "strcmp m p q =
     (if m p \<noteq> 0 \<and> m p = m q then strcmp m (p + 1) (q + 1)
      else Some (uint (m p) - uint (m q)))"

definition ulib_memset :: "memory \<Rightarrow> u32 \<Rightarrow> u32 \<Rightarrow> u32 \<Rightarrow> memory" where
  "ulib_memset m dst c n = stosb m dst (ucast c) (unat n)"

partial_function (option) strchr :: "memory \<Rightarrow> u32 \<Rightarrow> u8 \<Rightarrow> u32 option" where
  "strchr m s c =
     (if m s = 0 then Some 0 else if m s = c then Some s else strchr m (s + 1) c)"

definition ulib_memmove :: "memory \<Rightarrow> u32 \<Rightarrow> u32 \<Rightarrow> int \<Rightarrow> memory" where
  "ulib_memmove m dst src n = copy_up m dst src (nat n)"

partial_function (option) atoi_from :: "memory \<Rightarrow> u32 \<Rightarrow> u32 \<Rightarrow> u32 option" where
  "atoi_from m s n =
     (if 48 \<le> m s \<and> m s \<le> 57 then atoi_from m (s + 1) (n * 10 + ucast (m s) - 48) else Some n)"

definition atoi :: "memory \<Rightarrow> u32 \<Rightarrow> u32 option" where
  "atoi m s = atoi_from m s 0"

declare strlen_from.simps [code] strcpy.simps [code] strcmp.simps [code] strchr.simps [code]
  atoi_from.simps [code]

section \<open>Words\<close>

lemma u32_distinct [simp]: "a + 1 \<noteq> (a :: u32)" "a + 2 \<noteq> a" "a + 3 \<noteq> a" "a + 2 \<noteq> a + 1"
  "a + 3 \<noteq> a + 1" "a + 3 \<noteq> a + 2"
  by simp_all

lemma word32_bytes:
  fixes v :: u32
  shows "ucast (ucast v :: u8) OR push_bit 8 (ucast (ucast (drop_bit 8 v) :: u8))
    OR push_bit 16 (ucast (ucast (drop_bit 16 v) :: u8))
    OR push_bit 24 (ucast (ucast (drop_bit 24 v) :: u8)) = v"
proof (rule bit_word_eqI, goal_cases)
  case (1 n)
  then show ?case
    by (cases "n < 8"; cases "n < 16"; cases "n < 24")
      (auto simp: bit_simps dest: bit_imp_le_length)
qed

lemma rd32_wr32_same: "rd32 (wr32 m a v) a = v"
  by (simp add: rd32_def wr32_def word32_bytes)

lemma wr32_other:
  "x \<noteq> a \<Longrightarrow> x \<noteq> a + 1 \<Longrightarrow> x \<noteq> a + 2 \<Longrightarrow> x \<noteq> a + 3 \<Longrightarrow> wr32 m a v x = m x"
  by (simp add: wr32_def)

lemma rd32_cong:
  "m a = m' a \<Longrightarrow> m (a + 1) = m' (a + 1) \<Longrightarrow> m (a + 2) = m' (a + 2) \<Longrightarrow>
    m (a + 3) = m' (a + 3) \<Longrightarrow> rd32 m a = rd32 m' a"
  by (simp add: rd32_def)

section \<open>Address ranges\<close>

text \<open>\<open>unat (x - a) < n\<close>: address \<open>x\<close> is one of the \<open>n\<close> bytes that start at \<open>a\<close>.\<close>

lemma unat_less_2p32 [simp]: "unat (x :: u32) < 4294967296"
  using unsigned_less[of x, where 'a = nat] by simp

lemma range_Suc:
  fixes x a :: u32
  shows "unat (x - a) < Suc n \<longleftrightarrow> x = a \<or> unat (x - (a + 1)) < n \<and> x \<noteq> a"
proof (cases "x = a")
  case False
  then have "unat (x - a - 1) = unat (x - a) - 1" "0 < unat (x - a)"
    by (simp_all add: unat_minus_one unat_gt_0)
  then show ?thesis
    using False by (auto simp: diff_diff_eq)
qed simp

lemma range_head_out: "n < 4294967296 \<Longrightarrow> \<not> unat (a - (a + 1) :: u32) < n"
proof -
  have "a - (a + 1) = (0 - 1 :: u32)"
    by simp
  then have "unat (a - (a + 1)) = 4294967295"
    unfolding unat_sub_if'[of 0 1] by (simp only: unat_sub_if'[of 0 1]) simp
  then show "n < 4294967296 \<Longrightarrow> ?thesis"
    by simp
qed

lemma range_Suc_end:
  fixes x d :: u32
  assumes "Suc n \<le> 4294967296"
  shows "unat (x - (d - of_nat (Suc n))) < Suc n \<longleftrightarrow>
    x = d - 1 \<or> unat (x - (d - 1 - of_nat n)) < n \<and> x \<noteq> d - 1"
proof -
  let ?y = "x - (d - 1 - of_nat n)"
  have "?y = of_nat n \<longleftrightarrow> x = d - 1"
    by (auto simp: algebra_simps)
  moreover have "unat (of_nat n :: u32) = n"
    using assms by (simp add: unat_of_nat)
  ultimately have "unat ?y = n \<longleftrightarrow> x = d - 1"
    by (metis unsigned_word_eqI)
  moreover have "x - (d - of_nat (Suc n)) = ?y"
    by (simp add: algebra_simps)
  ultimately show ?thesis
    by (simp only: less_Suc_eq) blast
qed

section \<open>memset\<close>

lemma stosb_run:
  "n \<le> 4294967296 \<Longrightarrow> stosb m a c n = (\<lambda>x. if unat (x - a) < n then c else m x)"
proof (induction n arbitrary: m a)
  case (Suc n)
  show ?case
  proof
    fix x
    show "stosb m a c (Suc n) x = (if unat (x - a) < Suc n then c else m x)"
      using Suc.prems range_Suc[of x a n] range_head_out[of n a]
      by (auto simp: Suc.IH simp del: diff_add_cancel)
  qed
qed simp

lemma stosb_add: "stosb m a c (k + n) = stosb (stosb m a c k) (a + of_nat k) c n"
  by (induction k arbitrary: m a) (simp_all add: add.assoc)

lemma ucast_8_replicated:
  fixes c :: u8
  defines "v \<equiv> push_bit 24 (ucast c) OR push_bit 16 (ucast c) OR push_bit 8 (ucast c) OR (ucast c :: u32)"
  shows "ucast v = c" and "ucast (drop_bit 8 v) = c" and "ucast (drop_bit 16 v) = c"
    and "ucast (drop_bit 24 v) = c"
  unfolding v_def
  by (intro bit_word_eqI, auto simp: bit_simps dest: bit_imp_le_length)+

lemma wr32_replicated:
  fixes c :: u8
  shows "wr32 m a (push_bit 24 (ucast c) OR push_bit 16 (ucast c) OR push_bit 8 (ucast c) OR ucast c)
    = stosb m a c 4"
  unfolding wr32_def ucast_8_replicated by (simp add: numeral_eq_Suc add.assoc)

lemma stosl_replicated:
  fixes c :: u8
  shows "stosl m a (push_bit 24 (ucast c) OR push_bit 16 (ucast c) OR push_bit 8 (ucast c) OR ucast c) n
    = stosb m a c (4 * n)"
proof (induction n arbitrary: m a)
  case (Suc n)
  have "4 * Suc n = 4 + 4 * n"
    by simp
  then show ?case
    by (simp only: stosl.simps wr32_replicated Suc.IH stosb_add) simp
qed simp

lemma ucast_and_ff: "c AND 0xFF = (ucast (ucast c :: u8) :: u32)"
proof -
  have "(0xFF :: u32) = mask 8"
    by (simp add: mask_eq_exp_minus_1)
  then show ?thesis
    by (simp only:) (intro bit_word_eqI, auto simp only: bit_simps possible_bit_word, simp_all)
qed

lemma memset_run: "memset m dst c n = (\<lambda>x. if x - dst < n then ucast c else m x)"
proof -
  have "memset m dst c n = stosb m dst (ucast c) (unat n)"
  proof (cases "dst mod 4 = 0 \<and> n mod 4 = 0")
    case True
    then have "unat n mod 4 = 0"
      using unat_mod[of n 4] by simp
    then have "unat n = 4 * unat (n div 4)"
      using mult_div_mod_eq[of 4 "unat n"] by (simp add: unat_div)
    then show ?thesis
      using True by (simp only: memset_def Let_def ucast_and_ff stosl_replicated if_True simp_thms)
  next
    case False
    then show ?thesis
      by (simp only: memset_def if_False)
  qed
  then show ?thesis
    by (simp add: stosb_run less_imp_le word_less_nat_alt)
qed

section \<open>memmove\<close>

lemma copy_up_run:
  assumes "n \<le> 4294967296" and "d = s \<or> n \<le> unat (d - s)"
  shows "copy_up m d s n = (\<lambda>x. if unat (x - d) < n then m (s + (x - d)) else m x)"
  using assms
proof (induction n arbitrary: m d s)
  case (Suc n)
  have IH: "copy_up (m(d := m s)) (d + 1) (s + 1) n =
      (\<lambda>x. if unat (x - (d + 1)) < n then (m(d := m s)) (s + 1 + (x - (d + 1))) else (m(d := m s)) x)"
    using Suc.prems by (intro Suc.IH) auto
  show ?case
  proof
    fix x
    have shift: "s + 1 + (x - (d + 1)) = s + (x - d)"
      by simp
    have "(m(d := m s)) (s + (x - d)) = m (s + (x - d))" if "unat (x - d) < Suc n"
    proof (cases "d = s \<or> s + (x - d) \<noteq> d")
      case False
      then have "x - d = d - s"
        by (auto simp: algebra_simps)
      then show ?thesis
        using that Suc.prems False by simp
    qed auto
    then show "copy_up m d s (Suc n) x = (if unat (x - d) < Suc n then m (s + (x - d)) else m x)"
      using Suc.prems(1) range_Suc[of x d n] range_head_out[of n d]
      by (auto simp: IH shift simp del: diff_add_cancel fun_upd_apply) (simp_all add: fun_upd_def)
  qed
qed simp

lemma copy_down_run:
  assumes "n \<le> 4294967296" and "d = s \<or> n \<le> unat (s - d)"
  shows "copy_down m d s n =
    (\<lambda>x. if unat (x - (d - of_nat n)) < n then m (s - d + x) else m x)"
  using assms
proof (induction n arbitrary: m d s)
  case (Suc n)
  have IH: "copy_down (m(d - 1 := m (s - 1))) (d - 1) (s - 1) n =
      (\<lambda>x. if unat (x - (d - 1 - of_nat n)) < n then (m(d - 1 := m (s - 1))) (s - 1 - (d - 1) + x)
           else (m(d - 1 := m (s - 1))) x)"
    using Suc.prems by (intro Suc.IH) auto
  show ?case
  proof
    fix x
    let ?y = "x - (d - of_nat (Suc n))"
    have "(m(d - 1 := m (s - 1))) (s - d + x) = m (s - d + x)" if "unat ?y < Suc n" "x \<noteq> d - 1"
    proof (cases "d = s \<or> s - d + x \<noteq> d - 1")
      case False
      then have "x = d - 1 - (s - d)"
        by (auto simp: algebra_simps)
      then have "?y = of_nat n - (s - d)"
        by (simp add: algebra_simps)
      moreover have "unat (of_nat n :: u32) = n"
        using Suc.prems(1) by (simp add: unat_of_nat)
      ultimately have "unat ?y = n + 4294967296 - unat (s - d)"
        using Suc.prems(2) False unat_sub_if'[of "of_nat n" "s - d"] by (simp only:) simp
      then have False
        using that(1) unat_less_2p32[of "s - d"] by linarith
      then show ?thesis ..
    qed auto
    then show "copy_down m d s (Suc n) x = (if unat ?y < Suc n then m (s - d + x) else m x)"
      using Suc.prems(1) range_Suc_end[of n x d]
      by (simp add: IH del: of_nat_Suc)
  qed
qed simp

lemma memmove_run:
  assumes "unat s + unat n < 2 ^ 32" and "unat d + unat n \<le> 2 ^ 32"
  shows "memmove m d s n = (\<lambda>x. if x - d < n then m (s + (x - d)) else m x)"
proof (cases "s < d \<and> d < s + n")
  case True
  have "unat (s - d) = unat s + 4294967296 - unat d"
    using True by (simp add: unat_sub_if' word_less_nat_alt)
  then have "unat n \<le> unat (s + n - (d + n))"
    using assms(2) by simp
  then have "copy_down m (d + n) (s + n) (unat n) =
      (\<lambda>x. if unat (x - (d + n - n)) < unat n then m (s + n - (d + n) + x) else m x)"
    by (subst copy_down_run) (simp_all add: less_imp_le)
  moreover have "d + n - n = d" "s + n - (d + n) + x = s + (x - d)" for x
    by simp_all
  ultimately show ?thesis
    using True by (simp only: memmove_def word_less_nat_alt[of _ n] if_True simp_thms)
next
  case False
  have "d = s \<or> unat n \<le> unat (d - s)"
  proof (cases "s < d")
    case True
    have "unat (s + n) = unat s + unat n"
      using assms(1) by (simp add: unat_plus_if')
    then have "unat s + unat n \<le> unat d"
      using True False by (simp add: word_less_nat_alt)
    then show ?thesis
      using True by (simp add: unat_sub_if' word_less_nat_alt le_diff_conv2)
  next
    case False
    then have "d = s \<or> unat d < unat s"
      by (auto simp: word_less_nat_alt not_less le_less dest: unsigned_word_eqI)
    then show ?thesis
      using assms(1) by (auto simp: unat_sub_if')
  qed
  then show ?thesis
    using False by (auto simp: memmove_def copy_up_run less_imp_le word_less_nat_alt[of _ n])
qed

section \<open>NUL-terminated strings\<close>

text \<open>\<open>cstr m a xs\<close>: the string at \<open>a\<close> has the bytes \<open>xs\<close>, then a NUL.\<close>

primrec cstr :: "memory \<Rightarrow> u32 \<Rightarrow> u8 list \<Rightarrow> bool" where
  "cstr m a [] \<longleftrightarrow> m a = 0"
| "cstr m a (x # xs) \<longleftrightarrow> x \<noteq> 0 \<and> m a = x \<and> cstr m (a + 1) xs"

primrec bytes_at :: "memory \<Rightarrow> u32 \<Rightarrow> u8 list \<Rightarrow> bool" where
  "bytes_at m a [] \<longleftrightarrow> True"
| "bytes_at m a (x # xs) \<longleftrightarrow> m a = x \<and> bytes_at m (a + 1) xs"

lemma strlen_from_cstr: "cstr m (s + of_nat k) xs \<Longrightarrow> strlen_from m s k = Some (k + length xs)"
  by (induction xs arbitrary: k) (subst strlen_from.simps, simp add: algebra_simps)+

lemma strlen_cstr: "cstr m s xs \<Longrightarrow> strlen m s = Some (length xs)"
  using strlen_from_cstr[of m s 0 xs] by (simp add: strlen_def)

text \<open>The sign of a comparison: bytes compare as unsigned, a prefix is smaller.\<close>

definition byte_order :: "(u8 \<times> u8) set" where
  "byte_order = {(x, y). x < y}"

lemma strcmp_cstr:
  "cstr m p xs \<Longrightarrow> cstr m q ys \<Longrightarrow>
    \<exists>r. strcmp m p q = Some r \<and> (r = 0 \<longleftrightarrow> xs = ys) \<and> (r < 0 \<longleftrightarrow> (xs, ys) \<in> lexord byte_order)"
proof (induction xs arbitrary: p q ys)
  case Nil
  then show ?case
    by (cases ys) (auto simp: strcmp.simps[of m p q] uint_0_iff word_less_def uint_lt_0
        simp flip: linorder_not_le intro: order.strict_trans1)
next
  case (Cons x xs)
  show ?case
  proof (cases ys)
    case Nil
    then show ?thesis
      using Cons.prems by (auto simp: strcmp.simps[of m p q] uint_0_iff)
  next
    case (Cons y ys')
    then show ?thesis
      using Cons.IH[of "p + 1" "q + 1" ys'] Cons.prems
      by (auto simp: strcmp.simps[of m p q] byte_order_def word_less_def word_uint_eq_iff)
  qed
qed

lemma strncmp_loop_cstr:
  "cstr m p xs \<Longrightarrow> cstr m q ys \<Longrightarrow> strncmp_loop m p q n = 0 \<longleftrightarrow> take n xs = take n ys"
proof (induction n arbitrary: p q xs ys)
  case (Suc n)
  then show ?case
    by (cases xs; cases ys) (auto simp: word_uint_eq_iff)
qed simp

lemma strncmp_cstr:
  "cstr m p xs \<Longrightarrow> cstr m q ys \<Longrightarrow>
    strncmp m p q n = 0 \<longleftrightarrow> take (unat n) xs = take (unat n) ys"
  by (simp add: strncmp_def strncmp_loop_cstr)

lemma memcmp_loop_bytes:
  "bytes_at m p xs \<Longrightarrow> bytes_at m q ys \<Longrightarrow> length xs = n \<Longrightarrow> length ys = n \<Longrightarrow>
    memcmp_loop m p q n = 0 \<longleftrightarrow> xs = ys"
proof (induction n arbitrary: p q xs ys)
  case (Suc n)
  then show ?case
    by (cases xs; cases ys) (auto simp: word_uint_eq_iff)
qed simp

lemma strchr_cstr:
  "cstr m s xs \<Longrightarrow>
    strchr m s c = Some (case first_index (\<lambda>x. x = c) xs of None \<Rightarrow> 0 | Some i \<Rightarrow> s + of_nat i)"
  by (induction xs arbitrary: s)
    (subst strchr.simps, auto simp: add.assoc split: option.splits)+

text \<open>\<open>atoi\<close> reads the longest prefix of decimal digits, modulo \<open>2 ^ 32\<close>.\<close>

definition is_digit :: "u8 \<Rightarrow> bool" where
  "is_digit c \<longleftrightarrow> 48 \<le> c \<and> c \<le> 57"

definition digits_value :: "u8 list \<Rightarrow> nat" where
  "digits_value = foldl (\<lambda>n c. 10 * n + (unat c - 48)) 0"

lemma atoi_from_cstr:
  "cstr m s xs \<Longrightarrow> atoi_from m s (of_nat n) =
    Some (of_nat (foldl (\<lambda>n c. 10 * n + (unat c - 48)) n (takeWhile is_digit xs)))"
proof (induction xs arbitrary: s n)
  case Nil
  then show ?case
    by (subst atoi_from.simps) simp
next
  case (Cons x xs)
  have "of_nat n * 10 + ucast x - 48 = (of_nat (10 * n + (unat x - 48)) :: u32)" if "is_digit x"
    using that by (simp add: is_digit_def word_le_nat_alt of_nat_diff)
  then show ?case
    using Cons.IH[of "s + 1" "10 * n + (unat x - 48)"] Cons.prems
    by (subst atoi_from.simps) (auto simp: is_digit_def[of "m s"] simp del: of_nat_add)
qed

lemma atoi_cstr: "cstr m s xs \<Longrightarrow> atoi m s = Some (of_nat (digits_value (takeWhile is_digit xs)))"
  using atoi_from_cstr[of m s xs 0] by (simp add: atoi_def digits_value_def)

section \<open>Bounded copies\<close>

definition apart :: "u32 \<Rightarrow> nat \<Rightarrow> u32 \<Rightarrow> nat \<Rightarrow> bool" where
  "apart s n t k \<longleftrightarrow> (\<forall>i<n. \<forall>j<k. s + of_nat i \<noteq> t + of_nat j)"

lemma apartD: "apart s n t k \<Longrightarrow> i < n \<Longrightarrow> j < k \<Longrightarrow> s + of_nat i \<noteq> t + of_nat j"
  unfolding apart_def by blast

lemma apart_head: "apart s (Suc n) t k \<Longrightarrow> j < k \<Longrightarrow> s \<noteq> t + of_nat j"
  using apartD[of s "Suc n" t k 0 j] by simp

lemma apart_Suc: "apart s (Suc n) t (Suc k) \<Longrightarrow> apart (s + 1) n (t + 1) k"
  using apartD[of s "Suc n" t "Suc k" "Suc _" "Suc _"] unfolding apart_def by (simp add: add.assoc)

lemma cstr_upd:
  "(\<And>j. j \<le> length xs \<Longrightarrow> a \<noteq> t + of_nat j) \<Longrightarrow> cstr (m(a := v)) t xs \<longleftrightarrow> cstr m t xs"
proof (induction xs arbitrary: t)
  case Nil
  then show ?case
    using Nil[of 0] by simp
next
  case (Cons x xs)
  have "a \<noteq> t"
    using Cons.prems[of 0] by simp
  moreover have "cstr (m(a := v)) (t + 1) xs \<longleftrightarrow> cstr m (t + 1) xs"
  proof (rule Cons.IH)
    fix j assume "j \<le> length xs"
    then show "a \<noteq> t + 1 + of_nat j"
      using Cons.prems[of "Suc j"] by (simp add: add.assoc)
  qed
  ultimately show ?case
    by (simp add: fun_upd_other del: fun_upd_apply)
qed

lemma safestrcpy_loop_other:
  "(\<And>i. i \<le> n \<Longrightarrow> a \<noteq> s + of_nat i) \<Longrightarrow> safestrcpy_loop m s t n a = m a"
proof (induction n arbitrary: m s t)
  case 0
  then show ?case
    using 0[of 0] by simp
next
  case (Suc n)
  have "a \<noteq> s + 1 + of_nat i" if "i \<le> n" for i
    using Suc.prems[of "Suc i"] that by (simp add: add.assoc)
  then show ?case
    using Suc.IH[of "s + 1"] Suc.prems[of 0] Suc.prems[of 1] by (simp add: Let_def)
qed

lemma safestrcpy_loop_cstr:
  assumes "cstr m t xs" and "Suc n < 2 ^ 32" and "apart s (Suc n) t (Suc (length xs))"
  shows "cstr (safestrcpy_loop m s t n) s (take n xs)"
  using assms
proof (induction n arbitrary: m s t xs)
  case (Suc n)
  have away: "s \<noteq> s + 1 + of_nat i" if "i \<le> n" for i
  proof
    assume "s = s + 1 + of_nat i"
    then have "of_nat (Suc i) = (0 :: u32)"
      by (simp add: add.assoc)
    moreover have "unat (of_nat (Suc i) :: u32) = Suc i"
      using that Suc.prems(2) unfolding unat_of_nat by (intro mod_less) simp
    ultimately show False
      by simp
  qed
  show ?case
  proof (cases xs)
    case Nil
    then show ?thesis
      using Suc.prems(1) by simp
  next
    case (Cons x xs')
    define m' where "m' = m(s := x)"
    have "cstr m' (t + 1) xs'"
      unfolding m'_def
      using Suc.prems(1) apart_head[OF Suc.prems(3), of "Suc _"] Cons
      by (subst cstr_upd) (simp_all add: add.assoc)
    moreover have "apart (s + 1) (Suc n) (t + 1) (Suc (length xs'))"
      using apart_Suc[OF Suc.prems(3)] Cons by simp
    ultimately have "cstr (safestrcpy_loop m' (s + 1) (t + 1) n) (s + 1) (take n xs')"
      using Suc.IH[of m' "t + 1" xs' "s + 1"] Suc.prems(2) by simp
    moreover have "safestrcpy_loop m' (s + 1) (t + 1) n s = x"
      using safestrcpy_loop_other[of n s "s + 1", OF away] by (simp add: m'_def)
    ultimately show ?thesis
      using Suc.prems(1) Cons by (simp flip: m'_def)
  qed
qed simp

lemma safestrcpy_cstr:
  assumes "cstr m t xs" and "0 < n" and "n < 2 ^ 32" and "apart s (nat n) t (Suc (length xs))"
  shows "cstr (safestrcpy m s t n) s (take (nat n - 1) xs)"
  using safestrcpy_loop_cstr[of m t xs "nat n - 1" s] assms
  by (simp add: safestrcpy_def nat_diff_distrib')

section \<open>Properties\<close>

text \<open>
  C9: the kernel's \<open>memmove\<close> copies correctly whether or not the regions overlap: every
  destination byte gets the source byte as it was before the call, and nothing else changes.
\<close>
theorem memmove_overlap:
  assumes "unat s + unat n < 2 ^ 32" and "unat d + unat n \<le> 2 ^ 32"
  shows "memmove m d s n x = (if x - d < n then m (s + (x - d)) else m x)"
  by (simp add: memmove_run[OF assms])

theorem memmove_overlap_witness:
  "memmove (\<lambda>a. ucast a) 0x1001 0x1000 3 0x1003 = 2"
  using memmove_overlap[where m = "\<lambda>a. ucast a" and d = "0x1001" and s = "0x1000" and n = 3 and x = "0x1003"]
  by simp

lemma copy_up_add:
  "copy_up m d s (k + n) = copy_up (copy_up m d s k) (d + of_nat k) (s + of_nat k) n"
  by (induction k arbitrary: m d s) (simp_all add: add.assoc)

lemma copy_up_other: "n \<le> 4294967296 \<Longrightarrow> \<not> unat (x - d) < n \<Longrightarrow> copy_up m d s n x = m x"
proof (induction n arbitrary: m d s)
  case (Suc n)
  have out: "x \<noteq> d" "\<not> unat (x - (d + 1)) < n"
    using Suc.prems(2) range_Suc[of x d n] by auto
  define m' where "m' = m(d := m s)"
  have "copy_up m' (d + 1) (s + 1) n x = m' x"
    using Suc.prems(1) out(2) by (intro Suc.IH) simp_all
  then show ?case
    using out(1) by (simp add: m'_def)
qed simp

lemma copy_up_overlap:
  assumes "0 < unat (d - s)" and "unat (d - s) < n" and "n \<le> 4294967296"
  shows "copy_up m d s n (d + (d - s)) = m s"
proof -
  let ?k = "unat (d - s)"
  define m1 where "m1 = copy_up m d s ?k"
  have k: "(of_nat ?k :: u32) = d - s"
    by simp
  obtain j where n: "n = ?k + Suc j"
    using less_imp_Suc_add[OF assms(2)] by auto
  have "copy_up m d s n (d + (d - s)) = copy_up m1 (d + (d - s)) d (Suc j) (d + (d - s))"
    unfolding n copy_up_add k m1_def by simp
  also have "\<dots> = m1 d"
    using copy_up_other[of j "d + (d - s)" "d + (d - s) + 1" "m1(d + (d - s) := m1 d)" "d + 1"]
      range_head_out[of j "d + (d - s)"] n assms(1,3) by simp
  also have "m1 d = m s"
    using copy_up_run[of ?k d s m] assms(1) by (simp add: m1_def less_imp_le)
  finally show ?thesis .
qed



text \<open>
  C11: strings.  On NUL-terminated strings \<open>strlen\<close>, \<open>strcmp\<close>, \<open>strncmp\<close>, \<open>strchr\<close> and \<open>atoi\<close>
  terminate and compute the length, the lexicographic comparison of unsigned bytes, the comparison
  of prefixes, the first occurrence and the value of the leading digits; \<open>safestrcpy\<close> copies a
  prefix that fits and always terminates it.
\<close>
theorem string_routines:
  assumes "cstr m p xs" and "cstr m q ys"
  shows "strlen m p = Some (length xs) \<and>
    (\<exists>r. strcmp m p q = Some r \<and> (r = 0 \<longleftrightarrow> xs = ys) \<and> (r < 0 \<longleftrightarrow> (xs, ys) \<in> lexord byte_order)) \<and>
    (strncmp m p q n = 0 \<longleftrightarrow> take (unat n) xs = take (unat n) ys) \<and>
    strchr m p c = Some (case first_index (\<lambda>x. x = c) xs of None \<Rightarrow> 0 | Some i \<Rightarrow> p + of_nat i) \<and>
    atoi m p = Some (of_nat (digits_value (takeWhile is_digit xs))) \<and>
    (0 < k \<and> k < 2 ^ 32 \<and> apart d (nat k) p (Suc (length xs)) \<longrightarrow>
      cstr (safestrcpy m d p k) d (take (nat k - 1) xs))"
  using strlen_cstr[OF assms(1)] strcmp_cstr[OF assms] strncmp_cstr[OF assms]
    strchr_cstr[OF assms(1)] atoi_cstr[OF assms(1)] safestrcpy_cstr[OF assms(1)] by blast

theorem string_routines_witness:
  "strlen ((\<lambda>_. 0)(100 := 52, 101 := 50)) 100 = Some 2 \<and>
   atoi ((\<lambda>_. 0)(100 := 52, 101 := 50)) 100 = Some 42"
  using string_routines[of "(\<lambda>_. 0)(100 := 52, 101 := 50)" 100 "[52, 50]" 0 "[]"]
  by (simp add: digits_value_def is_digit_def)

end
