(* ===== verification/Kalloc.thy ===== *)
theory Kalloc
  imports Spinlock Cstring
begin

unbundle bit_operations_syntax

text \<open>
  The physical page allocator, \<open>src/kalloc.c\<close>: a free list threaded through the free pages
  themselves, in byte memory.  The state extends the machine with the kernel's memory and the
  \<open>kmem\<close> structure.  The abstraction is the list of free pages; \<open>kalloc\<close> pops it and \<open>kfree\<close> pushes
  onto it, each touching no byte outside the page concerned.
\<close>

section \<open>State\<close>

record kmem_state = mach +
  kmem_use_lock :: u32
  freelist :: u32
  mem :: memory
  kend :: u32

section \<open>kalloc.c\<close>

definition with_kmem_lock :: "('x kmem_state_scheme, 'a) kernel \<Rightarrow> ('x kmem_state_scheme, 'a) kernel" where
  "with_kmem_lock body =
     kbind (kgets kmem_use_lock) (\<lambda>u.
     kbind (kwhen (u \<noteq> 0) (acquire Kmem_lock)) (\<lambda>_.
     kbind body (\<lambda>r.
     kbind (kgets kmem_use_lock) (\<lambda>u.
     kbind (kwhen (u \<noteq> 0) (release Kmem_lock)) (\<lambda>_. kret r)))))"

definition kfree :: "u32 \<Rightarrow> ('x kmem_state_scheme, unit) kernel" where
  "kfree v =
     kbind (kgets kend) (\<lambda>e.
     if v mod PGSIZE \<noteq> 0 \<or> v < e \<or> V2P v \<ge> PHYSTOP then panic ''kfree''
     else kbind (kmodify (\<lambda>s. s\<lparr>mem := memset (mem s) v 1 PGSIZE\<rparr>)) (\<lambda>_.
     with_kmem_lock (kseq
      [kmodify (\<lambda>s. s\<lparr>mem := wr32 (mem s) v (freelist s)\<rparr>),
       kmodify (\<lambda>s. s\<lparr>freelist := v\<rparr>)])))"

definition kalloc :: "('x kmem_state_scheme, u32) kernel" where
  "kalloc = with_kmem_lock
     (kbind (kgets freelist) (\<lambda>r.
      kbind (kwhen (r \<noteq> 0) (kmodify (\<lambda>s. s\<lparr>freelist := rd32 (mem s) r\<rparr>))) (\<lambda>_. kret r)))"

text \<open>
  \<open>for(; p + PGSIZE <= vend; p += PGSIZE) kfree(p);\<close>  The increment wraps only after the last page
  of the address space, which \<open>kfree\<close> has refused by then; so the loop ends.
\<close>

function freerange_loop :: "u32 \<Rightarrow> u32 \<Rightarrow> ('x kmem_state_scheme, unit) kernel" where
  "freerange_loop p vend =
     (if p + PGSIZE \<le> vend then
        kbind (kfree p) (\<lambda>_. if p < p + PGSIZE then freerange_loop (p + PGSIZE) vend else kstop Spin)
      else kret ())"
  by auto
termination
  by (relation "measure (\<lambda>(p, _). 2 ^ 32 - unat p)")
    (auto simp: word_less_nat_alt intro: diff_less_mono2)

declare freerange_loop.simps [simp del]

definition freerange :: "u32 \<Rightarrow> u32 \<Rightarrow> ('x kmem_state_scheme, unit) kernel" where
  "freerange vstart vend = freerange_loop (PGROUNDUP vstart) vend"

definition kinit1 :: "u32 \<Rightarrow> u32 \<Rightarrow> ('x kmem_state_scheme, unit) kernel" where
  "kinit1 vstart vend = kseq
    [initlock Kmem_lock ''kmem'', kmodify (\<lambda>s. s\<lparr>kmem_use_lock := 0\<rparr>), freerange vstart vend]"

definition kinit2 :: "u32 \<Rightarrow> u32 \<Rightarrow> ('x kmem_state_scheme, unit) kernel" where
  "kinit2 vstart vend = kseq
    [freerange vstart vend, kmodify (\<lambda>s. s\<lparr>kmem_use_lock := 1\<rparr>)]"

section \<open>Pages\<close>

definition valid_page :: "u32 \<Rightarrow> u32 \<Rightarrow> bool" where
  "valid_page e p \<longleftrightarrow> p mod PGSIZE = 0 \<and> e \<le> p \<and> V2P p < PHYSTOP"

lemma valid_page_nonzero: "valid_page e p \<Longrightarrow> p \<noteq> 0"
  by (auto simp: valid_page_def V2P_def word_less_nat_alt)

lemma unat_mod_page: "p mod PGSIZE = 0 \<longleftrightarrow> unat p mod 4096 = 0"
  by (simp add: unat_mod flip: unat_eq_0)

lemma page_multiple:
  assumes "p mod PGSIZE = 0"
  obtains k where "unat p = k * 4096"
proof -
  have "unat p mod 4096 = 0"
    using assms by (simp add: unat_mod_page)
  then have "unat p = unat p div 4096 * 4096"
    using div_mult_mod_eq[of "unat p" 4096] by linarith
  then show thesis
    by (rule that)
qed

lemma div_mult_eq_iff:
  fixes x k c :: nat
  assumes "0 < c"
  shows "x div c * c = k * c \<longleftrightarrow> k * c \<le> x \<and> x < k * c + c"
proof
  assume "x div c * c = k * c"
  then show "k * c \<le> x \<and> x < k * c + c"
    using assms div_mult_mod_eq[of x c] mod_less_divisor[OF assms, of x] by linarith
next
  assume "k * c \<le> x \<and> x < k * c + c"
  then have "x div c = k"
    by (intro div_nat_eqI) (simp_all add: mult.commute)
  then show "x div c * c = k * c"
    by simp
qed

lemma in_page:
  assumes "p mod PGSIZE = 0"
  shows "x - p < PGSIZE \<longleftrightarrow> PGROUNDDOWN x = p"
proof -
  obtain k where p: "unat p = k * 4096"
    using page_multiple[OF assms] .
  have "PGROUNDDOWN x = p \<longleftrightarrow> unat x div 4096 * 4096 = unat p"
    by (metis unat_PGROUNDDOWN unsigned_word_eqI)
  also have "\<dots> \<longleftrightarrow> unat p \<le> unat x \<and> unat x < unat p + 4096"
    unfolding p by (rule div_mult_eq_iff) simp
  also have "\<dots> \<longleftrightarrow> x - p < PGSIZE"
  proof (cases "unat p \<le> unat x")
    case True
    then show ?thesis
      by (auto simp: word_less_nat_alt unat_sub_if')
  next
    case False
    have "unat p \<le> 4294963200"
      using p unat_less_2p32[of p] by simp
    then show ?thesis
      using False by (auto simp: word_less_nat_alt unat_sub_if')
  qed
  finally show ?thesis
    by simp
qed

lemma page_bytes: "p mod PGSIZE = 0 \<Longrightarrow> k < PGSIZE \<Longrightarrow> PGROUNDDOWN (p + k) = p"
  using in_page[of p "p + k"] by simp

section \<open>The free list\<close>

primrec flist :: "memory \<Rightarrow> u32 \<Rightarrow> u32 list \<Rightarrow> bool" where
  "flist m a [] \<longleftrightarrow> a = 0"
| "flist m a (x # xs) \<longleftrightarrow> a = x \<and> x \<noteq> 0 \<and> flist m (rd32 m x) xs"

text \<open>The free pages of a state, as the list the allocator will hand them out in.\<close>

definition free_pages :: "'x kmem_state_scheme \<Rightarrow> u32 list \<Rightarrow> bool" where
  "free_pages s xs \<longleftrightarrow> flist (mem s) (freelist s) xs \<and> distinct xs \<and>
     list_all (valid_page (kend s)) xs"

lemma flist_cong:
  "(\<And>x. x \<in> set xs \<Longrightarrow> rd32 m' x = rd32 m x) \<Longrightarrow> flist m' a xs \<longleftrightarrow> flist m a xs"
  by (induction xs arbitrary: a) auto

lemma flist_unique: "flist m a xs \<Longrightarrow> flist m a ys \<Longrightarrow> xs = ys"
  by (induction xs arbitrary: a ys) (case_tac ys; simp)+

lemma rd32_page:
  assumes "p mod PGSIZE = 0" and "\<And>x. PGROUNDDOWN x = p \<Longrightarrow> m' x = m x"
  shows "rd32 m' p = rd32 m p"
  using assms(2) page_bytes[OF assms(1), of 0] page_bytes[OF assms(1), of 1]
    page_bytes[OF assms(1), of 2] page_bytes[OF assms(1), of 3]
  by (intro rd32_cong) simp_all

lemma free_pages_frame:
  assumes "free_pages s xs" and "freelist t = freelist s" and "kend t = kend s"
    and "\<And>x. PGROUNDDOWN x \<in> set xs \<Longrightarrow> mem t x = mem s x"
  shows "free_pages t xs"
proof -
  have "rd32 (mem t) p = rd32 (mem s) p" if "p \<in> set xs" for p
    using that assms(1,4)
    by (intro rd32_page) (auto simp: free_pages_def list_all_iff valid_page_def)
  then show ?thesis
    using assms(1-3) flist_cong[of xs "mem t" "mem s"] by (simp add: free_pages_def)
qed

section \<open>The lock around the list\<close>

definition kmem_locks :: "'x kmem_state_scheme \<Rightarrow> lockid set" where
  "kmem_locks s = (if kmem_use_lock s = 0 then {} else {Kmem_lock})"

definition kmem_ready :: "u32 \<times> int \<Rightarrow> 'x kmem_state_scheme \<Rightarrow> bool" where
  "kmem_ready q s \<longleftrightarrow> kmem_use_lock s = 0 \<or> spin_avail Kmem_lock q s"

lemma kmem_ready_ctx:
  "same_ctx L s t \<Longrightarrow> kmem_use_lock t = kmem_use_lock s \<Longrightarrow> kmem_ready q s \<Longrightarrow> kmem_ready q t"
  by (auto simp: kmem_ready_def intro: same_ctx_avail)

lemma more_kmem:
  assumes "mach.more t = mach.more s"
  shows "kmem_use_lock t = kmem_use_lock s" and "freelist t = freelist s" and "mem t = mem s"
    and "kend t = kend s" and "kmem_state.more t = kmem_state.more s"
  using assms by (cases s; cases t; simp)+

lemma free_pages_more: "mach.more t = mach.more s \<Longrightarrow> free_pages t xs \<longleftrightarrow> free_pages s xs"
  using more_kmem[of t s] by (simp add: free_pages_def)

lemma with_kmem_lock_run:
  assumes ready: "kmem_ready q s"
    and body: "\<And>t. mach.more t = mach.more s \<Longrightarrow>
      \<exists>x u. body t = Inr (x, u) \<and> same_ctx {} t u \<and> kmem_use_lock u = kmem_use_lock t \<and> P x u"
    and cong: "\<And>x u v. P x u \<Longrightarrow> mach.more v = mach.more u \<Longrightarrow> P x v"
  shows "\<exists>x v. with_kmem_lock body s = Inr (x, v) \<and> same_ctx (kmem_locks s) s v \<and>
      kmem_ready q v \<and> P x v"
proof (cases "kmem_use_lock s = 0")
  case True
  then show ?thesis
    using body[of s] by (auto simp: with_kmem_lock_def kmem_locks_def kmem_ready_def kbind_def)
next
  case False
  then have avail: "spin_avail Kmem_lock q s"
    using ready by (simp add: kmem_ready_def)
  obtain t where t: "acquire Kmem_lock s = Inr ((), t)" "spin_owned Kmem_lock q t"
    "mach.more t = mach.more s"
    using spin.acq_total[OF avail] by blast
  obtain x u where u: "body t = Inr (x, u)" "same_ctx {} t u"
    "kmem_use_lock u = kmem_use_lock t" "P x u"
    using body[OF t(3)] by blast
  have "spin_owned Kmem_lock q u"
    using same_ctx_owned[OF u(2) _ t(2)] by simp
  then obtain v where v: "release Kmem_lock u = Inr ((), v)" "spin_avail Kmem_lock q v"
    "mach.more v = mach.more u"
    using spin.rel_total by blast
  have "same_ctx {Kmem_lock} s v"
    using spin.around[OF avail t(1) _ v(1), of "{}"] u(2) by simp
  moreover have "with_kmem_lock body s = Inr (x, v)"
    using False t u v more_kmem(1)[OF t(3)] by (simp add: with_kmem_lock_def kbind_def)
  ultimately show ?thesis
    using False v cong[OF u(4) v(3)] by (auto simp: kmem_locks_def kmem_ready_def)
qed

section \<open>What the operations do\<close>

lemma kalloc_run:
  assumes "kmem_ready q s" and "free_pages s xs"
  shows "\<exists>t. kalloc s = Inr (case xs of [] \<Rightarrow> 0 | p # _ \<Rightarrow> p, t) \<and> free_pages t (tl xs) \<and>
    mem t = mem s \<and> kmem_state.more t = kmem_state.more s \<and> kend t = kend s \<and>
    kmem_use_lock t = kmem_use_lock s \<and> same_ctx (kmem_locks s) s t \<and> kmem_ready q t"
proof -
  let ?r = "case xs of [] \<Rightarrow> 0 | p # _ \<Rightarrow> p"
  let ?P = "\<lambda>x t. x = ?r \<and> free_pages t (tl xs) \<and> mem t = mem s \<and>
    kmem_state.more t = kmem_state.more s \<and> kend t = kend s \<and> kmem_use_lock t = kmem_use_lock s"
  have fl: "freelist s = ?r"
    using assms(2) by (cases xs) (auto simp: free_pages_def)
  have "\<exists>x v. kalloc s = Inr (x, v) \<and> same_ctx (kmem_locks s) s v \<and> kmem_ready q v \<and> ?P x v"
    unfolding kalloc_def
  proof (rule with_kmem_lock_run[OF assms(1)])
    fix t :: "'a kmem_state_scheme" assume t: "mach.more t = mach.more s"
    show "\<exists>x u. kbind (kgets freelist) (\<lambda>r. kbind (kwhen (r \<noteq> 0)
        (kmodify (\<lambda>s. s\<lparr>freelist := rd32 (mem s) r\<rparr>))) (\<lambda>_. kret r)) t = Inr (x, u) \<and>
        same_ctx {} t u \<and> kmem_use_lock u = kmem_use_lock t \<and> ?P x u"
      using more_kmem[OF t] fl assms(2)
      by (cases xs) (auto simp: kwhen_def free_pages_def same_ctx_def)
  next
    fix x and u v :: "'a kmem_state_scheme"
    assume P: "?P x u" and v: "mach.more v = mach.more u"
    then show "?P x v"
      using more_kmem[OF v] free_pages_more[OF v] by simp
  qed
  then show ?thesis
    by blast
qed

lemma kfree_run:
  assumes "kmem_ready q s" and "free_pages s xs" and "valid_page (kend s) p" and "p \<notin> set xs"
  shows "\<exists>t. kfree p s = Inr ((), t) \<and> free_pages t (p # xs) \<and>
    (\<forall>x. PGROUNDDOWN x \<noteq> p \<longrightarrow> mem t x = mem s x) \<and>
    kmem_state.more t = kmem_state.more s \<and> kend t = kend s \<and>
    kmem_use_lock t = kmem_use_lock s \<and> same_ctx (kmem_locks s) s t \<and> kmem_ready q t"
proof -
  let ?s = "s\<lparr>mem := memset (mem s) p 1 PGSIZE\<rparr>"
  let ?P = "\<lambda>(x :: unit) t. free_pages t (p # xs) \<and> (\<forall>x. PGROUNDDOWN x \<noteq> p \<longrightarrow> mem t x = mem s x) \<and>
    kmem_state.more t = kmem_state.more s \<and> kend t = kend s \<and> kmem_use_lock t = kmem_use_lock s"
  have p: "p mod PGSIZE = 0" "p \<noteq> 0"
    using assms(3) valid_page_nonzero[OF assms(3)] by (simp_all add: valid_page_def)
  have junk: "mem ?s x = (if PGROUNDDOWN x = p then 1 else mem s x)" for x
    by (simp add: memset_run in_page[OF p(1)])
  have store: "wr32 m p v x = m x" if "PGROUNDDOWN x \<noteq> p" for m v x
    using that page_bytes[OF p(1), of 0] page_bytes[OF p(1), of 1]
      page_bytes[OF p(1), of 2] page_bytes[OF p(1), of 3] by (intro wr32_other) auto
  have ready: "kmem_ready q ?s"
    using assms(1) by (rule kmem_ready_ctx[of "{}", rotated 2]) (simp_all add: same_ctx_def)
  have "\<exists>x v. with_kmem_lock (kseq [kmodify (\<lambda>s. s\<lparr>mem := wr32 (mem s) p (freelist s)\<rparr>),
      kmodify (\<lambda>s. s\<lparr>freelist := p\<rparr>)]) ?s = Inr (x, v) \<and> same_ctx (kmem_locks ?s) ?s v \<and>
      kmem_ready q v \<and> ?P x v"
  proof (rule with_kmem_lock_run[OF ready])
    fix t :: "'a kmem_state_scheme" assume t: "mach.more t = mach.more ?s"
    note tf = more_kmem[OF t, simplified]
    let ?u = "t\<lparr>mem := wr32 (mem t) p (freelist t), freelist := p\<rparr>"
    have mem_u: "mem ?u x = mem s x" if "PGROUNDDOWN x \<noteq> p" for x
      using that junk[of x] store[OF that] tf by simp
    have "free_pages (?u\<lparr>freelist := freelist s\<rparr>) xs"
    proof (rule free_pages_frame[OF assms(2)])
      fix x assume "PGROUNDDOWN x \<in> set xs"
      then have "PGROUNDDOWN x \<noteq> p"
        using assms(4) by blast
      then show "mem (?u\<lparr>freelist := freelist s\<rparr>) x = mem s x"
        using mem_u by simp
    qed (use tf in simp_all)
    then have "free_pages ?u (p # xs)"
      using assms(3,4) p tf by (simp add: free_pages_def rd32_wr32_same)
    then show "\<exists>x u. kseq [kmodify (\<lambda>s. s\<lparr>mem := wr32 (mem s) p (freelist s)\<rparr>),
        kmodify (\<lambda>s. s\<lparr>freelist := p\<rparr>)] t = Inr (x, u) \<and> same_ctx {} t u \<and>
        kmem_use_lock u = kmem_use_lock t \<and> ?P x u"
      using mem_u tf by (intro exI[of _ "()"] exI[of _ ?u]) (simp add: same_ctx_def)
  next
    fix x and u v :: "'a kmem_state_scheme"
    assume P: "?P x u" and v: "mach.more v = mach.more u"
    then show "?P x v"
      using more_kmem[OF v] free_pages_more[OF v] by simp
  qed
  moreover have "same_ctx (kmem_locks ?s) ?s v \<Longrightarrow> same_ctx (kmem_locks s) s v" for v
    by (simp add: same_ctx_def kmem_locks_def)
  ultimately show ?thesis
    using assms(3) by (auto simp: kfree_def valid_page_def)
qed

section \<open>Initialisation\<close>

text \<open>The whole pages between \<open>p\<close> and \<open>vend\<close>.\<close>

definition whole_pages :: "u32 \<Rightarrow> u32 \<Rightarrow> u32 set" where
  "whole_pages p vend = {x. x mod PGSIZE = 0 \<and> p \<le> x \<and> unat x + 4096 \<le> unat vend}"

lemma whole_pages_empty:
  assumes "unat p \<le> 0x8E000000" and "\<not> p + PGSIZE \<le> vend"
  shows "whole_pages p vend = {}"
proof -
  have "unat (p + PGSIZE) = unat p + 4096"
    using assms(1) by (simp add: unat_plus_if')
  then show ?thesis
    using assms(2) by (auto simp: whole_pages_def word_le_nat_alt)
qed

lemma whole_pages_step:
  assumes p: "p mod PGSIZE = 0" "unat p \<le> 0x8E000000" and "p + PGSIZE \<le> vend"
  shows "whole_pages p vend = insert p (whole_pages (p + PGSIZE) vend)"
    and "p \<notin> whole_pages (p + PGSIZE) vend" and "(p + PGSIZE) mod PGSIZE = 0" and "p < p + PGSIZE"
proof -
  have u: "unat (p + PGSIZE) = unat p + 4096"
    using p(2) by (simp add: unat_plus_if')
  obtain k where k: "unat p = k * 4096"
    using page_multiple[OF p(1)] .
  show al: "(p + PGSIZE) mod PGSIZE = 0"
    unfolding unat_mod_page u using k by simp
  show "p < p + PGSIZE"
    by (simp add: word_less_nat_alt u)
  then show "p \<notin> whole_pages (p + PGSIZE) vend"
    by (auto simp: whole_pages_def)
  have "p + PGSIZE \<le> x" if al: "x mod PGSIZE = 0" and px: "p \<le> x" "x \<noteq> p" for x
  proof -
    obtain j where j: "unat x = j * 4096"
      using page_multiple[OF al] .
    have "unat p < unat x"
      using px by (simp flip: word_less_nat_alt)
    then have "k < j"
      using k j by simp
    then show ?thesis
      using k j by (simp add: word_le_nat_alt u)
  qed
  then have "x \<in> whole_pages (p + PGSIZE) vend" if "x \<in> whole_pages p vend" "x \<noteq> p" for x
    using that by (simp only: whole_pages_def mem_Collect_eq simp_thms)
  moreover have "p \<in> whole_pages p vend"
    using assms u by (simp add: whole_pages_def word_le_nat_alt)
  moreover have "x \<in> whole_pages p vend" if "x \<in> whole_pages (p + PGSIZE) vend" for x
    using that \<open>p < p + PGSIZE\<close> unfolding whole_pages_def mem_Collect_eq
    by (metis less_imp_le order_trans)
  ultimately show "whole_pages p vend = insert p (whole_pages (p + PGSIZE) vend)"
    by blast
qed

lemma whole_page_valid:
  assumes "p mod PGSIZE = 0" and "e \<le> p" and "KERNBASE \<le> p" and "unat p < 0x8E000000"
  shows "valid_page e p"
  using assms by (simp add: valid_page_def V2P_def word_less_nat_alt word_le_nat_alt unat_sub_if')

lemma freerange_loop_run:
  assumes "kmem_ready q s" and "free_pages s xs" and "p mod PGSIZE = 0" and "kend s \<le> p"
    and "KERNBASE \<le> p" and "unat p \<le> 0x8E000000" and "unat vend \<le> 0x8E000000"
    and "whole_pages p vend \<inter> set xs = {}"
  shows "\<exists>t ys. freerange_loop p vend s = Inr ((), t) \<and> free_pages t ys \<and>
    set ys = whole_pages p vend \<union> set xs \<and> kend t = kend s \<and> kmem_use_lock t = kmem_use_lock s \<and>
    kmem_state.more t = kmem_state.more s \<and> kmem_ready q t \<and> same_ctx (kmem_locks s) s t"
  using assms
proof (induction p vend arbitrary: s xs rule: freerange_loop.induct)
  case (1 p vend)
  show ?case
  proof (cases "p + PGSIZE \<le> vend")
    case False
    then show ?thesis
      using 1(3) "1.prems" whole_pages_empty[OF "1.prems"(6) False]
      by (subst freerange_loop.simps)
        (auto simp: kmem_locks_def same_ctx_def kmem_ready_def spin_avail_def)
  next
    case True
    note step = whole_pages_step[OF "1.prems"(3,6) True]
    have up: "unat (p + PGSIZE) = unat p + 4096"
      using "1.prems"(6) by (simp add: unat_plus_if')
    have "valid_page (kend s) p"
      using "1.prems" True up by (intro whole_page_valid) (simp_all add: word_le_nat_alt)
    moreover have "p \<notin> set xs"
      using "1.prems"(8) step(1) by auto
    ultimately obtain t where t: "kfree p s = Inr ((), t)" "free_pages t (p # xs)"
      "kmem_state.more t = kmem_state.more s" "kend t = kend s" "kmem_use_lock t = kmem_use_lock s"
      "same_ctx (kmem_locks s) s t" "kmem_ready q t"
      using kfree_run[OF "1.prems"(1,2)] by blast
    have "whole_pages (p + PGSIZE) vend \<inter> set (p # xs) = {}"
      using "1.prems"(8) step(1,2) by auto
    moreover have "kend t \<le> p + PGSIZE" "KERNBASE \<le> p + PGSIZE" "unat (p + PGSIZE) \<le> 0x8E000000"
      using "1.prems"(4,5,7) True step(4) t(4) up by (auto simp: word_le_nat_alt)
    ultimately obtain u ys where u: "freerange_loop (p + PGSIZE) vend t = Inr ((), u)"
      "free_pages u ys" "set ys = whole_pages (p + PGSIZE) vend \<union> set (p # xs)" "kend u = kend t"
      "kmem_use_lock u = kmem_use_lock t" "kmem_state.more u = kmem_state.more t" "kmem_ready q u"
      "same_ctx (kmem_locks t) t u"
      using "1.IH"[OF True step(4) t(7,2) step(3)] "1.prems"(7) by blast
    have "kmem_locks t = kmem_locks s"
      using t(5) by (simp add: kmem_locks_def)
    then have "same_ctx (kmem_locks s) s u"
      using same_ctx_trans[OF t(6) u(8)] by simp
    moreover have "freerange_loop p vend s = Inr ((), u)"
      using True step(4) t(1) u(1) by (subst freerange_loop.simps) (simp add: kbind_def)
    ultimately show ?thesis
      using u t(3-5) step(1) by auto
  qed
qed

section \<open>The allocator as its clients see it\<close>

text \<open>
  \<open>ok s xs\<close>: in state \<open>s\<close> the allocator can be called and the free pages are \<open>xs\<close>.  A client that
  knows only these laws knows that pages in use are never handed out again.
\<close>

locale page_allocator =
  fixes alloc :: "('s, u32) kernel"
    and free :: "u32 \<Rightarrow> ('s, unit) kernel"
    and ok :: "'s \<Rightarrow> u32 list \<Rightarrow> bool"
    and page :: "u32 \<Rightarrow> bool"
  assumes ok_pages: "ok s xs \<Longrightarrow> distinct xs \<and> list_all page xs"
    and page_nonzero: "page p \<Longrightarrow> p \<noteq> 0"
    and alloc_ok: "ok s xs \<Longrightarrow> \<exists>t. alloc s = Inr (case xs of [] \<Rightarrow> 0 | p # _ \<Rightarrow> p, t) \<and> ok t (tl xs)"
    and free_ok: "ok s xs \<Longrightarrow> page p \<Longrightarrow> p \<notin> set xs \<Longrightarrow> \<exists>t. free p s = Inr ((), t) \<and> ok t (p # xs)"
begin

lemma alloc_many:
  "ok s xs \<Longrightarrow> n \<le> length xs \<Longrightarrow> \<exists>t. krepeat n alloc s = Inr (take n xs, t) \<and> ok t (drop n xs)"
proof (induction n arbitrary: s xs)
  case (Suc n)
  then obtain p ps where xs: "xs = p # ps"
    by (cases xs) auto
  obtain t where t: "alloc s = Inr (p, t)" "ok t ps"
    using alloc_ok[OF Suc.prems(1)] by (auto simp: xs)
  then show ?case
    using Suc.IH[OF t(2)] Suc.prems(2) by (auto simp: xs kbind_def)
qed simp

lemma alloc_all:
  assumes "ok s xs"
  shows "\<exists>t. krepeat (length xs) alloc s = Inr (xs, t) \<and> ok t [] \<and> (\<exists>u. alloc t = Inr (0, u))"
  using alloc_many[OF assms, of "length xs"] alloc_ok by fastforce

lemma free_alloc:
  assumes "ok s xs" and "page p" and "p \<notin> set xs"
  shows "\<exists>t. kbind (free p) (\<lambda>_. alloc) s = Inr (p, t) \<and> ok t xs"
proof -
  obtain t where t: "free p s = Inr ((), t)" "ok t (p # xs)"
    using free_ok[OF assms] by blast
  then show ?thesis
    using alloc_ok[OF t(2)] by (simp add: kbind_def)
qed

text \<open>Freeing pages that were allocated, in any order.\<close>

lemma free_many:
  "ok s xs \<Longrightarrow> list_all page ps \<Longrightarrow> distinct ps \<Longrightarrow> set ps \<inter> set xs = {} \<Longrightarrow>
    \<exists>t. kseq (map free ps) s = Inr ((), t) \<and> ok t (rev ps @ xs)"
proof (induction ps arbitrary: s xs)
  case (Cons p ps)
  obtain t where t: "free p s = Inr ((), t)" "ok t (p # xs)"
    using free_ok[OF Cons.prems(1), of p] Cons.prems by auto
  then show ?case
    using Cons.IH[OF t(2)] Cons.prems by (auto simp: kbind_def)
qed simp

end

definition kmem_ok :: "u32 \<times> int \<Rightarrow> u32 \<Rightarrow> 'x kmem_state_scheme \<Rightarrow> u32 list \<Rightarrow> bool" where
  "kmem_ok q e s xs \<longleftrightarrow> kmem_ready q s \<and> free_pages s xs \<and> kend s = e"

interpretation kmem: page_allocator kalloc kfree "kmem_ok q e" "valid_page e" for q e
proof (unfold_locales, goal_cases)
  case (1 s xs)
  then show ?case by (auto simp: kmem_ok_def free_pages_def)
next
  case (2 p)
  then show ?case by (rule valid_page_nonzero)
next
  case (3 s xs)
  then show ?case using kalloc_run[of q s xs] by (auto simp: kmem_ok_def)
next
  case (4 s xs p)
  then show ?case using kfree_run[of q s xs p] by (auto simp: kmem_ok_def)
qed

section \<open>Properties\<close>

text \<open>
  C6: the allocator neither loses nor duplicates pages.  From a state with free pages \<open>xs\<close>, as
  many calls of \<open>kalloc\<close> return exactly those pages, all different and all valid; the next call
  returns 0; and freeing them in any order makes exactly these pages free again.
\<close>
theorem kalloc_exact:
  assumes "kmem_ok q e s xs" and "set ps = set xs" and "distinct ps"
  shows "\<exists>t u v. krepeat (length xs) kalloc s = Inr (xs, t) \<and> distinct xs \<and> list_all (valid_page e) xs \<and>
    kalloc t = Inr (0, u) \<and> kseq (map kfree ps) t = Inr ((), v) \<and> kmem_ok q e v (rev ps)"
proof -
  obtain t where t: "krepeat (length xs) kalloc s = Inr (xs, t)" "kmem_ok q e t []"
    "\<exists>u. kalloc t = Inr (0, u)"
    using kmem.alloc_all[OF assms(1)] by blast
  have xs: "distinct xs" "list_all (valid_page e) xs"
    using kmem.ok_pages[OF assms(1)] by simp_all
  then have "list_all (valid_page e) ps"
    using assms(2) by (simp add: list_all_iff)
  then have "\<exists>v. kseq (map kfree ps) t = Inr ((), v) \<and> kmem_ok q e v (rev ps)"
    using kmem.free_many[OF t(2) _ assms(3)] by simp
  then show ?thesis
    using t xs by blast
qed

text \<open>A machine whose allocator has been given three pages.\<close>

definition kmem3 :: "'x \<Rightarrow> 'x kmem_state_scheme" where
  "kmem3 x = mach2 \<lparr>kmem_use_lock = 1, freelist = 0x80402000,
     mem = wr32 (wr32 (\<lambda>_. 0) 0x80402000 0x80401000) 0x80401000 0x80400000,
     kend = 0x80115000, \<dots> = x\<rparr>"

lemma kmem3_ok: "kmem_ok (0x200, 0) 0x80115000 (kmem3 x) [0x80402000, 0x80401000, 0x80400000]"
proof -
  let ?m = "wr32 (wr32 (\<lambda>_. 0) 0x80402000 0x80401000) 0x80401000 0x80400000"
  have fields: "freelist (kmem3 x) = 0x80402000" "mem (kmem3 x) = ?m" "kend (kmem3 x) = 0x80115000"
    "kmem_use_lock (kmem3 x) = 1"
    by (simp_all add: kmem3_def mach2_def)
  have "rd32 ?m 0x80402000 = rd32 (wr32 (\<lambda>_. 0) 0x80402000 0x80401000) 0x80402000"
    by (intro rd32_cong; simp add: wr32_other)
  moreover have "rd32 ?m 0x80400000 = rd32 (\<lambda>_. 0) 0x80400000"
    by (intro rd32_cong; simp add: wr32_other)
  ultimately have "flist ?m 0x80402000 [0x80402000, 0x80401000, 0x80400000]"
    by (simp add: rd32_wr32_same) (simp add: rd32_def)
  then show ?thesis
    using mach2_avail[of Kmem_lock]
    by (simp add: kmem_ok_def kmem_ready_def free_pages_def fields valid_page_def V2P_def)
      (simp add: kmem3_def)
qed

theorem kalloc_exact_witness:
  "\<exists>t u. krepeat 3 kalloc (kmem3 ()) = Inr ([0x80402000, 0x80401000, 0x80400000], t) \<and>
     kalloc t = Inr (0, u)"
proof -
  let ?xs = "[0x80402000, 0x80401000, 0x80400000] :: u32 list"
  have "set (rev ?xs) = set ?xs" "distinct (rev ?xs)" and len: "length ?xs = 3"
    by (simp_all add: insert_commute)
  from kalloc_exact[OF kmem3_ok[of "()"] this(1,2)] show ?thesis
    unfolding len by blast
qed

text \<open>
  C7: an allocation touches no memory, and freeing a page changes bytes of that page only; both
  leave the rest of the kernel, every other lock and the interrupt state alone.
\<close>
theorem kalloc_kfree_frame:
  assumes "kmem_ok q e s xs" and "valid_page e p" and "p \<notin> set xs"
  shows "\<exists>t u. kalloc s = Inr (case xs of [] \<Rightarrow> 0 | r # _ \<Rightarrow> r, t) \<and> mem t = mem s \<and>
      kmem_state.more t = kmem_state.more s \<and> same_ctx (kmem_locks s) s t \<and>
    kfree p s = Inr ((), u) \<and> (\<forall>a. PGROUNDDOWN a \<noteq> p \<longrightarrow> mem u a = mem s a) \<and>
      kmem_state.more u = kmem_state.more s \<and> same_ctx (kmem_locks s) s u"
  using kalloc_run[of q s xs] kfree_run[of q s xs p] assms by (simp add: kmem_ok_def) blast

theorem kalloc_kfree_frame_witness:
  "\<exists>t u. kalloc (kmem3 ()) = Inr (0x80402000, t) \<and> mem t = mem (kmem3 ()) \<and>
    kfree 0x80500000 (kmem3 ()) = Inr ((), u) \<and> mem u 0x80400000 = mem (kmem3 ()) 0x80400000"
proof -
  have "valid_page 0x80115000 0x80500000"
    by (simp add: valid_page_def V2P_def)
  from kalloc_kfree_frame[OF kmem3_ok[of "()"] this]
  obtain t u where "kalloc (kmem3 ()) = Inr (0x80402000, t)" "mem t = mem (kmem3 ())"
    "kfree 0x80500000 (kmem3 ()) = Inr ((), u)"
    "\<forall>a. PGROUNDDOWN a \<noteq> 0x80500000 \<longrightarrow> mem u a = mem (kmem3 ()) a"
    by auto
  moreover have "PGROUNDDOWN 0x80400000 \<noteq> 0x80500000"
    by (simp add: PGROUNDDOWN_def)
  ultimately show ?thesis
    by blast
qed

text \<open>
  C8: initialisation.  \<open>kinit1\<close> on an empty allocator puts exactly the whole pages between
  \<open>vstart\<close> and \<open>vend\<close> on the free list: it terminates, rounds \<open>vstart\<close> up, and frees no page that
  the kernel image or the end of physical memory cuts.
\<close>
theorem kinit1_frees_whole_pages:
  assumes "freelist s = 0" and "kend s \<le> vstart" and "KERNBASE \<le> vstart"
    and "unat vstart + 4095 \<le> 0x8E000000" and "unat vend \<le> 0x8E000000"
  shows "\<exists>t xs. kinit1 vstart vend s = Inr ((), t) \<and> free_pages t xs \<and>
    set xs = {p. p mod PGSIZE = 0 \<and> vstart \<le> p \<and> unat p + 4096 \<le> unat vend}"
proof -
  let ?s = "(upd_lock Kmem_lock (\<lambda>k. k\<lparr>lk_name := ''kmem'', locked := 0, lk_cpu := None\<rparr>) s)\<lparr>kmem_use_lock := 0\<rparr>"
  let ?p = "PGROUNDUP vstart"
  have p: "unat ?p = (unat vstart + 4095) div 4096 * 4096"
    using assms(4) by (intro unat_PGROUNDUP) simp
  have lo: "unat vstart \<le> unat ?p" and hi: "unat ?p \<le> unat vstart + 4095"
    unfolding p by simp_all
  have al: "?p mod PGSIZE = 0"
    unfolding unat_mod_page p by simp
  have "whole_pages ?p vend = {p. p mod PGSIZE = 0 \<and> vstart \<le> p \<and> unat p + 4096 \<le> unat vend}"
  proof -
    have "?p \<le> x \<longleftrightarrow> vstart \<le> x" if al: "x mod PGSIZE = 0" for x
    proof -
      obtain k where k: "unat x = k * 4096"
        using page_multiple[OF al] .
      have "vstart \<le> x \<Longrightarrow> unat ?p \<le> unat x"
        unfolding p k word_le_nat_alt by (intro mult_le_mono1) simp
      then show ?thesis
        using lo by (auto simp: word_le_nat_alt)
    qed
    then show ?thesis
      unfolding whole_pages_def by (intro Collect_cong conj_cong refl) simp
  qed
  moreover have "free_pages ?s []" "kmem_ready (0, 0) ?s"
    using assms(1) by (simp_all add: free_pages_def kmem_ready_def upd_lock_def)
  moreover have "kend ?s \<le> ?p" "KERNBASE \<le> ?p" "unat ?p \<le> 0x8E000000"
    using assms(2-4) lo hi by (simp_all add: word_le_nat_alt upd_lock_def)
  ultimately show ?thesis
    using freerange_loop_run[of "(0, 0)" ?s "[]" ?p vend] al assms(5)
    by (auto simp: kinit1_def initlock_def freerange_def kbind_Inr_iff kbind_def)
qed

theorem kinit1_frees_whole_pages_witness:
  "\<exists>t xs. kinit1 0x80115010 0x80400000 ((kmem3 ())\<lparr>freelist := 0\<rparr>) = Inr ((), t) \<and>
     free_pages t xs \<and> 0x80116000 \<in> set xs"
proof -
  let ?s = "(kmem3 ())\<lparr>freelist := 0\<rparr>"
  have "freelist ?s = 0" "kend ?s \<le> 0x80115010" "KERNBASE \<le> 0x80115010"
    "unat (0x80115010 :: u32) + 4095 \<le> 0x8E000000" "unat (0x80400000 :: u32) \<le> 0x8E000000"
    by (simp_all add: kmem3_def mach2_def)
  from kinit1_frees_whole_pages[OF this] obtain t xs
    where t: "kinit1 0x80115010 0x80400000 ?s = Inr ((), t)" "free_pages t xs"
      "set xs = {p. p mod PGSIZE = 0 \<and> 0x80115010 \<le> p \<and> unat p + 4096 \<le> unat (0x80400000 :: u32)}"
    by blast
  then have "0x80116000 \<in> set xs"
    by simp
  then show ?thesis
    using t(1,2) by blast
qed

end
