(* ===== verification/Cprintf.thy ===== *)
theory Cprintf
  imports Kalloc
begin

unbundle bit_operations_syntax

text \<open>
  Console output: the character path of \<open>src/console.c\<close> (\<open>printint\<close>, \<open>cprintf\<close>, \<open>cgaputc\<close>,
  \<open>consputc\<close>) down to the screen memory, the cursor registers and the serial port of \<open>src/uart.c\<close>.
  Screen memory is part of the kernel's memory; the serial port is the list of bytes sent.

  The variable arguments of \<open>cprintf\<close> are tagged: a word, or the bytes of the string a pointer
  argument points to.  A conversion that finds no argument, or that dereferences a word, is a fault.
\<close>

section \<open>State\<close>

record cons_state = kmem_state +
  panicked :: u32
  cons_locking :: u32
  crt_index :: u8
  crt_hi :: u8
  crt_lo :: u8
  uart :: u32
  com1_out :: "u8 list"
  in_buf :: "u8 list"
  in_r :: u32
  in_w :: u32
  in_e :: u32

section \<open>Devices\<close>

abbreviation (input) CRTPORT :: u16 where "CRTPORT \<equiv> 0x3d4"
abbreviation (input) COM1 :: u16 where "COM1 \<equiv> 0x3f8"
abbreviation (input) BACKSPACE :: u32 where "BACKSPACE \<equiv> 0x100"

text \<open>The ports that console output uses: the CRT controller's index and data port, and COM1.\<close>

definition outb :: "u16 \<Rightarrow> u8 \<Rightarrow> ('x cons_state_scheme, unit) kernel" where
  "outb port data = kmodify (\<lambda>s.
     if port = CRTPORT then s\<lparr>crt_index := data\<rparr>
     else if port = CRTPORT + 1 then
       (if crt_index s = 14 then s\<lparr>crt_hi := data\<rparr>
        else if crt_index s = 15 then s\<lparr>crt_lo := data\<rparr> else s)
     else if port = COM1 then s\<lparr>com1_out := com1_out s @ [data]\<rparr>
     else s)"

definition inb_crt :: "('x cons_state_scheme, u8) kernel" where
  "inb_crt = kgets (\<lambda>s. if crt_index s = 14 then crt_hi s else crt_lo s)"

text \<open>\<open>uartputc\<close>: the bounded wait for the transmitter changes no state.\<close>

definition uartputc :: "u32 \<Rightarrow> ('x cons_state_scheme, unit) kernel" where
  "uartputc c = kbind (kgets uart) (\<lambda>u. kwhen (u \<noteq> 0) (outb COM1 (ucast c)))"

definition crt :: u32 where
  "crt = P2V 0xb8000"

definition wr16 :: "memory \<Rightarrow> u32 \<Rightarrow> u16 \<Rightarrow> memory" where
  "wr16 m a v = m(a := ucast v, a + 1 := ucast (drop_bit 8 v))"

definition crt_store :: "nat \<Rightarrow> u16 \<Rightarrow> ('x cons_state_scheme, unit) kernel" where
  "crt_store pos v = kmodify (\<lambda>s. s\<lparr>mem := wr16 (mem s) (crt + 2 * of_nat pos) v\<rparr>)"

section \<open>console.c: output\<close>

text \<open>\<open>cgaputc\<close>: read the cursor, place the character, scroll, write the cursor back.\<close>

definition cga_getpos :: "('x cons_state_scheme, nat) kernel" where
  "cga_getpos =
     kbind (outb CRTPORT 14) (\<lambda>_. kbind inb_crt (\<lambda>hi.
     kbind (outb CRTPORT 15) (\<lambda>_. kbind inb_crt (\<lambda>lo.
     kret (unat hi * 256 + unat lo)))))"

definition cga_put :: "u32 \<Rightarrow> nat \<Rightarrow> ('x cons_state_scheme, nat) kernel" where
  "cga_put c pos =
     (if c = 10 then kret (pos + (80 - pos mod 80))
      else if c = BACKSPACE then kret (if pos > 0 then pos - 1 else pos)
      else kbind (crt_store pos (ucast (c AND 0xff) OR 0x0700)) (\<lambda>_. kret (pos + 1)))"

definition cga_scroll :: "nat \<Rightarrow> ('x cons_state_scheme, nat) kernel" where
  "cga_scroll pos =
     (if pos div 80 \<ge> 24 then
        kbind (kmodify (\<lambda>s. s\<lparr>mem := memmove (mem s) crt (crt + 2 * 80) (2 * 23 * 80)\<rparr>)) (\<lambda>_.
        kbind (kmodify (\<lambda>s. s\<lparr>mem := memset (mem s) (crt + 2 * of_nat (pos - 80)) 0
            (2 * of_nat (24 * 80 - (pos - 80)))\<rparr>)) (\<lambda>_. kret (pos - 80)))
      else kret pos)"

definition cga_setpos :: "nat \<Rightarrow> ('x cons_state_scheme, unit) kernel" where
  "cga_setpos pos = kseq
     [outb CRTPORT 14, outb (CRTPORT + 1) (of_nat (pos div 256)),
      outb CRTPORT 15, outb (CRTPORT + 1) (of_nat pos),
      crt_store pos (0x20 OR 0x0700)]"

definition cgaputc :: "u32 \<Rightarrow> ('x cons_state_scheme, unit) kernel" where
  "cgaputc c =
     kbind cga_getpos (\<lambda>pos.
     kbind (cga_put c pos) (\<lambda>pos.
     if pos > 25 * 80 then panic ''pos under/overflow''
     else kbind (cga_scroll pos) cga_setpos))"

definition consputc :: "u32 \<Rightarrow> ('x cons_state_scheme, unit) kernel" where
  "consputc c =
     kbind (kgets panicked) (\<lambda>p.
     if p \<noteq> 0 then kbind cli (\<lambda>_. kstop Spin)
     else kseq
      [if c = BACKSPACE then kseq [uartputc 8, uartputc 32, uartputc 8] else uartputc c,
       cgaputc c])"

text \<open>The digit loop of \<open>printint\<close>, filling \<open>buf\<close> from the least significant digit.\<close>

definition digits :: string where
  "digits = ''0123456789abcdef''"

function digit_loop :: "string \<Rightarrow> nat \<Rightarrow> u32 \<Rightarrow> string" where
  "digit_loop ds base x =
     ds ! (unat x mod base) #
       (if base < 2 \<or> unat x div base = 0 then [] else digit_loop ds base (of_nat (unat x div base)))"
  by auto
termination
proof (relation "measure (\<lambda>(_, _, x). unat x)", simp, goal_cases)
  case (1 ds base x)
  then have "unat x div base < unat x"
    by (intro div_less_dividend) (auto simp: div_eq_0_iff)
  moreover have "unat (of_nat (unat x div base) :: u32) \<le> unat x div base"
    by (simp add: unat_of_nat)
  ultimately show ?case
    by simp
qed

declare digit_loop.simps [simp del]

text \<open>The buffer \<open>printint\<close> has filled when it starts to print, and the printing order.\<close>

definition printint_buf :: "string \<Rightarrow> u32 \<Rightarrow> nat \<Rightarrow> bool \<Rightarrow> string" where
  "printint_buf ds xx base sign =
     (let neg = sign \<and> sint xx < 0; x = (if neg then - xx else xx)
      in digit_loop ds base x @ (if neg then ''-'' else ''''))"

definition printint :: "u32 \<Rightarrow> nat \<Rightarrow> bool \<Rightarrow> ('x cons_state_scheme, unit) kernel" where
  "printint xx base sign =
     kseq (map (\<lambda>c. consputc (of_char c)) (rev (printint_buf digits xx base sign)))"

datatype fmt_arg = Word u32 | Str "u8 list"

definition puts_str :: "u8 list \<Rightarrow> ('x cons_state_scheme, unit) kernel" where
  "puts_str bs = kseq (map (\<lambda>c. consputc (scast c)) (takeWhile (\<lambda>c. c \<noteq> 0) bs))"

definition null_str :: "u8 list" where
  "null_str = map of_char ''(null)''"

fun cprintf_loop :: "string \<Rightarrow> fmt_arg list \<Rightarrow> ('x cons_state_scheme, unit) kernel" where
  "cprintf_loop [] args = kret ()"
| "cprintf_loop [c] args = (if c \<noteq> CHR ''%'' then consputc (of_char c) else kret ())"
| "cprintf_loop (c # d # fmt) args =
     (if c \<noteq> CHR ''%'' then kbind (consputc (of_char c)) (\<lambda>_. cprintf_loop (d # fmt) args)
      else if d \<in> {CHR ''u'', CHR ''d''} then
        (case args of Word x # args \<Rightarrow> kbind (printint x 10 True) (\<lambda>_. cprintf_loop fmt args)
         | _ \<Rightarrow> kstop Fault)
      else if d \<in> {CHR ''x'', CHR ''p''} then
        (case args of Word x # args \<Rightarrow> kbind (printint x 16 False) (\<lambda>_. cprintf_loop fmt args)
         | _ \<Rightarrow> kstop Fault)
      else if d = CHR ''s'' then
        (case args of
           Str bs # args \<Rightarrow> kbind (puts_str bs) (\<lambda>_. cprintf_loop fmt args)
         | Word x # args \<Rightarrow>
             if x = 0 then kbind (puts_str null_str) (\<lambda>_. cprintf_loop fmt args) else kstop Fault
         | [] \<Rightarrow> kstop Fault)
      else if d = CHR ''%'' then kbind (consputc (of_char d)) (\<lambda>_. cprintf_loop fmt args)
      else kbind (kseq [consputc (of_char CHR ''%''), consputc (of_char d)])
             (\<lambda>_. cprintf_loop fmt args))"

definition cprintf :: "string \<Rightarrow> fmt_arg list \<Rightarrow> ('x cons_state_scheme, unit) kernel" where
  "cprintf fmt args =
     kbind (kgets cons_locking) (\<lambda>locking. kseq
      [kwhen (locking \<noteq> 0) (acquire Cons_lock),
       cprintf_loop fmt args,
       kwhen (locking \<noteq> 0) (release Cons_lock)])"

section \<open>What a character does\<close>

definition crt_pos :: "'x cons_state_scheme \<Rightarrow> nat" where
  "crt_pos s = unat (crt_hi s) * 256 + unat (crt_lo s)"

text \<open>The 25 rows of 80 two-byte cells of screen memory.\<close>

definition on_screen :: "u32 \<Rightarrow> bool" where
  "on_screen a \<longleftrightarrow> a - crt < 4000"

definition out_frame :: "'x cons_state_scheme \<Rightarrow> 'x cons_state_scheme \<Rightarrow> bool" where
  "out_frame s t \<longleftrightarrow> (\<exists>m ix hi lo out.
     t = s\<lparr>mem := m, crt_index := ix, crt_hi := hi, crt_lo := lo, com1_out := out\<rparr> \<and>
     (\<forall>a. \<not> on_screen a \<longrightarrow> m a = mem s a))"

lemma out_frame_refl: "out_frame s s"
  unfolding out_frame_def
  by (intro exI[of _ "mem s"] exI[of _ "crt_index s"] exI[of _ "crt_hi s"] exI[of _ "crt_lo s"]
      exI[of _ "com1_out s"]) simp

lemma out_frame_trans:
  assumes "out_frame s t" and "out_frame t u"
  shows "out_frame s u"
proof -
  obtain m ix hi lo out where t:
    "t = s\<lparr>mem := m, crt_index := ix, crt_hi := hi, crt_lo := lo, com1_out := out\<rparr>"
    "\<And>a. \<not> on_screen a \<Longrightarrow> m a = mem s a"
    using assms(1) unfolding out_frame_def by blast
  obtain m' ix' hi' lo' out' where u:
    "u = t\<lparr>mem := m', crt_index := ix', crt_hi := hi', crt_lo := lo', com1_out := out'\<rparr>"
    "\<And>a. \<not> on_screen a \<Longrightarrow> m' a = mem t a"
    using assms(2) unfolding out_frame_def by blast
  have "u = s\<lparr>mem := m', crt_index := ix', crt_hi := hi', crt_lo := lo', com1_out := out'\<rparr>"
    unfolding u(1) t(1) by simp
  moreover have "m' a = mem s a" if "\<not> on_screen a" for a
    using u(2)[OF that] t(2)[OF that] t(1) by simp
  ultimately show ?thesis
    unfolding out_frame_def by blast
qed

lemma out_frame_fields:
  assumes "out_frame s t"
  shows "panicked t = panicked s" and "uart t = uart s" and "cons_locking t = cons_locking s"
    and "kmem_use_lock t = kmem_use_lock s" and "freelist t = freelist s" and "kend t = kend s"
    and "cons_state.more t = cons_state.more s" and "same_ctx {} s t"
    and "\<not> on_screen a \<Longrightarrow> mem t a = mem s a"
    and "in_buf t = in_buf s" and "in_r t = in_r s" and "in_w t = in_w s" and "in_e t = in_e s"
  using assms by (auto simp: out_frame_def same_ctx_def)

lemma of_nat_screen: "k < 4000 \<Longrightarrow> on_screen (crt + of_nat k)"
  by (simp add: on_screen_def word_less_nat_alt unat_of_nat)

lemma screen_range:
  fixes a :: u32
  assumes "k + unat n \<le> 4000" and "a - (crt + of_nat k) < n"
  shows "on_screen a"
proof -
  have k: "unat (of_nat k :: u32) = k"
    using assms(1) by (simp add: unat_of_nat)
  have "unat (a - (crt + of_nat k)) + k < 4000"
    using assms by (simp add: word_less_nat_alt)
  then have "unat (a - (crt + of_nat k) + of_nat k) < 4000"
    unfolding unat_plus_if' k by simp
  then have "unat (a - crt) < 4000"
    by simp
  then show ?thesis
    by (simp add: on_screen_def word_less_nat_alt)
qed

lemma wr16_frame:
  assumes "pos < 2000" and "\<not> on_screen a"
  shows "wr16 m (crt + 2 * of_nat pos) v a = m a"
proof -
  have "on_screen (crt + 2 * of_nat pos)" "on_screen (crt + 2 * of_nat pos + 1)"
    using assms(1) of_nat_screen[of "2 * pos"] of_nat_screen[of "2 * pos + 1"]
    by (simp, simp add: ac_simps)
  then show ?thesis
    using assms(2) by (auto simp: wr16_def)
qed

lemma scroll_frame:
  assumes "1920 \<le> pos" and "pos \<le> 2000" and "\<not> on_screen a"
  shows "memset (memmove m crt (crt + 2 * 80) (2 * 23 * 80)) (crt + 2 * of_nat (pos - 80)) 0
     (2 * of_nat (24 * 80 - (pos - 80))) a = m a"
proof -
  have mv: "memmove m crt (crt + 160) 3680 a = m a"
    using assms(3) screen_range[of 0 3680 a] by (subst memmove_run) (auto simp: crt_def P2V_def)
  define d e where de: "d = pos - 80" "e = 24 * 80 - d"
  have d: "pos - 80 = d" "24 * 80 - d = e" "d + e = 1920"
    using assms(1,2) unfolding de by simp_all
  have "\<not> a - (crt + of_nat (2 * d)) < of_nat (2 * e)"
  proof
    assume "a - (crt + of_nat (2 * d)) < of_nat (2 * e)"
    moreover have "unat (of_nat (2 * e) :: u32) = 2 * e"
      using d(3) by (simp only: unat_of_nat) simp
    ultimately show False
      using screen_range[of "2 * d" "of_nat (2 * e)" a] d(3) assms(3) by simp
  qed
  then show ?thesis
    using mv unfolding d by (simp add: memset_run)
qed

lemma out_frameI:
  "t = s\<lparr>mem := m, crt_index := ix, crt_hi := hi, crt_lo := lo, com1_out := out\<rparr> \<Longrightarrow>
    (\<And>a. \<not> on_screen a \<Longrightarrow> m a = mem s a) \<Longrightarrow> out_frame s t"
  unfolding out_frame_def by blast

lemma out_frame_mem: "(\<And>a. \<not> on_screen a \<Longrightarrow> m a = mem s a) \<Longrightarrow> out_frame s (s\<lparr>mem := m\<rparr>)"
  by (rule out_frameI[where m = m and ix = "crt_index s" and hi = "crt_hi s" and lo = "crt_lo s" and out = "com1_out s"]) (cases s; simp)+

lemma out_frame_regs:
  "out_frame s (s\<lparr>crt_index := i\<rparr>)" "out_frame s (s\<lparr>crt_hi := i\<rparr>)"
  "out_frame s (s\<lparr>crt_lo := i\<rparr>)" "out_frame s (s\<lparr>com1_out := bs\<rparr>)"
  by (rule out_frameI[where m = "mem s" and ix = i and hi = "crt_hi s" and lo = "crt_lo s" and out = "com1_out s"], cases s, simp, simp,
      rule out_frameI[where m = "mem s" and ix = "crt_index s" and hi = i and lo = "crt_lo s" and out = "com1_out s"], cases s, simp, simp,
      rule out_frameI[where m = "mem s" and ix = "crt_index s" and hi = "crt_hi s" and lo = i and out = "com1_out s"], cases s, simp, simp,
      rule out_frameI[where m = "mem s" and ix = "crt_index s" and hi = "crt_hi s" and lo = "crt_lo s" and out = bs], cases s, simp, simp)

lemmas out_frames = out_frame_refl out_frame_mem out_frame_regs

lemma cga_getpos_run: "cga_getpos s = Inr (crt_pos s, s\<lparr>crt_index := 15\<rparr>)"
  by (simp add: cga_getpos_def outb_def inb_crt_def crt_pos_def)

definition cga_step :: "u32 \<Rightarrow> nat \<Rightarrow> nat" where
  "cga_step c pos =
     (if c = 10 then pos + (80 - pos mod 80) else if c = BACKSPACE then pos - 1 else pos + 1)"

lemma cga_step_le: "pos < 1920 \<Longrightarrow> cga_step c pos \<le> 1920"
proof -
  assume pos: "pos < 1920"
  have "pos = 80 * (pos div 80) + pos mod 80" "pos div 80 < 24" "pos mod 80 < 80"
    using pos by simp_all
  then have "pos + (80 - pos mod 80) \<le> 1920"
    by linarith
  then show ?thesis
    using pos by (auto simp: cga_step_def)
qed

lemma cga_put_run:
  assumes "pos < 2000"
  shows "\<exists>t. cga_put c pos s = Inr (cga_step c pos, t) \<and> out_frame s t \<and> com1_out t = com1_out s"
proof (cases "c = 10 \<or> c = BACKSPACE")
  case True
  then show ?thesis
    by (auto simp: cga_put_def cga_step_def intro: out_frame_refl)
next
  case False
  then show ?thesis
    using wr16_frame[OF assms]
    by (simp add: cga_put_def cga_step_def crt_store_def out_frame_mem)
qed

lemma cga_scroll_run:
  assumes "pos \<le> 2000"
  shows "\<exists>t. cga_scroll pos s = Inr (if 1920 \<le> pos then pos - 80 else pos, t) \<and> out_frame s t \<and>
    com1_out t = com1_out s"
proof (cases "1920 \<le> pos")
  case True
  then have "24 \<le> pos div 80"
    by simp
  then show ?thesis
    using True assms scroll_frame[OF True assms, of _ "mem s"]
    by (auto simp: cga_scroll_def intro!: out_frame_mem)
next
  case False
  then have "\<not> 24 \<le> pos div 80"
    by simp
  then show ?thesis
    using False by (auto simp: cga_scroll_def intro: out_frame_refl)
qed

lemma cursor_roundtrip: "p < 65536 \<Longrightarrow> unat (of_nat (p div 256) :: u8) * 256 + unat (of_nat p :: u8) = p"
  by (simp add: unat_of_nat)

lemma cga_setpos_run:
  assumes "pos < 2000"
  shows "\<exists>t. cga_setpos pos s = Inr ((), t) \<and> crt_pos t = pos \<and> out_frame s t \<and> com1_out t = com1_out s"
proof -
  let ?s1 = "s\<lparr>crt_index := 14\<rparr>" and ?h = "of_nat (pos div 256) :: u8"
  let ?s2 = "?s1\<lparr>crt_hi := ?h\<rparr>"
  let ?s3 = "?s2\<lparr>crt_index := 15\<rparr>"
  let ?s4 = "?s3\<lparr>crt_lo := of_nat pos\<rparr>"
  let ?s5 = "?s4\<lparr>mem := wr16 (mem s) (crt + 2 * of_nat pos) (0x20 OR 0x0700)\<rparr>"
  have "cga_setpos pos s = Inr ((), ?s5)"
    by (simp add: cga_setpos_def outb_def crt_store_def)
  moreover have "crt_pos ?s5 = pos"
    using assms cursor_roundtrip[of pos] by (simp add: crt_pos_def)
  moreover have "out_frame s ?s4"
    by (rule out_frame_trans[of _ ?s1], rule out_frames, rule out_frame_trans[of _ ?s2], rule out_frames,
        rule out_frame_trans[of _ ?s3]) (rule out_frames)+
  moreover have "out_frame ?s4 ?s5"
    using assms by (intro out_frame_mem) (simp add: wr16_frame)
  ultimately show ?thesis
    using out_frame_trans by (intro exI[of _ ?s5]) auto
qed

lemma cgaputc_run:
  assumes "crt_pos s < 1920"
  shows "\<exists>t. cgaputc c s = Inr ((), t) \<and> crt_pos t < 1920 \<and> out_frame s t \<and> com1_out t = com1_out s"
proof -
  let ?s1 = "s\<lparr>crt_index := 15\<rparr>" and ?p = "cga_step c (crt_pos s)"
  have p: "?p \<le> 1920"
    by (rule cga_step_le[OF assms])
  obtain s2 where s2: "cga_put c (crt_pos s) ?s1 = Inr (?p, s2)" "out_frame ?s1 s2"
    "com1_out s2 = com1_out ?s1"
    using cga_put_run[of "crt_pos s" c ?s1] assms by auto
  let ?q = "if 1920 \<le> ?p then ?p - 80 else ?p"
  obtain s3 where s3: "cga_scroll ?p s2 = Inr (?q, s3)" "out_frame s2 s3" "com1_out s3 = com1_out s2"
    using cga_scroll_run[of ?p s2] p by auto
  have q: "?q < 1920"
    using p by auto
  obtain t where t: "cga_setpos ?q s3 = Inr ((), t)" "crt_pos t = ?q" "out_frame s3 t"
    "com1_out t = com1_out s3"
    using cga_setpos_run[of ?q s3] q by auto
  have "cgaputc c s = Inr ((), t)"
    using p s2(1) s3(1) t(1) by (simp add: cgaputc_def cga_getpos_run kbind_def)
  moreover have "out_frame s t"
    by (rule out_frame_trans[OF out_frame_trans[OF out_frame_trans[OF out_frame_regs(1) s2(2)] s3(2)] t(3)])
  ultimately show ?thesis
    using t q s2(3) s3(3) by auto
qed

section \<open>What a call prints\<close>

definition cons_ok :: "'x cons_state_scheme \<Rightarrow> bool" where
  "cons_ok s \<longleftrightarrow> panicked s = 0 \<and> crt_pos s < 1920"

text \<open>From \<open>s\<close> to \<open>t\<close> the bytes \<open>bs\<close> went to the serial port, if there is one, and only the screen changed.\<close>

definition prints :: "'x cons_state_scheme \<Rightarrow> u8 list \<Rightarrow> 'x cons_state_scheme \<Rightarrow> bool" where
  "prints s bs t \<longleftrightarrow> cons_ok t \<and> out_frame s t \<and>
     com1_out t = com1_out s @ (if uart s = 0 then [] else bs)"

lemma prints_trans: "prints s as t \<Longrightarrow> prints t bs u \<Longrightarrow> prints s (as @ bs) u"
  using out_frame_trans[of s t u] out_frame_fields(2)[of s t] by (auto simp: prints_def)

lemma prints_Nil: "cons_ok s \<Longrightarrow> prints s [] s"
  by (simp add: prints_def out_frame_refl)

lemma prints_ok: "prints s bs t \<Longrightarrow> cons_ok t"
  by (simp add: prints_def)

lemma uartputc_run: "uartputc c s = Inr ((), s\<lparr>com1_out := com1_out s @ (if uart s = 0 then [] else [ucast c])\<rparr>)"
  by (simp add: uartputc_def outb_def)

lemma consputc_run:
  assumes "cons_ok s" and "c \<noteq> BACKSPACE"
  shows "\<exists>t. consputc c s = Inr ((), t) \<and> prints s [ucast c] t"
proof -
  let ?s1 = "s\<lparr>com1_out := com1_out s @ (if uart s = 0 then [] else [ucast c])\<rparr>"
  have "crt_pos ?s1 < 1920"
    using assms(1) by (simp add: cons_ok_def crt_pos_def)
  then obtain t where t: "cgaputc c ?s1 = Inr ((), t)" "crt_pos t < 1920" "out_frame ?s1 t"
    "com1_out t = com1_out ?s1"
    using cgaputc_run[of ?s1 c] by blast
  have "out_frame s t"
    by (rule out_frame_trans[OF out_frame_regs(4) t(3)])
  moreover have "panicked t = 0"
    using out_frame_fields(1)[OF t(3)] assms(1) by (simp add: cons_ok_def)
  ultimately have "prints s [ucast c] t"
    using t(2,4) by (simp add: prints_def cons_ok_def)
  moreover have "consputc c s = Inr ((), t)"
    using assms t(1) by (simp add: consputc_def cons_ok_def kbind_def uartputc_run)
  ultimately show ?thesis
    by blast
qed

lemma consputc_seq:
  assumes "cons_ok s" and "list_all (\<lambda>c. c \<noteq> BACKSPACE) cs"
  shows "\<exists>t. kseq (map consputc cs) s = Inr ((), t) \<and> prints s (map ucast cs) t"
  using assms
proof (induction cs arbitrary: s)
  case Nil
  then show ?case by (simp add: prints_Nil)
next
  case (Cons c cs)
  obtain t where t: "consputc c s = Inr ((), t)" "prints s [ucast c] t"
    using consputc_run[OF Cons.prems(1), of c] Cons.prems(2) by auto
  obtain u where u: "kseq (map consputc cs) t = Inr ((), u)" "prints t (map ucast cs) u"
    using Cons.IH[OF prints_ok[OF t(2)]] Cons.prems(2) by auto
  show ?case
    using t(1) u(1) prints_trans[OF t(2) u(2)] by (simp add: kbind_def)
qed

lemma of_char_word:
  shows "of_char c \<noteq> (0x100 :: u32)" and "ucast (of_char c :: u32) = (of_char c :: u8)"
proof -
  have "unat (of_nat (of_char c) :: u32) = of_char c"
    unfolding unat_of_nat by (intro mod_less less_trans[OF nat_of_char_less_256]) simp
  then have u: "unat (of_char c :: u32) = of_char c"
    unfolding of_nat_of_char .
  then show "of_char c \<noteq> (0x100 :: u32)"
    using nat_of_char_less_256[of c] by force
  have "ucast (of_char c :: u32) = (of_nat (unat (of_char c :: u32)) :: u8)"
    by simp
  then show "ucast (of_char c :: u32) = (of_char c :: u8)"
    unfolding u of_nat_of_char .
qed

lemma scast_byte:
  fixes c :: u8
  shows "scast c \<noteq> (0x100 :: u32)" and "ucast (scast c :: u32) = c"
proof -
  show "ucast (scast c :: u32) = c"
  proof (rule bit_word_eqI, goal_cases)
    case (1 n)
    then show ?case
      by (cases "n = 7") (auto simp: bit_simps min_def)
  qed
  have "bit (scast c :: u32) 8 = bit (scast c :: u32) 7"
    by (simp add: bit_simps min_def)
  moreover have "bit (0x100 :: u32) 8 \<noteq> bit (0x100 :: u32) 7"
    by simp
  ultimately show "scast c \<noteq> (0x100 :: u32)"
    by metis
qed

text \<open>The text of a call: the format with its conversions replaced.\<close>

abbreviation bytes :: "string \<Rightarrow> u8 list" where
  "bytes \<equiv> map of_char"

definition int_text :: "string \<Rightarrow> u32 \<Rightarrow> nat \<Rightarrow> bool \<Rightarrow> u8 list" where
  "int_text ds x base sign = bytes (rev (printint_buf ds x base sign))"

fun cprintf_text :: "string \<Rightarrow> fmt_arg list \<Rightarrow> u8 list option" where
  "cprintf_text [] args = Some []"
| "cprintf_text [c] args = Some (if c = CHR ''%'' then [] else [of_char c])"
| "cprintf_text (c # d # fmt) args =
     (if c \<noteq> CHR ''%'' then map_option ((#) (of_char c)) (cprintf_text (d # fmt) args)
      else if d \<in> {CHR ''u'', CHR ''d'', CHR ''x'', CHR ''p''} then
        (case args of
           Word x # args \<Rightarrow>
             map_option ((@) (if d \<in> {CHR ''u'', CHR ''d''} then int_text digits x 10 True
               else int_text digits x 16 False)) (cprintf_text fmt args)
         | _ \<Rightarrow> None)
      else if d = CHR ''s'' then
        (case args of
           Str bs # args \<Rightarrow> map_option ((@) (takeWhile (\<lambda>c. c \<noteq> 0) bs)) (cprintf_text fmt args)
         | Word x # args \<Rightarrow>
             if x = 0 then map_option ((@) (bytes ''(null)'')) (cprintf_text fmt args) else None
         | [] \<Rightarrow> None)
      else if d = CHR ''%'' then map_option ((#) (of_char d)) (cprintf_text fmt args)
      else map_option ((@) (bytes [CHR ''%'', d])) (cprintf_text fmt args))"

lemma putc_run: "cons_ok s \<Longrightarrow> \<exists>t. consputc (of_char c) s = Inr ((), t) \<and> prints s [of_char c] t"
  using consputc_run[of s "of_char c"] by (simp add: of_char_word)

lemma put_string_run:
  "cons_ok s \<Longrightarrow>
    \<exists>t. kseq (map (\<lambda>c. consputc (of_char c)) cs) s = Inr ((), t) \<and> prints s (bytes cs) t"
  using consputc_seq[of s "map of_char cs"] by (simp add: list_all_iff of_char_word comp_def)

lemma printint_run:
  "cons_ok s \<Longrightarrow> \<exists>t. printint x base sign s = Inr ((), t) \<and> prints s (int_text digits x base sign) t"
  unfolding printint_def int_text_def by (rule put_string_run)

lemma puts_str_run:
  "cons_ok s \<Longrightarrow> \<exists>t. puts_str bs s = Inr ((), t) \<and> prints s (takeWhile (\<lambda>c. c \<noteq> 0) bs) t"
  using consputc_seq[of s "map scast (takeWhile (\<lambda>c. c \<noteq> 0) bs)"]
  by (simp add: puts_str_def list_all_iff scast_byte comp_def)

lemma null_str_text: "takeWhile (\<lambda>c. c \<noteq> 0) null_str = bytes ''(null)''"
  by (simp add: null_str_def of_char_def)

lemma puts_null_run:
  "cons_ok s \<Longrightarrow> \<exists>t. puts_str null_str s = Inr ((), t) \<and> prints s (bytes ''(null)'') t"
  using puts_str_run[of s null_str] by (simp only: null_str_text)

text \<open>One step of the loop: print something, then go on.\<close>

lemma prints_then:
  assumes "\<exists>t. m s = Inr ((), t) \<and> prints s as t"
    and "\<And>t. cons_ok t \<Longrightarrow> \<exists>u. k t = Inr ((), u) \<and> prints t bs u"
  shows "\<exists>u. kbind m (\<lambda>_. k) s = Inr ((), u) \<and> prints s (as @ bs) u"
proof -
  obtain t where t: "m s = Inr ((), t)" "prints s as t"
    using assms(1) by blast
  obtain u where u: "k t = Inr ((), u)" "prints t bs u"
    using assms(2)[OF prints_ok[OF t(2)]] by blast
  show ?thesis
    using t(1) u(1) prints_trans[OF t(2) u(2)] by (auto simp: kbind_def)
qed

lemma cprintf_loop_run:
  fixes s :: "'x cons_state_scheme"
  shows "cons_ok s \<Longrightarrow> cprintf_text fmt args = Some bs \<Longrightarrow>
    \<exists>t. cprintf_loop fmt args s = Inr ((), t) \<and> prints s bs t"
proof (induction fmt arbitrary: args s bs rule: length_induct)
  case (1 fmt)
  consider "fmt = []" | c where "fmt = [c]" | c d fmt' where "fmt = c # d # fmt'"
    by (cases fmt rule: remdups_adj.cases) auto
  then show ?case
  proof cases
    case 1
    then show ?thesis using "1.prems" by (simp add: prints_Nil)
  next
    case 2
    then show ?thesis using "1.prems" putc_run[OF "1.prems"(1), of c] by (auto simp: prints_Nil)
  next
    case 3
    have IH: "\<exists>u. cprintf_loop fmt'' args t = Inr ((), u) \<and> prints t bs u"
      if "fmt'' = fmt' \<or> fmt'' = d # fmt'" "cprintf_text fmt'' args = Some bs" "cons_ok t"
      for fmt'' args bs and t :: "'x cons_state_scheme"
    proof -
      have "length fmt'' < length fmt"
        using that(1) 3 by auto
      then show ?thesis
        using "1.IH" that(2,3) by blast
    qed
    have step: "\<exists>u. kbind m (\<lambda>_. cprintf_loop fmt'' args) s = Inr ((), u) \<and> prints s (as @ bs) u"
      if "\<exists>t. m s = Inr ((), t) \<and> prints s as t" "fmt'' = fmt' \<or> fmt'' = d # fmt'"
        "cprintf_text fmt'' args = Some bs" for m as fmt'' args bs
      using that(1) by (rule prints_then) (rule IH[OF that(2,3)])
    show ?thesis
    proof (cases "c = CHR ''%''")
      case False
      then show ?thesis
        using "1.prems"(2) 3 step[of "consputc (of_char c)" _ "d # fmt'" args, OF putc_run[OF "1.prems"(1)]] by auto
    next
      case c: True
      consider "d \<in> {CHR ''u'', CHR ''d''}" | "d \<in> {CHR ''x'', CHR ''p''}" | "d = CHR ''s''"
        | "d = CHR ''%''" | "d \<notin> {CHR ''u'', CHR ''d'', CHR ''x'', CHR ''p'', CHR ''s'', CHR ''%''}"
        by blast
      then show ?thesis
      proof cases
        case 1
        then show ?thesis
          using "1.prems"(2) 3 c
            step[of "printint _ 10 True" _ fmt', OF printint_run[OF "1.prems"(1)]]
          by (auto split: list.splits fmt_arg.splits)
      next
        case 2
        then show ?thesis
          using "1.prems"(2) 3 c
            step[of "printint _ 16 False" _ fmt', OF printint_run[OF "1.prems"(1)]]
          by (auto split: list.splits fmt_arg.splits)
      next
        case 3
        then show ?thesis
          using "1.prems"(2) \<open>fmt = c # d # fmt'\<close> c
            step[of "puts_str null_str" _ fmt', OF puts_null_run[OF "1.prems"(1)]]
            step[of "puts_str _" _ fmt', OF puts_str_run[OF "1.prems"(1)]]
          by (auto split: list.splits fmt_arg.splits if_splits)
      next
        case 4
        then show ?thesis
          using "1.prems"(2) 3 c step[of "consputc (of_char d)" _ fmt' args, OF putc_run[OF "1.prems"(1)]] by auto
      next
        case 5
        then show ?thesis
          using "1.prems"(2) 3 c
            step[of "kseq (map (\<lambda>c. consputc (of_char c)) [CHR ''%'', d])" _ fmt' args,
              OF put_string_run[OF "1.prems"(1)]]
          by auto
      qed
    qed
  qed
qed

text \<open>The same, without the state of the processors and locks.\<close>

definition printed :: "'x cons_state_scheme \<Rightarrow> u8 list \<Rightarrow> 'x cons_state_scheme \<Rightarrow> bool" where
  "printed s bs t \<longleftrightarrow> cons_ok t \<and> com1_out t = com1_out s @ (if uart s = 0 then [] else bs) \<and>
     freelist t = freelist s \<and> kend t = kend s \<and> kmem_use_lock t = kmem_use_lock s \<and>
     panicked t = panicked s \<and> cons_locking t = cons_locking s \<and> uart t = uart s \<and>
     in_buf t = in_buf s \<and> in_r t = in_r s \<and> in_w t = in_w s \<and> in_e t = in_e s \<and>
     cons_state.more t = cons_state.more s \<and> (\<forall>a. \<not> on_screen a \<longrightarrow> mem t a = mem s a)"

lemma prints_printed: "prints s bs t \<Longrightarrow> printed s bs t"
  using out_frame_fields[of s t] by (auto simp: prints_def printed_def)

lemma more_cons:
  assumes "mach.more t = mach.more s"
  shows "panicked t = panicked s" and "cons_locking t = cons_locking s" and "uart t = uart s"
    and "com1_out t = com1_out s" and "in_buf t = in_buf s" and "in_r t = in_r s"
    and "in_w t = in_w s" and "in_e t = in_e s" and "crt_pos t = crt_pos s"
    and "cons_state.more t = cons_state.more s"
  using assms by (cases s; cases t; simp add: crt_pos_def)+

lemma more_cons_ok: "mach.more t = mach.more s \<Longrightarrow> cons_ok t \<longleftrightarrow> cons_ok s"
  using more_cons[of t s] by (simp add: cons_ok_def)

lemma printed_more:
  assumes "mach.more s' = mach.more s" and "mach.more t' = mach.more t"
  shows "printed s' bs t' \<longleftrightarrow> printed s bs t"
  unfolding printed_def more_cons_ok[OF assms(2)]
    more_cons[OF assms(1)] more_cons[OF assms(2)] more_kmem[OF assms(1)] more_kmem[OF assms(2)] ..

lemma printed_trans: "printed s as t \<Longrightarrow> printed t bs u \<Longrightarrow> printed s (as @ bs) u"
  by (auto simp: printed_def)

text \<open>The locks a call may take, and when it can.\<close>

definition cons_locks :: "'x cons_state_scheme \<Rightarrow> lockid set" where
  "cons_locks s = (if cons_locking s = 0 then {} else {Cons_lock})"

definition cons_ready :: "u32 \<times> int \<Rightarrow> 'x cons_state_scheme \<Rightarrow> bool" where
  "cons_ready q s \<longleftrightarrow> cons_ok s \<and> (cons_locking s = 0 \<or> spin_avail Cons_lock q s)"

lemma cprintf_run:
  assumes "cons_ready q s" and bs: "cprintf_text fmt args = Some bs"
  shows "\<exists>t. cprintf fmt args s = Inr ((), t) \<and> printed s bs t \<and> cons_ready q t \<and>
    same_ctx (cons_locks s) s t"
proof (cases "cons_locking s = 0")
  case True
  then obtain t where t: "cprintf_loop fmt args s = Inr ((), t)" "prints s bs t"
    using cprintf_loop_run[OF _ bs] assms(1) by (auto simp: cons_ready_def)
  have "same_ctx {} s t" "cons_locking t = 0"
    using t(2) out_frame_fields(8)[of s t] out_frame_fields(3)[of s t] True by (simp_all add: prints_def)
  then show ?thesis
    using t True prints_printed[OF t(2)] prints_ok[OF t(2)]
    by (auto simp: cprintf_def cons_locks_def cons_ready_def kbind_def)
next
  case False
  then have avail: "spin_avail Cons_lock q s" and ok: "cons_ok s"
    using assms(1) by (auto simp: cons_ready_def)
  obtain t where t: "acquire Cons_lock s = Inr ((), t)" "spin_owned Cons_lock q t"
    "mach.more t = mach.more s"
    using spin.acq_total[OF avail] by blast
  obtain u where u: "cprintf_loop fmt args t = Inr ((), u)" "prints t bs u"
    using cprintf_loop_run[OF _ bs] ok more_cons_ok[OF t(3)] by blast
  have calm: "same_ctx {} t u"
    using u(2) out_frame_fields(8)[of t u] by (simp add: prints_def)
  obtain v where v: "release Cons_lock u = Inr ((), v)" "spin_avail Cons_lock q v"
    "mach.more v = mach.more u"
    using spin.rel_total[OF same_ctx_owned[OF calm _ t(2)]] by auto
  have "same_ctx {Cons_lock} s v"
    using spin.around[OF avail t(1) _ v(1), of "{}"] calm by simp
  moreover have "printed s bs v"
    using prints_printed[OF u(2)] printed_more[OF t(3)[symmetric] v(3)] by simp
  moreover have "cprintf fmt args s = Inr ((), v)"
    using False t(1) u(1) v(1) by (simp add: cprintf_def kbind_def)
  ultimately show ?thesis
    using False v(2) by (auto simp: cons_locks_def cons_ready_def printed_def)
qed

section \<open>The digits of a number\<close>

text \<open>Reading digits back, least significant first.\<close>

definition digit_of :: "string \<Rightarrow> char \<Rightarrow> nat" where
  "digit_of ds c = (case first_index (\<lambda>d. d = c) ds of Some i \<Rightarrow> i | None \<Rightarrow> 0)"

definition read_digits :: "string \<Rightarrow> nat \<Rightarrow> string \<Rightarrow> nat" where
  "read_digits ds base cs = foldr (\<lambda>c n. digit_of ds c + base * n) cs 0"

lemma digit_of_nth: "distinct ds \<Longrightarrow> i < length ds \<Longrightarrow> digit_of ds (ds ! i) = i"
proof -
  assume ds: "distinct ds" "i < length ds"
  then have "first_index (\<lambda>d. d = ds ! i) ds = Some i"
    by (auto simp: first_index_Some_iff nth_eq_iff_index_eq)
  then show ?thesis by (simp add: digit_of_def)
qed

lemma unat_div_of_nat: "unat (of_nat (unat (x :: u32) div b) :: u32) = unat x div b"
  unfolding unat_of_nat
  by (intro mod_less le_less_trans[OF div_le_dividend]) simp

lemma read_digit_loop:
  "distinct ds \<Longrightarrow> 2 \<le> base \<Longrightarrow> base \<le> length ds \<Longrightarrow>
    read_digits ds base (digit_loop ds base x) = unat x"
proof (induction ds base x rule: digit_loop.induct)
  case (1 ds base x)
  have d: "digit_of ds (ds ! (unat x mod base)) = unat x mod base"
    using 1(2-4) by (intro digit_of_nth) (auto intro: less_le_trans[OF mod_less_divisor])
  show ?case
  proof (cases "unat x div base = 0")
    case True
    then have "unat x mod base = unat x"
      using div_mult_mod_eq[of "unat x" base] by simp
    then show ?thesis
      using True d by (simp add: digit_loop.simps[of ds base x] read_digits_def)
  next
    case False
    then have "read_digits ds base (digit_loop ds base (of_nat (unat x div base))) = unat x div base"
      using 1 unat_div_of_nat[of x base] by auto
    then show ?thesis
      using False 1(3) d by (simp add: digit_loop.simps[of ds base x] read_digits_def)
  qed
qed

lemma length_digit_loop:
  "2 \<le> base \<Longrightarrow> unat x < base ^ Suc k \<Longrightarrow> length (digit_loop ds base x) \<le> Suc k"
proof (induction k arbitrary: x)
  case 0
  then show ?case
    by (simp add: digit_loop.simps[of ds base x])
next
  case (Suc k)
  have "unat x div base < base ^ Suc k"
    using Suc.prems by (simp add: less_mult_imp_div_less mult.commute)
  then show ?case
    using Suc.IH[of "of_nat (unat x div base)"] Suc.prems(1) unat_div_of_nat[of x base]
    by (simp add: digit_loop.simps[of ds base x])
qed

lemma abs_sint: "int (unat (if sint x < 0 then - x else x)) = \<bar>sint (x :: u32)\<bar>"
proof (cases "sint x < 0")
  case True
  have x: "- (2 ^ 31) \<le> sint x"
    using sint_ge[of x] by simp
  have "uint (- x) = uint (word_of_int (- sint x) :: u32)"
    by simp
  also have "\<dots> = - sint x"
    using True x by (intro word_of_int_inverse[OF refl]) simp_all
  finally show ?thesis
    using True by simp
next
  case False
  have "uint x = uint (word_of_int (sint x) :: u32)"
    by simp
  also have "\<dots> = sint x"
    using False sint_lt[of x] by (intro word_of_int_inverse[OF refl]) simp_all
  finally show ?thesis
    using False by simp
qed

section \<open>Properties\<close>


text \<open>A console with the cursor on the last line.\<close>

definition cons1 :: "'x \<Rightarrow> 'x cons_state_scheme" where
  "cons1 x = kmem3 \<lparr>panicked = 0, cons_locking = 1, crt_index = 0, crt_hi = 7, crt_lo = 0x7F,
     uart = 1, com1_out = [], in_buf = replicate 128 0, in_r = 0, in_w = 0, in_e = 0, \<dots> = x\<rparr>"

lemma cons1_ready: "cons_ready (0x200, 0) (cons1 x)"
  using mach2_avail[of Cons_lock]
  by (simp add: cons_ready_def cons_ok_def crt_pos_def cons1_def kmem3_def) (simp add: mach2_def)


text \<open>
  C13: \<open>printint\<close>.  The digits it prints denote the number (its absolute value when a signed
  number is negative, for which a minus sign is appended), in base 10 and 16, including the most
  negative integer; and the 16-byte buffer is never overrun.
\<close>
theorem printint_digits:
  assumes "base = 10 \<or> base = 16"
  shows "\<exists>cs. printint_buf digits x base sign = cs @ (if sign \<and> sint x < 0 then ''-'' else '''') \<and>
      int (read_digits digits base cs) = (if sign then \<bar>sint x\<bar> else uint x) \<and>
      length (printint_buf digits x base sign) \<le> 16"
proof -
  let ?neg = "sign \<and> sint x < 0"
  let ?y = "if ?neg then - x else x"
  have ds: "distinct digits" "2 \<le> base" "base \<le> length digits"
    using assms by (auto simp: digits_def)
  have "4294967296 \<le> base ^ Suc 9"
    using assms by auto
  then have "unat ?y < base ^ Suc 9"
    by (rule less_le_trans[OF unat_less_2p32])
  then have len: "length (digit_loop digits base ?y) \<le> 10"
    using length_digit_loop[OF ds(2), of ?y 9] by simp
  have "int (unat ?y) = (if sign then \<bar>sint x\<bar> else uint x)"
    using abs_sint[of x] by auto
  then show ?thesis
    using read_digit_loop[OF ds, of ?y] len
    by (intro exI[of _ "digit_loop digits base ?y"]) (auto simp: printint_buf_def Let_def)
qed

theorem printint_digits_witness:
  "\<exists>cs. printint_buf digits 0x80000000 10 True = cs @ ''-'' \<and>
     int (read_digits digits 10 cs) = 2147483648"
  using printint_digits[of 10 "0x80000000" True] by auto

end
