(* ===== verification/Procdef.thy ===== *)
theory Procdef
  imports Cprintf
begin

unbundle bit_operations_syntax

text \<open>
  The data of \<open>src/proc.h\<close> and \<open>src/date.h\<close>: the process structure, its states, the channels
  processes sleep on, and the layout of the trap frame and of a saved context in a kernel stack.
  A pointer to a process is its index in the process table.  The real-time clock routines of
  \<open>src/lapic.c\<close>, which stamp the start of a process, are here too.
\<close>

section \<open>Processes\<close>

datatype procstate = UNUSED | EMBRYO | SLEEPING | RUNNABLE | RUNNING | ZOMBIE

text \<open>A \<open>void *chan\<close> is the address of one of these objects, or null.\<close>

datatype chan = Chan_null | Proc_chan nat | Ticks_chan | Log_chan | Input_chan | Buf_chan nat
  | Sleeplock_chan lockid | Pipe_nread u32 | Pipe_nwrite u32

record rtcdate =
  rt_second :: u32
  rt_minute :: u32
  rt_hour :: u32
  rt_day :: u32
  rt_month :: u32
  rt_year :: u32

record proc =
  sz :: u32
  pgdir :: u32
  kstack :: u32
  state :: procstate
  pid :: u32
  parent :: "nat option"
  tf :: u32
  ctxt :: u32
  chan :: chan
  killed :: u32
  ofile :: "nat option list"
  cwd :: "nat option"
  name :: "u8 list"
  begin_date :: rtcdate
  ticks_total :: u32
  ticks_begin :: u32
  sched_times :: u32
  nice_value :: u32

abbreviation (input) NPROC :: nat where "NPROC \<equiv> 64"
abbreviation (input) NOFILE :: nat where "NOFILE \<equiv> 16"
abbreviation (input) MIN_NICE_VALUE :: int where "MIN_NICE_VALUE \<equiv> 1"
abbreviation (input) MAX_NICE_VALUE :: int where "MAX_NICE_VALUE \<equiv> 100"
abbreviation (input) DEFAULT_NICE_VALUE :: u32 where "DEFAULT_NICE_VALUE \<equiv> 40"

section \<open>Frames in a kernel stack\<close>

text \<open>Byte offsets of the fields of \<open>struct trapframe\<close> (76 bytes) and \<open>struct context\<close> (20 bytes).\<close>

abbreviation (input) TF_SIZE :: u32 where "TF_SIZE \<equiv> 76"
abbreviation (input) TF_EDX :: u32 where "TF_EDX \<equiv> 20"
abbreviation (input) TF_EAX :: u32 where "TF_EAX \<equiv> 28"
abbreviation (input) TF_ES :: u32 where "TF_ES \<equiv> 40"
abbreviation (input) TF_DS :: u32 where "TF_DS \<equiv> 44"
abbreviation (input) TF_TRAPNO :: u32 where "TF_TRAPNO \<equiv> 48"
abbreviation (input) TF_EIP :: u32 where "TF_EIP \<equiv> 56"
abbreviation (input) TF_CS :: u32 where "TF_CS \<equiv> 60"
abbreviation (input) TF_EFLAGS :: u32 where "TF_EFLAGS \<equiv> 64"
abbreviation (input) TF_ESP :: u32 where "TF_ESP \<equiv> 68"
abbreviation (input) TF_SS :: u32 where "TF_SS \<equiv> 72"
abbreviation (input) CONTEXT_SIZE :: u32 where "CONTEXT_SIZE \<equiv> 20"
abbreviation (input) CONTEXT_EIP :: u32 where "CONTEXT_EIP \<equiv> 16"

definition kload :: "u32 \<Rightarrow> ('x kmem_state_scheme, u32) kernel" where
  "kload a = kgets (\<lambda>s. rd32 (mem s) a)"

definition kstore :: "u32 \<Rightarrow> u32 \<Rightarrow> ('x kmem_state_scheme, unit) kernel" where
  "kstore a v = kmodify (\<lambda>s. s\<lparr>mem := wr32 (mem s) a v\<rparr>)"

definition kmemset :: "u32 \<Rightarrow> u32 \<Rightarrow> u32 \<Rightarrow> ('x kmem_state_scheme, unit) kernel" where
  "kmemset a c n = kmodify (\<lambda>s. s\<lparr>mem := memset (mem s) a c n\<rparr>)"

definition kmemmove :: "u32 \<Rightarrow> u32 \<Rightarrow> u32 \<Rightarrow> ('x kmem_state_scheme, unit) kernel" where
  "kmemmove d a n = kmodify (\<lambda>s. s\<lparr>mem := memmove (mem s) d a n\<rparr>)"

section \<open>lapic.c: the clock\<close>

text \<open>
  \<open>cmos r\<close> is the value of register \<open>r\<close> of the real-time clock.  A reading is taken in the order of
  the code; two equal readings with no update in progress end the loop.  Every attempt may see
  other register values: \<open>cmoss\<close> is the list of what the attempts see, three sets of registers each
  (the first reading, the status check, the second reading).
\<close>

type_synonym cmos_regs = "nat \<Rightarrow> u8"

definition cmos_read :: "cmos_regs \<Rightarrow> nat \<Rightarrow> u32" where
  "cmos_read cmos reg = ucast (cmos reg)"

definition fill_rtcdate :: "cmos_regs \<Rightarrow> rtcdate" where
  "fill_rtcdate cmos =
     \<lparr>rt_second = cmos_read cmos 0, rt_minute = cmos_read cmos 2, rt_hour = cmos_read cmos 4,
      rt_day = cmos_read cmos 7, rt_month = cmos_read cmos 8, rt_year = cmos_read cmos 9\<rparr>"

fun cmos_stable :: "(cmos_regs \<times> cmos_regs \<times> cmos_regs) list \<Rightarrow> rtcdate option" where
  "cmos_stable [] = None"
| "cmos_stable ((c1, ca, c2) # cmoss) =
     (let t1 = fill_rtcdate c1 in
      if cmos_read ca 0x0a AND 0x80 \<noteq> 0 then cmos_stable cmoss
      else if t1 = fill_rtcdate c2 then Some t1 else cmos_stable cmoss)"

definition bcd_conv :: "u32 \<Rightarrow> u32" where
  "bcd_conv x = drop_bit 4 x * 10 + (x AND 0xf)"

definition rtc_convert :: "bool \<Rightarrow> rtcdate \<Rightarrow> rtcdate" where
  "rtc_convert bcd t =
     (let t1 = (if bcd then
         \<lparr>rt_second = bcd_conv (rt_second t), rt_minute = bcd_conv (rt_minute t),
          rt_hour = bcd_conv (rt_hour t), rt_day = bcd_conv (rt_day t),
          rt_month = bcd_conv (rt_month t), rt_year = bcd_conv (rt_year t)\<rparr> else t)
      in t1\<lparr>rt_year := rt_year t1 + 2000\<rparr>)"

definition cmostime :: "cmos_regs \<Rightarrow> (cmos_regs \<times> cmos_regs \<times> cmos_regs) list \<Rightarrow> rtcdate option" where
  "cmostime c0 cmoss =
     map_option (rtc_convert (cmos_read c0 0x0b AND 4 = 0)) (cmos_stable cmoss)"

end
