(* ===== verification/Vm.thy ===== *)
theory Vm
  imports Procdef
begin

unbundle bit_operations_syntax

text \<open>
  Virtual memory, \<open>src/vm.c\<close>: segment and task state set-up, two-level page tables in kernel
  memory, and the routines that grow, shrink, copy and free an address space.  A page table is
  just memory: a \<open>pde_t *\<close> is a kernel address, and entries are loaded and stored there.
  \<open>translate\<close> is the walk the processor does, against which the routines are proved.
\<close>

section \<open>State\<close>

record vm_state = cons_state +
  kpgdir :: u32
  kdata :: u32

section \<open>Segments and the page table register\<close>

definition SEG_KDATA_SEL :: u16 where
  "SEG_KDATA_SEL = push_bit 3 2"

text \<open>\<open>STA_X | STA_R\<close> is \<open>0xA\<close>, \<open>STA_W\<close> is \<open>0x2\<close>, \<open>STS_T32A\<close> is \<open>0x9\<close>, \<open>DPL_USER\<close> is 3.\<close>

definition seginit :: "('x mach_scheme, unit) kernel" where
  "seginit =
     kbind cpuid (\<lambda>i. kseq
      [kmodify (upd_cpu i (\<lambda>c. c\<lparr>gdt := (gdt c)[1 := SEG 0xA 0 0xffffffff 0]\<rparr>)),
       kmodify (upd_cpu i (\<lambda>c. c\<lparr>gdt := (gdt c)[2 := SEG 0x2 0 0xffffffff 0]\<rparr>)),
       kmodify (upd_cpu i (\<lambda>c. c\<lparr>gdt := (gdt c)[3 := SEG 0xA 0 0xffffffff 3]\<rparr>)),
       kmodify (upd_cpu i (\<lambda>c. c\<lparr>gdt := (gdt c)[4 := SEG 0x2 0 0xffffffff 3]\<rparr>)),
       kmodify (upd_hw (\<lambda>h. h\<lparr>gdtr := Some i\<rparr>))])"

definition lcr3 :: "u32 \<Rightarrow> ('x mach_scheme, unit) kernel" where
  "lcr3 v = kmodify (upd_hw (\<lambda>h. h\<lparr>cr3 := v\<rparr>))"

definition ltr :: "u16 \<Rightarrow> ('x mach_scheme, unit) kernel" where
  "ltr sel = kmodify (upd_hw (\<lambda>h. h\<lparr>task_reg := sel\<rparr>))"

definition switchkvm :: "('x vm_state_scheme, unit) kernel" where
  "switchkvm = kbind (kgets kpgdir) (\<lambda>p. lcr3 (V2P p))"

definition switchuvm :: "proc option \<Rightarrow> ('x mach_scheme, unit) kernel" where
  "switchuvm po = (case po of None \<Rightarrow> panic ''switchuvm: no process'' | Some p \<Rightarrow>
     if kstack p = 0 then panic ''switchuvm: no kstack''
     else if pgdir p = 0 then panic ''switchuvm: no pgdir''
     else kseq
      [pushcli,
       kbind mycpu (\<lambda>j. kbind (kgets (\<lambda>s. ts_addr s j)) (\<lambda>a.
         mycpu_upd (\<lambda>c. c\<lparr>gdt := (gdt c)[5 := SEG16 0x9 a (104 - 1) 0]\<rparr>))),
       mycpu_upd (\<lambda>c. c\<lparr>gdt := (gdt c)[5 := (gdt c ! 5)\<lparr>seg_s := 0\<rparr>]\<rparr>),
       mycpu_upd (\<lambda>c. c\<lparr>ts := (ts c)\<lparr>ts_ss0 := SEG_KDATA_SEL\<rparr>\<rparr>),
       mycpu_upd (\<lambda>c. c\<lparr>ts := (ts c)\<lparr>ts_esp0 := kstack p + KSTACKSIZE\<rparr>\<rparr>),
       mycpu_upd (\<lambda>c. c\<lparr>ts := (ts c)\<lparr>ts_iomb := 0xFFFF\<rparr>\<rparr>),
       ltr (push_bit 3 5),
       lcr3 (V2P (pgdir p)),
       popcli])"

section \<open>Page tables\<close>

definition walkpgdir :: "u32 \<Rightarrow> u32 \<Rightarrow> bool \<Rightarrow> ('x kmem_state_scheme, u32) kernel" where
  "walkpgdir pgd va alloc =
     (let pde = pgd + 4 * PDX va in
      kbind (kload pde) (\<lambda>e.
      if e AND PTE_P \<noteq> 0 then kret (P2V (PTE_ADDR e) + 4 * PTX va)
      else if \<not> alloc then kret 0
      else kbind kalloc (\<lambda>pgtab.
        if pgtab = 0 then kret 0
        else kbind (kmemset pgtab 0 PGSIZE) (\<lambda>_.
        kbind (kstore pde (V2P pgtab OR PTE_P OR PTE_W OR PTE_U)) (\<lambda>_.
        kret (pgtab + 4 * PTX va))))))"

text \<open>
  \<open>mappages\<close> runs from the page of \<open>va\<close> to the page of the lst byte, wrapping at the end of the
  address space; \<open>n\<close> counts the pages after the current one.
\<close>

fun mappages_loop :: "u32 \<Rightarrow> u32 \<Rightarrow> nat \<Rightarrow> u32 \<Rightarrow> u32 \<Rightarrow> ('x kmem_state_scheme, int) kernel" where
  "mappages_loop pgd a n pa perm =
     kbind (walkpgdir pgd a True) (\<lambda>pte.
     if pte = 0 then kret (-1)
     else kbind (kload pte) (\<lambda>e.
     if e AND PTE_P \<noteq> 0 then panic ''remap''
     else kbind (kstore pte (pa OR perm OR PTE_P)) (\<lambda>_.
     case n of 0 \<Rightarrow> kret 0 | Suc k \<Rightarrow> mappages_loop pgd (a + PGSIZE) k (pa + PGSIZE) perm)))"

declare mappages_loop.simps [simp del]

definition mappages :: "u32 \<Rightarrow> u32 \<Rightarrow> u32 \<Rightarrow> u32 \<Rightarrow> u32 \<Rightarrow> ('x kmem_state_scheme, int) kernel" where
  "mappages pgd va len pa perm =
     (let a = PGROUNDDOWN va; lst = PGROUNDDOWN (va + len - 1) in
      mappages_loop pgd a (unat ((lst - a) div PGSIZE)) pa perm)"

text \<open>The loop of \<open>deallocuvm\<close>; a missing page table skips to the next page directory entry.\<close>

function deallocuvm_loop :: "u32 \<Rightarrow> u32 \<Rightarrow> u32 \<Rightarrow> ('x kmem_state_scheme, unit) kernel" where
  "deallocuvm_loop pgd a oldsz =
     (if a < oldsz then
        kbind (walkpgdir pgd a False) (\<lambda>pte.
        if pte = 0 then
          let a' = PGADDR (PDX a + 1) 0 0 - PGSIZE in
          if a < a' + PGSIZE then deallocuvm_loop pgd (a' + PGSIZE) oldsz else kstop Spin
        else kbind (kload pte) (\<lambda>e.
          kbind (if e AND PTE_P \<noteq> 0 then
              let pa = PTE_ADDR e in
              if pa = 0 then panic ''kfree'' else kseq [kfree (P2V pa), kstore pte 0]
            else kret ()) (\<lambda>_.
          if a < a + PGSIZE then deallocuvm_loop pgd (a + PGSIZE) oldsz else kstop Spin)))
      else kret ())"
  by auto
termination
  by (relation "measure (\<lambda>(_, a, _). 2 ^ 32 - unat a)")
    (auto simp: word_less_nat_alt intro: diff_less_mono2)

declare deallocuvm_loop.simps [simp del]

definition deallocuvm :: "u32 \<Rightarrow> u32 \<Rightarrow> u32 \<Rightarrow> ('x kmem_state_scheme, u32) kernel" where
  "deallocuvm pgd oldsz newsz =
     (if newsz \<ge> oldsz then kret oldsz
      else kbind (deallocuvm_loop pgd (PGROUNDUP newsz) oldsz) (\<lambda>_. kret newsz))"

definition freevm_entry :: "u32 \<Rightarrow> nat \<Rightarrow> ('x kmem_state_scheme, unit) kernel" where
  "freevm_entry pgd i =
     kbind (kload (pgd + 4 * of_nat i)) (\<lambda>e.
     kwhen (e AND PTE_P \<noteq> 0) (kfree (P2V (PTE_ADDR e))))"

definition freevm :: "u32 \<Rightarrow> ('x kmem_state_scheme, unit) kernel" where
  "freevm pgd =
     (if pgd = 0 then panic ''freevm: no pgdir''
      else kbind (deallocuvm pgd KERNBASE 0) (\<lambda>_.
      kbind (kseq (map (freevm_entry pgd) [0..<1024])) (\<lambda>_. kfree pgd)))"

text \<open>\<open>kmap\<close>: virtual start, physical start and end, permissions.\<close>

definition kmap :: "u32 \<Rightarrow> (u32 \<times> u32 \<times> u32 \<times> u32) list" where
  "kmap data =
     [(KERNBASE, 0, EXTMEM, PTE_W),
      (KERNBASE + EXTMEM, V2P (KERNBASE + EXTMEM), V2P data, 0),
      (data, V2P data, PHYSTOP, PTE_W),
      (DEVSPACE, DEVSPACE, 0, PTE_W)]"

fun setupkvm_loop :: "u32 \<Rightarrow> (u32 \<times> u32 \<times> u32 \<times> u32) list \<Rightarrow> ('x kmem_state_scheme, u32) kernel" where
  "setupkvm_loop pgd [] = kret pgd"
| "setupkvm_loop pgd ((virt, phys_start, phys_end, perm) # ks) =
     kbind (mappages pgd virt (phys_end - phys_start) phys_start perm) (\<lambda>r.
     if r < 0 then kbind (freevm pgd) (\<lambda>_. kret 0) else setupkvm_loop pgd ks)"

definition setupkvm :: "('x vm_state_scheme, u32) kernel" where
  "setupkvm =
     kbind kalloc (\<lambda>pgd.
     if pgd = 0 then kret 0
     else kbind (kmemset pgd 0 PGSIZE) (\<lambda>_.
     if P2V PHYSTOP > DEVSPACE then panic ''PHYSTOP too high''
     else kbind (kgets kdata) (\<lambda>data. setupkvm_loop pgd (kmap data))))"

definition kvmalloc :: "('x vm_state_scheme, unit) kernel" where
  "kvmalloc = kbind setupkvm (\<lambda>p. kseq [kmodify (\<lambda>s. s\<lparr>kpgdir := p\<rparr>), switchkvm])"

definition inituvm :: "u32 \<Rightarrow> u32 \<Rightarrow> u32 \<Rightarrow> ('x kmem_state_scheme, unit) kernel" where
  "inituvm pgd init len =
     (if len \<ge> PGSIZE then panic ''inituvm: more than a page''
      else kbind kalloc (\<lambda>m. kbind (kmemset m 0 PGSIZE) (\<lambda>_.
      kbind (mappages pgd 0 PGSIZE (V2P m) (PTE_W OR PTE_U)) (\<lambda>_. kmemmove m init len))))"

text \<open>\<open>loaduvm\<close>, over the file reader \<open>rd dst off n\<close> of \<open>src/fs.c\<close> for the inode being loaded.\<close>

function loaduvm_loop ::
  "(u32 \<Rightarrow> u32 \<Rightarrow> u32 \<Rightarrow> ('x kmem_state_scheme, u32) kernel) \<Rightarrow> u32 \<Rightarrow> u32 \<Rightarrow> u32 \<Rightarrow> u32 \<Rightarrow> u32 \<Rightarrow>
    ('x kmem_state_scheme, int) kernel" where
  "loaduvm_loop rd pgd addr i offset len =
     (if i < len then
        kbind (walkpgdir pgd (addr + i) False) (\<lambda>pte.
        if pte = 0 then panic ''loaduvm: address should exist''
        else kbind (kload pte) (\<lambda>e.
        let pa = PTE_ADDR e; n = (if len - i < PGSIZE then len - i else PGSIZE) in
        kbind (rd (P2V pa) (offset + i) n) (\<lambda>r.
        if r \<noteq> n then kret (-1)
        else if i < i + PGSIZE then loaduvm_loop rd pgd addr (i + PGSIZE) offset len
        else kstop Spin)))
      else kret 0)"
  by auto
termination
  by (relation "measure (\<lambda>(_, _, _, i, _, _). 2 ^ 32 - unat i)")
    (auto simp: word_less_nat_alt intro: diff_less_mono2)

declare loaduvm_loop.simps [simp del]

definition loaduvm ::
  "(u32 \<Rightarrow> u32 \<Rightarrow> u32 \<Rightarrow> ('x kmem_state_scheme, u32) kernel) \<Rightarrow> u32 \<Rightarrow> u32 \<Rightarrow> u32 \<Rightarrow> u32 \<Rightarrow>
    ('x kmem_state_scheme, int) kernel" where
  "loaduvm rd pgd addr offset len =
     (if addr mod PGSIZE \<noteq> 0 then panic ''loaduvm: addr must be page aligned''
      else loaduvm_loop rd pgd addr 0 offset len)"

function allocuvm_loop :: "u32 \<Rightarrow> u32 \<Rightarrow> u32 \<Rightarrow> u32 \<Rightarrow> ('x cons_state_scheme, u32) kernel" where
  "allocuvm_loop pgd a oldsz newsz =
     (if a < newsz then
        kbind kalloc (\<lambda>m.
        if m = 0 then
          kbind (cprintf ''allocuvm out of memory\<newline>'' []) (\<lambda>_.
          kbind (deallocuvm pgd newsz oldsz) (\<lambda>_. kret 0))
        else kbind (kmemset m 0 PGSIZE) (\<lambda>_.
        kbind (mappages pgd a PGSIZE (V2P m) (PTE_W OR PTE_U)) (\<lambda>r.
        if r < 0 then
          kbind (cprintf ''allocuvm out of memory (2)\<newline>'' []) (\<lambda>_.
          kbind (deallocuvm pgd newsz oldsz) (\<lambda>_.
          kbind (kfree m) (\<lambda>_. kret 0)))
        else if a < a + PGSIZE then allocuvm_loop pgd (a + PGSIZE) oldsz newsz
        else kstop Spin)))
      else kret newsz)"
  by auto
termination
  by (relation "measure (\<lambda>(_, a, _, _). 2 ^ 32 - unat a)")
    (auto simp: word_less_nat_alt intro: diff_less_mono2)

declare allocuvm_loop.simps [simp del]

definition allocuvm :: "u32 \<Rightarrow> u32 \<Rightarrow> u32 \<Rightarrow> ('x cons_state_scheme, u32) kernel" where
  "allocuvm pgd oldsz newsz =
     (if newsz \<ge> KERNBASE then kret 0
      else if newsz < oldsz then kret oldsz
      else allocuvm_loop pgd (PGROUNDUP oldsz) oldsz newsz)"

definition clearpteu :: "u32 \<Rightarrow> u32 \<Rightarrow> ('x kmem_state_scheme, unit) kernel" where
  "clearpteu pgd uva =
     kbind (walkpgdir pgd uva False) (\<lambda>pte.
     if pte = 0 then panic ''clearpteu''
     else kbind (kload pte) (\<lambda>e. kstore pte (e AND NOT PTE_U)))"

function copyuvm_loop :: "u32 \<Rightarrow> u32 \<Rightarrow> u32 \<Rightarrow> u32 \<Rightarrow> ('x kmem_state_scheme, u32) kernel" where
  "copyuvm_loop d pgd i len =
     (if i < len then
        kbind (walkpgdir pgd i False) (\<lambda>pte.
        if pte = 0 then panic ''copyuvm: pte should exist''
        else kbind (kload pte) (\<lambda>e.
        if e AND PTE_P = 0 then panic ''copyuvm: page not present''
        else let pa = PTE_ADDR e; flags = PTE_FLAGS e in
        kbind kalloc (\<lambda>m.
        if m = 0 then kbind (freevm d) (\<lambda>_. kret 0)
        else kbind (kmemmove m (P2V pa) PGSIZE) (\<lambda>_.
        kbind (mappages d i PGSIZE (V2P m) flags) (\<lambda>r.
        if r < 0 then kbind (kfree m) (\<lambda>_. kbind (freevm d) (\<lambda>_. kret 0))
        else if i < i + PGSIZE then copyuvm_loop d pgd (i + PGSIZE) len
        else kstop Spin)))))
      else kret d)"
  by auto
termination
  by (relation "measure (\<lambda>(_, _, i, _). 2 ^ 32 - unat i)")
    (auto simp: word_less_nat_alt intro: diff_less_mono2)

declare copyuvm_loop.simps [simp del]

definition copyuvm :: "u32 \<Rightarrow> u32 \<Rightarrow> ('x vm_state_scheme, u32) kernel" where
  "copyuvm pgd len =
     kbind setupkvm (\<lambda>d. if d = 0 then kret 0 else copyuvm_loop d pgd 0 len)"

text \<open>\<open>uva2ka\<close> loads through the entry without testing it for null.\<close>

definition uva2ka :: "u32 \<Rightarrow> u32 \<Rightarrow> ('x kmem_state_scheme, u32) kernel" where
  "uva2ka pgd uva =
     kbind (walkpgdir pgd uva False) (\<lambda>pte.
     if pte = 0 then kstop Fault
     else kbind (kload pte) (\<lambda>e.
     if e AND PTE_P = 0 then kret 0
     else if e AND PTE_U = 0 then kret 0
     else kret (P2V (PTE_ADDR e))))"

fun write_bytes :: "memory \<Rightarrow> u32 \<Rightarrow> u8 list \<Rightarrow> memory" where
  "write_bytes m a [] = m"
| "write_bytes m a (b # bs) = write_bytes (m(a := b)) (a + 1) bs"

definition kwrite :: "u32 \<Rightarrow> u8 list \<Rightarrow> ('x kmem_state_scheme, unit) kernel" where
  "kwrite a bs = kmodify (\<lambda>s. s\<lparr>mem := write_bytes (mem s) a bs\<rparr>)"

text \<open>The buffer copied from is read by \<open>get\<close>, which fetches so many bytes and advances it.\<close>

function copyout ::
  "(nat \<Rightarrow> 'd \<Rightarrow> ('x kmem_state_scheme, u8 list \<times> 'd) kernel) \<Rightarrow> u32 \<Rightarrow> u32 \<Rightarrow> 'd \<Rightarrow> u32 \<Rightarrow>
    ('x kmem_state_scheme, int) kernel" where
  "copyout get pgd va buf len =
     (if 0 < len then
        let va0 = PGROUNDDOWN va in
        kbind (uva2ka pgd va0) (\<lambda>pa0.
        if pa0 = 0 then kret (-1)
        else let n = (if PGSIZE - (va - va0) > len then len else PGSIZE - (va - va0)) in
        kbind (get (unat n) buf) (\<lambda>(bs, buf').
        kbind (kwrite (pa0 + (va - va0)) bs) (\<lambda>_.
        if 0 < n then copyout get pgd (va0 + PGSIZE) buf' (len - n) else kstop Spin)))
      else kret 0)"
  by auto
termination
proof (relation "measure (\<lambda>(_, _, _, _, len). unat len)", simp, goal_cases)
  case (1 get pgd va buf len va0 pa0 n)
  then show ?case
    by (auto simp: word_less_nat_alt unat_sub_if' split: if_splits)
qed

declare copyout.simps [simp del]


section \<open>Tables in memory\<close>

text \<open>Entry \<open>i\<close> of the table in page \<open>p\<close>.\<close>

abbreviation (input) slot :: "u32 \<Rightarrow> u32 \<Rightarrow> u32" where "slot p i \<equiv> p + 4 * i"

lemma PDX_PTX_less [simp]: "PDX va < 1024" "PTX va < 1024"
proof -
  have "(x AND 0x3FF :: u32) < 1024" for x
    unfolding mask_1023 using and_mask_less_size[of 10 x] by (simp add: word_size)
  then show "PDX va < 1024" "PTX va < 1024"
    by (simp_all add: PDX_def PTX_def)
qed

lemma slot_offset:
  assumes "i < (1024 :: u32)" and "k < 4"
  shows "unat (4 * i + k) = 4 * unat i + unat k" and "4 * i + k < PGSIZE"
proof -
  have ik: "unat i < 1024" "unat k < 4"
    using assms by (simp_all add: word_less_nat_alt)
  then have "unat (4 * i) = 4 * unat i"
    by (simp add: unat_mult_lem[THEN iffD1])
  with ik show eq: "unat (4 * i + k) = 4 * unat i + unat k"
    by (simp add: unat_add_lem[THEN iffD1])
  then show "4 * i + k < PGSIZE"
    using ik by (simp add: word_less_nat_alt)
qed

lemma slot_page:
  assumes "p mod PGSIZE = 0" and "i < 1024" and "k < 4"
  shows "PGROUNDDOWN (slot p i + k) = p"
  using page_bytes[OF assms(1) slot_offset(2)[OF assms(2,3)]] by (simp add: add.assoc)

lemma slot_apart:
  assumes "p mod PGSIZE = 0" "i < 1024" "k < 4" and "r mod PGSIZE = 0" "j < 1024" "l < 4"
    and "slot p i + k = slot r j + l"
  shows "p = r" and "i = j"
proof -
  show "p = r"
    using slot_page[OF assms(1-3)] slot_page[OF assms(4-6)] assms(7) by simp
  with assms(7) have "4 * i + k = 4 * j + l"
    by (simp add: add.assoc)
  then have "4 * unat i + unat k = 4 * unat j + unat l"
    using slot_offset(1)[OF assms(2,3)] slot_offset(1)[OF assms(5,6)] by simp
  moreover have "unat k < 4" "unat l < 4"
    using assms by (simp_all add: word_less_nat_alt)
  ultimately have "unat i = unat j"
    by linarith
  then show "i = j"
    by (rule unsigned_word_eqI)
qed

lemma rd32_slot_frame:
  assumes "p mod PGSIZE = 0" "i < 1024" and "\<And>x. PGROUNDDOWN x = p \<Longrightarrow> m' x = m x"
  shows "rd32 m' (slot p i) = rd32 m (slot p i)"
  using assms(3) slot_page[OF assms(1,2), of 0] slot_page[OF assms(1,2), of 1]
    slot_page[OF assms(1,2), of 2] slot_page[OF assms(1,2), of 3]
  by (intro rd32_cong) simp_all

lemma rd32_wr32_slot:
  assumes "p mod PGSIZE = 0" "i < 1024" "r mod PGSIZE = 0" "j < 1024"
  shows "rd32 (wr32 m (slot p i) v) (slot r j) = (if p = r \<and> i = j then v else rd32 m (slot r j))"
proof (cases "p = r \<and> i = j")
  case True
  then show ?thesis by (simp add: rd32_wr32_same)
next
  case False
  have other: "wr32 m (slot p i) v (slot r j + l) = m (slot r j + l)" if "l < 4" for l
    using slot_apart[OF assms(3,4) that assms(1,2), of 0] slot_apart[OF assms(3,4) that assms(1,2), of 1]
      slot_apart[OF assms(3,4) that assms(1,2), of 2] slot_apart[OF assms(3,4) that assms(1,2), of 3] False
    by (intro wr32_other) auto
  have "rd32 (wr32 m (slot p i) v) (slot r j) = rd32 m (slot r j)"
    using other[of 0] other[of 1] other[of 2] other[of 3] by (intro rd32_cong) simp_all
  with False show ?thesis by auto
qed

lemma wr32_slot_frame:
  assumes "p mod PGSIZE = 0" "i < 1024" and "PGROUNDDOWN x \<noteq> p"
  shows "wr32 m (slot p i) v x = m x"
  using assms(3) slot_page[OF assms(1,2), of 0] slot_page[OF assms(1,2), of 1]
    slot_page[OF assms(1,2), of 2] slot_page[OF assms(1,2), of 3]
  by (intro wr32_other) auto

lemma rd32_zero_page:
  assumes "p mod PGSIZE = 0" "i < 1024"
  shows "rd32 (memset m p 0 PGSIZE) (slot p i) = 0"
proof -
  have "rd32 (memset m p 0 PGSIZE) (slot p i) = rd32 (\<lambda>_. 0) (slot p i)"
    by (rule rd32_slot_frame[OF assms]) (simp add: memset_run in_page[OF assms(1)])
  then show ?thesis by (simp add: rd32_def)
qed

section \<open>The address space a page directory describes\<close>

text \<open>
  \<open>ptab m pgd i\<close> is the page table entry \<open>i\<close> of the directory points to, and \<open>entry m pgd va\<close> the
  page table entry for \<open>va\<close>, zero when there is no table.  \<open>translate\<close> is the processor's walk: the
  physical address and the permission bits, or a page fault.
\<close>

definition pde_present :: "memory \<Rightarrow> u32 \<Rightarrow> u32 \<Rightarrow> bool" where
  "pde_present m pgd i \<longleftrightarrow> rd32 m (slot pgd i) AND PTE_P \<noteq> 0"

definition ptab :: "memory \<Rightarrow> u32 \<Rightarrow> u32 \<Rightarrow> u32" where
  "ptab m pgd i = P2V (PTE_ADDR (rd32 m (slot pgd i)))"

definition entry :: "memory \<Rightarrow> u32 \<Rightarrow> u32 \<Rightarrow> u32" where
  "entry m pgd va =
     (if pde_present m pgd (PDX va) then rd32 m (slot (ptab m pgd (PDX va)) (PTX va)) else 0)"

definition translate :: "memory \<Rightarrow> u32 \<Rightarrow> u32 \<Rightarrow> (u32 \<times> u32) option" where
  "translate m pgd va =
     (let e = entry m pgd va in
      if e AND PTE_P = 0 then None else Some (PTE_ADDR e OR (va AND 0xFFF), PTE_FLAGS e))"

text \<open>The pages a directory owns, and the invariant that it owns them alone.\<close>

definition pt_pages :: "memory \<Rightarrow> u32 \<Rightarrow> u32 set" where
  "pt_pages m pgd = insert pgd {ptab m pgd i | i. i < 1024 \<and> pde_present m pgd i}"

definition pt_ok :: "u32 \<Rightarrow> memory \<Rightarrow> u32 \<Rightarrow> u32 set \<Rightarrow> bool" where
  "pt_ok e m pgd free \<longleftrightarrow> valid_page e pgd \<and> pgd \<notin> free \<and>
     (\<forall>i<1024. pde_present m pgd i \<longrightarrow>
        valid_page e (ptab m pgd i) \<and> ptab m pgd i \<notin> free \<and> ptab m pgd i \<noteq> pgd \<and>
        (\<forall>j<1024. pde_present m pgd j \<and> ptab m pgd j = ptab m pgd i \<longrightarrow> j = i))"

lemma pt_ok_dir:
  "pt_ok e m pgd F \<Longrightarrow> valid_page e pgd" "pt_ok e m pgd F \<Longrightarrow> pgd \<notin> F"
  "pt_ok e m pgd F \<Longrightarrow> pgd mod PGSIZE = 0"
  by (simp_all add: pt_ok_def valid_page_def)

lemma pt_ok_tab:
  assumes "pt_ok e m pgd F" and "i < 1024" and "pde_present m pgd i"
  shows "valid_page e (ptab m pgd i)" and "ptab m pgd i \<notin> F" and "ptab m pgd i \<noteq> pgd"
    and "ptab m pgd i mod PGSIZE = 0"
    and "\<And>j. j < 1024 \<Longrightarrow> pde_present m pgd j \<Longrightarrow> ptab m pgd j = ptab m pgd i \<Longrightarrow> j = i"
  using assms unfolding pt_ok_def valid_page_def by blast+

lemma pt_pages_memb:
  "pgd \<in> pt_pages m pgd" "i < 1024 \<Longrightarrow> pde_present m pgd i \<Longrightarrow> ptab m pgd i \<in> pt_pages m pgd"
  by (auto simp: pt_pages_def)

lemma pt_pages_valid: "pt_ok e m pgd F \<Longrightarrow> p \<in> pt_pages m pgd \<Longrightarrow> valid_page e p \<and> p \<notin> F"
  by (auto simp: pt_pages_def pt_ok_def)

lemma dir_frame:
  assumes "pgd mod PGSIZE = 0" and "\<And>x. PGROUNDDOWN x = pgd \<Longrightarrow> m' x = m x" and "i < 1024"
  shows "pde_present m' pgd i = pde_present m pgd i" and "ptab m' pgd i = ptab m pgd i"
  using rd32_slot_frame[of pgd i m' m] assms by (simp_all add: pde_present_def ptab_def)

lemma dir_cong:
  assumes "\<And>i. i < 1024 \<Longrightarrow> pde_present m' pgd i = pde_present m pgd i"
    and "\<And>i. i < 1024 \<Longrightarrow> ptab m' pgd i = ptab m pgd i"
  shows "pt_ok e m' pgd F = pt_ok e m pgd F" and "pt_pages m' pgd = pt_pages m pgd"
proof -
  have "{ptab m' pgd i | i. i < 1024 \<and> pde_present m' pgd i} =
      {ptab m pgd i | i. i < 1024 \<and> pde_present m pgd i}"
    using assms by metis
  then show "pt_pages m' pgd = pt_pages m pgd"
    by (simp add: pt_pages_def)
qed (use assms in \<open>simp add: pt_ok_def\<close>)

text \<open>What happens outside a directory's own pages does not concern it.\<close>

lemma pt_frame:
  assumes "pt_ok e m pgd F" and same: "\<And>x. PGROUNDDOWN x \<in> pt_pages m pgd \<Longrightarrow> m' x = m x"
  shows "pt_ok e m' pgd F" and "entry m' pgd = entry m pgd" and "pt_pages m' pgd = pt_pages m pgd"
proof -
  have "m' x = m x" if "PGROUNDDOWN x = pgd" for x
    using that same by (simp add: pt_pages_def)
  note d = dir_frame[of pgd m' m, OF pt_ok_dir(3)[OF assms(1)] this]
  show "pt_ok e m' pgd F" "pt_pages m' pgd = pt_pages m pgd"
    using assms(1) dir_cong[of m' pgd m, OF d] by simp_all
  show "entry m' pgd = entry m pgd"
  proof
    fix va
    have "rd32 m' (slot (ptab m pgd (PDX va)) (PTX va)) = rd32 m (slot (ptab m pgd (PDX va)) (PTX va))"
      if "pde_present m pgd (PDX va)"
      using that same pt_ok_tab(4)[OF assms(1)] pt_pages_memb(2)[of "PDX va" m pgd]
      by (intro rd32_slot_frame) simp_all
    then show "entry m' pgd va = entry m pgd va"
      using d by (simp add: entry_def)
  qed
qed

lemma pt_ok_mono: "pt_ok e m pgd F \<Longrightarrow> G \<subseteq> F \<Longrightarrow> pt_ok e m pgd G"
  unfolding pt_ok_def by blast

text \<open>Writing one entry of a present table changes the mapping of one page.\<close>

lemma PDX_PTX_page: "PDX v = PDX va \<and> PTX v = PTX va \<longleftrightarrow> PGROUNDDOWN v = PGROUNDDOWN va"
proof
  have shift: "PDX x = drop_bit 10 (drop_bit 12 x) AND mask 10" "PTX x = drop_bit 12 x AND mask 10"
    for x :: u32
    by (simp_all add: PDX_def PTX_def mask_1023)
  assume "PGROUNDDOWN v = PGROUNDDOWN va"
  then have "drop_bit 12 (push_bit 12 (drop_bit 12 v)) = drop_bit 12 (push_bit 12 (drop_bit 12 va))"
    by (simp add: PGROUNDDOWN_shift)
  moreover have "drop_bit 12 (push_bit 12 (drop_bit 12 x)) = drop_bit 12 x" for x :: u32
    by (rule bit_word_eqI) (auto simp: bit_simps dest: bit_imp_le_length)
  ultimately have "drop_bit 12 v = drop_bit 12 va"
    by simp
  then show "PDX v = PDX va \<and> PTX v = PTX va"
    by (simp add: shift)
next
  have "PGROUNDDOWN x = PGADDR (PDX x) (PTX x) 0" for x
  proof (rule bit_word_eqI)
    fix n :: nat
    assume "n < LENGTH(32)"
    then show "bit (PGROUNDDOWN x) n = bit (PGADDR (PDX x) (PTX x) 0) n"
      by (cases "n < 12"; cases "n < 22")
        (auto simp: PGROUNDDOWN_shift PGADDR_def PDX_def PTX_def mask_1023 bit_simps)
  qed
  then show "PDX v = PDX va \<and> PTX v = PTX va \<Longrightarrow> PGROUNDDOWN v = PGROUNDDOWN va"
    by simp
qed

lemma entry_store:
  fixes v :: u32
  assumes ok: "pt_ok e m pgd F" and "pde_present m pgd (PDX va)"
  defines "m' \<equiv> wr32 m (slot (ptab m pgd (PDX va)) (PTX va)) v"
  shows "pt_ok e m' pgd F" and "pt_pages m' pgd = pt_pages m pgd"
    and "entry m' pgd = (\<lambda>x. if PGROUNDDOWN x = PGROUNDDOWN va then v else entry m pgd x)"
    and "PGROUNDDOWN x \<notin> pt_pages m pgd \<Longrightarrow> m' x = m x"
proof -
  note t = pt_ok_tab[OF ok PDX_PTX_less(1) assms(2)]
  have "m' x = m x" if "PGROUNDDOWN x = pgd" for x
    using that t(3) wr32_slot_frame[OF t(4) PDX_PTX_less(2)] unfolding m'_def by metis
  note d = dir_frame[of pgd m' m, OF pt_ok_dir(3)[OF ok] this]
  show "pt_ok e m' pgd F" "pt_pages m' pgd = pt_pages m pgd"
    using ok dir_cong[of m' pgd m, OF d] by simp_all
  show "entry m' pgd = (\<lambda>x. if PGROUNDDOWN x = PGROUNDDOWN va then v else entry m pgd x)"
  proof
    fix x
    show "entry m' pgd x = (if PGROUNDDOWN x = PGROUNDDOWN va then v else entry m pgd x)"
    proof (cases "pde_present m pgd (PDX x)")
      case True
      have "ptab m pgd (PDX va) = ptab m pgd (PDX x) \<and> PTX va = PTX x \<longleftrightarrow>
          PGROUNDDOWN x = PGROUNDDOWN va"
        using t(5)[OF PDX_PTX_less(1) True] PDX_PTX_page[of x va] by auto
      then show ?thesis
        using True d pt_ok_tab(4)[OF ok PDX_PTX_less(1) True] t(4)
        by (simp add: entry_def m'_def rd32_wr32_slot)
    next
      case False
      then have "PGROUNDDOWN x \<noteq> PGROUNDDOWN va"
        using assms(2) PDX_PTX_page[of x va] by auto
      then show ?thesis
        using False d by (simp add: entry_def)
    qed
  qed
  show "PGROUNDDOWN x \<notin> pt_pages m pgd \<Longrightarrow> m' x = m x"
    using pt_pages_memb(2)[OF PDX_PTX_less(1) assms(2)] wr32_slot_frame[OF t(4) PDX_PTX_less(2)]
    unfolding m'_def by metis
qed

section \<open>Growing a page table\<close>

lemma page_low_bits: "p mod PGSIZE = 0 \<longleftrightarrow> p AND 0xFFF = 0"
  using word_mod_2p_is_mask[of 12 p] by (simp add: mask_4095)

lemma page_shift: "p mod PGSIZE = 0 \<longleftrightarrow> (\<exists>k. p = push_bit 12 k)"
proof
  assume "p mod PGSIZE = 0"
  then have "p = push_bit 12 (drop_bit 12 p)"
    unfolding page_low_bits by (auto simp: mask_4095 bit_eq_iff bit_simps)
  then show "\<exists>k. p = push_bit 12 k" ..
next
  assume "\<exists>k. p = push_bit 12 k"
  then have "p AND 0xFFF = 0"
    by (auto simp: mask_4095 bit_eq_iff bit_simps)
  then show "p mod PGSIZE = 0"
    by (simp add: page_low_bits)
qed

lemma page_arith:
  assumes "p mod PGSIZE = 0" and "r mod PGSIZE = 0"
  shows "(p - r) mod PGSIZE = 0" and "(p + r) mod PGSIZE = 0"
proof -
  obtain j k where "p = push_bit 12 j" "r = push_bit 12 k"
    using assms by (auto simp: page_shift)
  then have "p - r = push_bit 12 (j - k)" "p + r = push_bit 12 (j + k)"
    by (simp_all add: push_bit_eq_mult algebra_simps)
  then show "(p - r) mod PGSIZE = 0" "(p + r) mod PGSIZE = 0"
    unfolding page_shift by blast+
qed

lemma V2P_page: "p mod PGSIZE = 0 \<Longrightarrow> V2P p mod PGSIZE = 0"
  using page_arith(1)[of p KERNBASE] by (simp add: V2P_def)

lemma PTE_ADDR_FLAGS_OR:
  assumes "pa mod PGSIZE = 0" and "f AND NOT 0xFFF = 0"
  shows "PTE_ADDR (pa OR f) = pa" and "PTE_FLAGS (pa OR f) = f"
  using assms unfolding page_low_bits PTE_ADDR_def PTE_FLAGS_def
  by (auto simp: bit_eq_iff bit_simps)

text \<open>A zeroed page hung into the directory: one page table more, the same address space.\<close>

lemma entry_new_table:
  assumes ok: "pt_ok e m pgd F" and p: "p \<in> F" "valid_page e p" and "i < 1024"
    and absent: "\<not> pde_present m pgd i"
  defines "m' \<equiv> wr32 (memset m p 0 PGSIZE) (slot pgd i) (V2P p OR PTE_P OR PTE_W OR PTE_U)"
  shows "pt_ok e m' pgd (F - {p})" and "entry m' pgd = entry m pgd"
    and "pt_pages m' pgd = insert p (pt_pages m pgd)"
    and "pde_present m' pgd i" and "ptab m' pgd i = p"
    and "PGROUNDDOWN x \<noteq> p \<Longrightarrow> PGROUNDDOWN x \<noteq> pgd \<Longrightarrow> m' x = m x"
proof -
  let ?v = "V2P p OR PTE_P OR PTE_W OR PTE_U"
  let ?m = "memset m p 0 PGSIZE"
  have pg: "p mod PGSIZE = 0" "pgd mod PGSIZE = 0" "p \<noteq> pgd"
    using p pt_ok_dir[OF ok] by (auto simp: valid_page_def)
  have m: "?m x = m x" if "PGROUNDDOWN x \<noteq> p" for x
    using that by (simp add: memset_run in_page[OF pg(1)])
  have slot: "rd32 m' (slot pgd j) = (if j = i then ?v else rd32 m (slot pgd j))" if "j < 1024" for j
    using rd32_slot_frame[of pgd j ?m m] that assms(4) pg m
    by (auto simp: m'_def rd32_wr32_slot)
  have v: "PTE_ADDR ?v = V2P p" "?v AND PTE_P \<noteq> 0"
    using PTE_ADDR_FLAGS_OR(1)[OF V2P_page[OF pg(1)], of "PTE_P OR PTE_W OR PTE_U"]
    by (simp_all add: or.assoc bit_eq_iff bit_simps) (auto simp: bit_simps intro: exI[of _ 0])
  have present: "pde_present m' pgd j = (j = i \<or> pde_present m pgd j)" if "j < 1024" for j
    using slot[OF that] v by (simp add: pde_present_def)
  have tab: "ptab m' pgd j = (if j = i then p else ptab m pgd j)" if "j < 1024" for j
    using slot[OF that] v by (simp add: ptab_def)
  have fresh: "ptab m pgd j \<noteq> p" if "j < 1024" "pde_present m pgd j" for j
    using pt_ok_tab(2)[OF ok that] p by auto
  show "pde_present m' pgd i" "ptab m' pgd i = p"
    using present[OF assms(4)] tab[OF assms(4)] by simp_all
  show "PGROUNDDOWN x \<noteq> p \<Longrightarrow> PGROUNDDOWN x \<noteq> pgd \<Longrightarrow> m' x = m x"
    using wr32_slot_frame[OF pg(2) assms(4), of x ?m ?v] m[of x] by (simp add: m'_def)
  show "pt_pages m' pgd = insert p (pt_pages m pgd)"
    using present tab assms(4) absent by (auto simp: pt_pages_def) metis+
  show "pt_ok e m' pgd (F - {p})"
    using ok p pg fresh by (auto simp: pt_ok_def present tab split: if_splits)
  show "entry m' pgd = entry m pgd"
  proof
    fix va
    have below: "rd32 m' (slot t (PTX va)) = rd32 ?m (slot t (PTX va))"
      if "t mod PGSIZE = 0" "t \<noteq> pgd" for t
      using that pg assms(4) by (simp add: m'_def rd32_wr32_slot)
    show "entry m' pgd va = entry m pgd va"
    proof (cases "PDX va = i")
      case True
      then show ?thesis
        using below[OF pg(1,3)] rd32_zero_page[OF pg(1), of "PTX va" m] absent present tab assms(4)
        by (simp add: entry_def)
    next
      case False
      then show ?thesis
        using below rd32_slot_frame[of "ptab m pgd (PDX va)" "PTX va" ?m m] present tab fresh m
          pt_ok_tab(3,4)[OF ok PDX_PTX_less(1), of va]
        by (simp add: entry_def)
    qed
  qed
qed

text \<open>
  \<open>vm_inv\<close>: a directory over the allocator's pages.  \<open>vm_step\<close>: from \<open>s\<close> to \<open>t\<close> only the directory's
  pages were written, and they grew by pages taken from the free list.
\<close>

definition kstep :: "u32 \<times> int \<Rightarrow> 'x kmem_state_scheme \<Rightarrow> 'x kmem_state_scheme \<Rightarrow> bool" where
  "kstep q s t \<longleftrightarrow> (\<exists>L\<subseteq>kmem_locks s. same_ctx L s t) \<and> kmem_state.more t = kmem_state.more s \<and>
     kend t = kend s \<and> kmem_use_lock t = kmem_use_lock s"

definition vm_inv :: "u32 \<times> int \<Rightarrow> u32 \<Rightarrow> 'x kmem_state_scheme \<Rightarrow> u32 list \<Rightarrow> bool" where
  "vm_inv q pgd s xs \<longleftrightarrow> kmem_ready q s \<and> free_pages s xs \<and> pt_ok (kend s) (mem s) pgd (set xs)"

definition vm_step ::
  "u32 \<times> int \<Rightarrow> u32 \<Rightarrow> 'x kmem_state_scheme \<Rightarrow> u32 list \<Rightarrow> 'x kmem_state_scheme \<Rightarrow> u32 list \<Rightarrow> bool" where
  "vm_step q pgd s xs t ys \<longleftrightarrow> kstep q s t \<and> vm_inv q pgd t ys \<and>
     pt_pages (mem s) pgd \<subseteq> pt_pages (mem t) pgd \<and>
     set ys \<union> pt_pages (mem t) pgd = set xs \<union> pt_pages (mem s) pgd \<and>
     (\<forall>x. PGROUNDDOWN x \<notin> pt_pages (mem t) pgd \<longrightarrow> mem t x = mem s x)"

lemma kstep_refl [simp]: "kstep q s s"
  by (auto simp: kstep_def intro: exI[of _ "{}"])

lemma kstep_trans: "kstep q s t \<Longrightarrow> kstep q t u \<Longrightarrow> kstep q s u"
proof -
  assume st: "kstep q s t" and tu: "kstep q t u"
  then obtain L M where LM: "L \<subseteq> kmem_locks s" "same_ctx L s t" "M \<subseteq> kmem_locks t" "same_ctx M t u"
    unfolding kstep_def by blast
  then have "L \<union> M \<subseteq> kmem_locks s" "same_ctx (L \<union> M) s u"
    using st same_ctx_trans[OF LM(2,4)] by (auto simp: kstep_def kmem_locks_def split: if_splits)
  with st tu show "kstep q s u"
    unfolding kstep_def by (intro conjI exI[of _ "L \<union> M"]) simp_all
qed

lemma kstep_ready: "kstep q s t \<Longrightarrow> kmem_ready q s \<Longrightarrow> kmem_ready q t"
  by (auto simp: kstep_def intro: kmem_ready_ctx)

lemma kstep_mem [simp]: "kstep q s (s\<lparr>mem := m\<rparr>)"
  by (auto simp: kstep_def same_ctx_def intro!: exI[of _ "{}"])

lemma vm_step_refl: "vm_inv q pgd s xs \<Longrightarrow> vm_step q pgd s xs s xs"
  by (simp add: vm_step_def)

lemma vm_stepD:
  assumes "vm_step q pgd s xs t ys"
  shows "kstep q s t" and "vm_inv q pgd t ys" and "pt_pages (mem s) pgd \<subseteq> pt_pages (mem t) pgd"
    and "set ys \<union> pt_pages (mem t) pgd = set xs \<union> pt_pages (mem s) pgd"
    and "\<And>x. PGROUNDDOWN x \<notin> pt_pages (mem t) pgd \<Longrightarrow> mem t x = mem s x"
  using assms unfolding vm_step_def by blast+

lemma vm_step_trans:
  assumes "vm_step q pgd s xs t ys" and "vm_step q pgd t ys u zs"
  shows "vm_step q pgd s xs u zs"
  unfolding vm_step_def
proof (intro conjI allI impI)
  note st = vm_stepD[OF assms(1)] and tu = vm_stepD[OF assms(2)]
  show "kstep q s u"
    by (rule kstep_trans[OF st(1) tu(1)])
  show "vm_inv q pgd u zs"
    by (rule tu(2))
  show "pt_pages (mem s) pgd \<subseteq> pt_pages (mem u) pgd"
    by (rule subset_trans[OF st(3) tu(3)])
  show "set zs \<union> pt_pages (mem u) pgd = set xs \<union> pt_pages (mem s) pgd"
    by (rule trans[OF tu(4) st(4)])
  fix x assume x: "PGROUNDDOWN x \<notin> pt_pages (mem u) pgd"
  with tu(3) have "PGROUNDDOWN x \<notin> pt_pages (mem t) pgd"
    by (rule contra_subsetD)
  from trans[OF tu(5)[OF x] st(5)[OF this]] show "mem u x = mem s x" .
qed

lemma vm_step_kend: "vm_step q pgd s xs t ys \<Longrightarrow> kend t = kend s"
  by (simp add: vm_step_def kstep_def)

lemma walkpgdir_lookup:
  "walkpgdir pgd va False s =
     Inr (if pde_present (mem s) pgd (PDX va)
          then slot (ptab (mem s) pgd (PDX va)) (PTX va) else 0, s)"
  by (simp add: walkpgdir_def kload_def pde_present_def ptab_def Let_def)

lemma slot_nonzero: "valid_page e p \<Longrightarrow> i < 1024 \<Longrightarrow> slot p i \<noteq> 0"
  using slot_page[of p i 0] valid_page_nonzero[of e p]
  by (auto simp: valid_page_def PGROUNDDOWN_def)

lemma walkpgdir_alloc:
  assumes inv: "vm_inv q pgd s xs"
  shows "\<exists>r t ys. walkpgdir pgd va True s = Inr (r, t) \<and> vm_step q pgd s xs t ys \<and>
    entry (mem t) pgd = entry (mem s) pgd \<and>
    (if r = 0 then ys = []
     else pde_present (mem t) pgd (PDX va) \<and> r = slot (ptab (mem t) pgd (PDX va)) (PTX va))"
proof (cases "pde_present (mem s) pgd (PDX va)")
  case True
  then have "slot (ptab (mem s) pgd (PDX va)) (PTX va) \<noteq> 0"
    using inv slot_nonzero[OF pt_ok_tab(1)[OF _ PDX_PTX_less(1)] PDX_PTX_less(2)]
    unfolding vm_inv_def by blast
  then show ?thesis
    using True vm_step_refl[OF inv]
    by (auto simp: walkpgdir_def kload_def pde_present_def ptab_def Let_def)
next
  case False
  have inv': "kmem_ready q s" "free_pages s xs" "pt_ok (kend s) (mem s) pgd (set xs)"
    using inv by (simp_all add: vm_inv_def)
  obtain t where t: "kalloc s = Inr (case xs of [] \<Rightarrow> 0 | p # _ \<Rightarrow> p, t)" "free_pages t (tl xs)"
    "mem t = mem s" "kmem_state.more t = kmem_state.more s" "kend t = kend s"
    "kmem_use_lock t = kmem_use_lock s" "same_ctx (kmem_locks s) s t" "kmem_ready q t"
    using kalloc_run[OF inv'(1,2)] by blast
  then have st: "kstep q s t"
    by (auto simp: kstep_def)
  have walk: "walkpgdir pgd va True s = (let p = (case xs of [] \<Rightarrow> 0 | p # _ \<Rightarrow> p) in
      if p = 0 then Inr (0, t) else Inr (slot p (PTX va),
        t\<lparr>mem := wr32 (memset (mem t) p 0 PGSIZE) (slot pgd (PDX va)) (V2P p OR PTE_P OR PTE_W OR PTE_U)\<rparr>))"
    using False t(1)
    by (simp add: walkpgdir_def kload_def kstore_def kmemset_def pde_present_def Let_def kbind_Inr)
  show ?thesis
  proof (cases xs)
    case Nil
    then have "vm_step q pgd s xs t []"
      using st t inv' by (simp add: vm_step_def vm_inv_def)
    with Nil show ?thesis
      using walk t(3) by simp
  next
    case (Cons p ys)
    have p: "valid_page (kend s) p" "p \<in> set xs" "set ys = set xs - {p}"
      using inv'(2) Cons by (auto simp: free_pages_def)
    note n = entry_new_table[OF inv'(3) p(2,1) PDX_PTX_less(1) False]
    let ?m = "wr32 (memset (mem s) p 0 PGSIZE) (slot pgd (PDX va)) (V2P p OR PTE_P OR PTE_W OR PTE_U)"
    let ?t = "t\<lparr>mem := ?m\<rparr>"
    have "kstep q s ?t"
      using kstep_trans[OF st kstep_mem] .
    moreover have "free_pages ?t ys"
    proof (rule free_pages_frame[of t])
      show "free_pages t ys" using t(2) Cons by simp
      show "mem ?t x = mem t x" if "PGROUNDDOWN x \<in> set ys" for x
        using that p(3) pt_ok_dir(2)[OF inv'(3)] n(6)[of x] t(3) by auto
    qed simp_all
    moreover have "mem ?t x = mem s x" if "PGROUNDDOWN x \<notin> insert p (pt_pages (mem s) pgd)" for x
      using that n(6) pt_pages_memb(1)[of pgd "mem s"] by auto
    ultimately have "vm_step q pgd s xs ?t ys"
      using n(1,3) p t(3,5) kstep_ready[of q s ?t] inv'(1) by (auto simp: vm_step_def vm_inv_def)
    moreover have "walkpgdir pgd va True s = Inr (slot p (PTX va), ?t)"
      using walk Cons valid_page_nonzero[OF p(1)] t(3) by simp
    ultimately show ?thesis
      using n slot_nonzero[OF p(1) PDX_PTX_less(2)]
      by (intro exI[of _ "slot p (PTX va)"] exI[of _ ?t] exI[of _ ys]) simp
  qed
qed

section \<open>mappages\<close>

text \<open>\<open>k\<close> pages from \<open>a\<close> on mapped to the frames from \<open>pa\<close> on, over the mapping \<open>f\<close>.\<close>

definition page_index :: "u32 \<Rightarrow> u32 \<Rightarrow> nat" where
  "page_index a x = unat (PGROUNDDOWN x - a) div 4096"

definition mapped :: "u32 \<Rightarrow> nat \<Rightarrow> u32 \<Rightarrow> u32 \<Rightarrow> (u32 \<Rightarrow> u32) \<Rightarrow> u32 \<Rightarrow> u32" where
  "mapped a k pa perm f x =
     (if page_index a x < k then (pa + (PGROUNDDOWN x - a)) OR perm OR PTE_P else f x)"

lemma PGROUNDDOWN_page: "PGROUNDDOWN x mod PGSIZE = 0"
  using PGROUNDDOWN_aligned[of x] by (simp add: unat_mod_page)

lemma page_index_0: "a mod PGSIZE = 0 \<Longrightarrow> page_index a x = 0 \<longleftrightarrow> PGROUNDDOWN x = a"
proof -
  assume a: "a mod PGSIZE = 0"
  have "unat (PGROUNDDOWN x - a) mod 4096 = 0"
    using page_arith(1)[OF PGROUNDDOWN_page a] by (simp add: unat_mod_page)
  then have "page_index a x = 0 \<longleftrightarrow> unat (PGROUNDDOWN x - a) = 0"
    unfolding page_index_def by (metis div_0 div_mult_mod_eq mult_0 add_0)
  then show ?thesis
    by (simp add: unat_eq_0)
qed

lemma page_index_Suc:
  assumes "a mod PGSIZE = 0"
  shows "page_index a x = (if PGROUNDDOWN x = a then 0 else Suc (page_index (a + PGSIZE) x))"
    and "PGROUNDDOWN x = a \<Longrightarrow> page_index (a + PGSIZE) x = 0xFFFFF"
proof -
  let ?d = "PGROUNDDOWN x - a"
  have sub: "PGROUNDDOWN x - (a + PGSIZE) = ?d - PGSIZE"
    by simp
  show "page_index a x = (if PGROUNDDOWN x = a then 0 else Suc (page_index (a + PGSIZE) x))"
  proof (cases "PGROUNDDOWN x = a")
    case True
    then show ?thesis
      using page_index_0[OF assms] by simp
  next
    case False
    obtain k where k: "unat ?d = k * 4096"
      using page_multiple[OF page_arith(1)[OF PGROUNDDOWN_page assms]] .
    have "k \<noteq> 0"
    proof
      assume "k = 0"
      then have "?d = 0"
        using k by (simp add: unat_eq_0)
      with False show False
        by simp
    qed
    then obtain j where j: "k = Suc j"
      by (cases k) auto
    have "unat (?d - PGSIZE) = j * 4096"
      using k j by (simp add: unat_sub_if')
    then show ?thesis
      using False k j unfolding page_index_def sub by simp
  qed
  show "PGROUNDDOWN x = a \<Longrightarrow> page_index (a + PGSIZE) x = 0xFFFFF"
    by (simp add: page_index_def)
qed

lemma mapped_0 [simp]: "mapped a 0 pa perm f = f"
  by (rule ext) (simp add: mapped_def)

lemma mapped_Suc:
  assumes "a mod PGSIZE = 0" and "k \<le> 0xFFFFF"
  shows "mapped a (Suc k) pa perm f = mapped (a + PGSIZE) k (pa + PGSIZE) perm
    (\<lambda>x. if PGROUNDDOWN x = a then pa OR perm OR PTE_P else f x)"
proof
  fix x
  have off: "(pa + PGSIZE) + (PGROUNDDOWN x - (a + PGSIZE)) = pa + (PGROUNDDOWN x - a)"
    by simp
  show "mapped a (Suc k) pa perm f x = mapped (a + PGSIZE) k (pa + PGSIZE) perm
    (\<lambda>x. if PGROUNDDOWN x = a then pa OR perm OR PTE_P else f x) x"
    using page_index_Suc[OF assms(1), of x] assms(2) unfolding mapped_def off by simp
qed

lemma kload_run: "kload a s = Inr (rd32 (mem s) a, s)"
  by (simp add: kload_def)

lemma kstore_run: "kstore a v s = Inr ((), s\<lparr>mem := wr32 (mem s) a v\<rparr>)"
  by (simp add: kstore_def)

lemma vm_store:
  fixes v :: u32
  assumes inv: "vm_inv q pgd s xs" and present: "pde_present (mem s) pgd (PDX va)"
  defines "t \<equiv> s\<lparr>mem := wr32 (mem s) (slot (ptab (mem s) pgd (PDX va)) (PTX va)) v\<rparr>"
  shows "vm_step q pgd s xs t xs"
    and "entry (mem t) pgd = (\<lambda>x. if PGROUNDDOWN x = PGROUNDDOWN va then v else entry (mem s) pgd x)"
proof -
  have inv': "kmem_ready q s" "free_pages s xs" "pt_ok (kend s) (mem s) pgd (set xs)"
    using inv by (simp_all add: vm_inv_def)
  note n = entry_store[OF inv'(3) present, where v = v]
  show "entry (mem t) pgd = (\<lambda>x. if PGROUNDDOWN x = PGROUNDDOWN va then v else entry (mem s) pgd x)"
    using n(3) by (simp add: t_def)
  have "free_pages t xs"
    using inv'(2)
  proof (rule free_pages_frame)
    show "mem t x = mem s x" if "PGROUNDDOWN x \<in> set xs" for x
      using that n(4) pt_pages_valid[OF inv'(3)] by (auto simp: t_def)
  qed (simp_all add: t_def)
  then show "vm_step q pgd s xs t xs"
    using n inv'(1) kstep_ready[OF kstep_mem] by (simp add: vm_step_def vm_inv_def t_def)
qed

lemma mappages_one:
  assumes inv: "vm_inv q pgd s xs" and a: "a mod PGSIZE = 0" and "entry (mem s) pgd a AND PTE_P = 0"
  shows "(\<exists>t. mappages_loop pgd a n pa perm s = Inr (-1, t) \<and> vm_step q pgd s xs t [] \<and>
      entry (mem t) pgd = entry (mem s) pgd) \<or>
    (\<exists>t ys. mappages_loop pgd a n pa perm s =
        (case n of 0 \<Rightarrow> kret 0 | Suc k \<Rightarrow> mappages_loop pgd (a + PGSIZE) k (pa + PGSIZE) perm) t \<and>
      vm_step q pgd s xs t ys \<and> entry (mem t) pgd =
        (\<lambda>x. if PGROUNDDOWN x = a then pa OR perm OR PTE_P else entry (mem s) pgd x))"
proof -
  obtain r t ys where t: "walkpgdir pgd a True s = Inr (r, t)" "vm_step q pgd s xs t ys"
    "entry (mem t) pgd = entry (mem s) pgd"
    "if r = 0 then ys = []
     else pde_present (mem t) pgd (PDX a) \<and> r = slot (ptab (mem t) pgd (PDX a)) (PTX a)"
    using walkpgdir_alloc[OF inv] by blast
  show ?thesis
  proof (cases "r = 0")
    case True
    then show ?thesis
      using t by (subst mappages_loop.simps, subst (2) mappages_loop.simps) (auto simp: kbind_Inr)
  next
    case False
    then have present: "pde_present (mem t) pgd (PDX a)"
      and r: "r = slot (ptab (mem t) pgd (PDX a)) (PTX a)"
      using t(4) by simp_all
    have inv_t: "vm_inv q pgd t ys"
      using t(2) by (simp add: vm_step_def)
    have "rd32 (mem t) r AND PTE_P = 0"
      using assms(3) present t(3) unfolding r by (metis entry_def)
    then have "mappages_loop pgd a n pa perm s =
        (case n of 0 \<Rightarrow> kret 0 | Suc k \<Rightarrow> mappages_loop pgd (a + PGSIZE) k (pa + PGSIZE) perm)
        (t\<lparr>mem := wr32 (mem t) r (pa OR perm OR PTE_P)\<rparr>)"
      using False t(1) by (subst mappages_loop.simps) (simp add: kbind_Inr kload_run kstore_run)
    moreover have "PGROUNDDOWN a = a"
      using in_page[OF a, of a] by simp
    ultimately show ?thesis
      using vm_step_trans[OF t(2) vm_store(1)[OF inv_t present, of "pa OR perm OR PTE_P"]]
        vm_store(2)[OF inv_t present, of "pa OR perm OR PTE_P"] t(3)
      by (intro disjI2 exI[of _ "t\<lparr>mem := wr32 (mem t) r (pa OR perm OR PTE_P)\<rparr>"] exI[of _ ys])
        (simp add: r cong: if_cong)
  qed
qed

lemma mappages_loop_run:
  assumes "vm_inv q pgd s xs" and "a mod PGSIZE = 0" and "n < 0x100000"
    and "\<And>x. page_index a x \<le> n \<Longrightarrow> entry (mem s) pgd x AND PTE_P = 0"
  shows "\<exists>k t ys. mappages_loop pgd a n pa perm s = Inr (if k = Suc n then 0 else -1, t) \<and>
    k \<le> Suc n \<and> (k < Suc n \<longrightarrow> ys = []) \<and> vm_step q pgd s xs t ys \<and>
    entry (mem t) pgd = mapped a k pa perm (entry (mem s) pgd)"
  using assms
proof (induction n arbitrary: a pa s xs)
  case (0 a pa s xs)
  have "page_index a a = 0"
    using in_page[OF 0(2), of a] page_index_0[OF 0(2), of a] by simp
  then have "entry (mem s) pgd a AND PTE_P = 0"
    using 0(4) by simp
  then show ?case
    using mappages_one[OF 0(1,2), of 0 pa perm] mapped_Suc[OF 0(2), of 0 pa perm]
    by (fastforce intro: exI[of _ "0 :: nat"] exI[of _ "Suc 0"])
next
  case (Suc n a pa s xs)
  have "page_index a a = 0"
    using in_page[OF Suc.prems(2), of a] page_index_0[OF Suc.prems(2), of a] by simp
  then have "entry (mem s) pgd a AND PTE_P = 0"
    using Suc.prems(4) by simp
  then consider t where "mappages_loop pgd a (Suc n) pa perm s = Inr (-1, t)" "vm_step q pgd s xs t []"
      "entry (mem t) pgd = entry (mem s) pgd"
    | t ys where "mappages_loop pgd a (Suc n) pa perm s =
        mappages_loop pgd (a + PGSIZE) n (pa + PGSIZE) perm t"
      "vm_step q pgd s xs t ys" "entry (mem t) pgd =
        (\<lambda>x. if PGROUNDDOWN x = a then pa OR perm OR PTE_P else entry (mem s) pgd x)"
    using mappages_one[OF Suc.prems(1,2), of "Suc n" pa perm] by auto
  then show ?case
  proof cases
    case 1
    then show ?thesis
      by (intro exI[of _ 0] exI[of _ t] exI[of _ "[]"]) simp
  next
    case 2
    have inv: "vm_inv q pgd t ys" and a': "(a + PGSIZE) mod PGSIZE = 0" and n: "n < 0x100000"
      using 2(2) page_arith(2)[OF Suc.prems(2), of PGSIZE] Suc.prems(3) by (simp_all add: vm_step_def)
    have "entry (mem t) pgd x AND PTE_P = 0" if "page_index (a + PGSIZE) x \<le> n" for x
      using page_index_Suc[OF Suc.prems(2), of x] that Suc.prems(3) Suc.prems(4)[of x] 2(3)
      by (auto split: if_splits)
    from Suc.IH[OF inv a' n this, of "pa + PGSIZE"]
    obtain k u zs where u: "mappages_loop pgd (a + PGSIZE) n (pa + PGSIZE) perm t =
        Inr (if k = Suc n then 0 else - 1, u)" "k \<le> Suc n" "k < Suc n \<longrightarrow> zs = []"
        "vm_step q pgd t ys u zs"
        "entry (mem u) pgd = mapped (a + PGSIZE) k (pa + PGSIZE) perm (entry (mem t) pgd)"
      by blast
    have "entry (mem u) pgd = mapped a (Suc k) pa perm (entry (mem s) pgd)"
      using u(2,5) 2(3) mapped_Suc[OF Suc.prems(2), of k] Suc.prems(3) by simp
    then show ?thesis
      using u 2 vm_step_trans[OF 2(2) u(4)]
      by (intro exI[of _ "Suc k"] exI[of _ u] exI[of _ zs]) simp
  qed
qed

lemma page_offset:
  assumes "p mod PGSIZE = 0"
  shows "p OR (x AND 0xFFF) = p + (x AND 0xFFF)"
  using assms unfolding page_low_bits
  by (intro disjunctive_add[symmetric]) (auto simp: bit_eq_iff bit_simps)

lemma PGROUNDDOWN_offset: "PGROUNDDOWN x + (x AND 0xFFF) = x"
proof -
  have "PGROUNDDOWN x OR (x AND 0xFFF) = x"
    by (auto simp: PGROUNDDOWN_def mask_4095 bit_eq_iff bit_simps)
  then show ?thesis
    using page_offset[OF PGROUNDDOWN_page] by simp
qed

lemma present_bit: "(w OR PTE_P) AND PTE_P = PTE_P"
  by (rule bit_word_eqI) (auto simp: bit_simps)

lemma translate_mapped:
  assumes "entry m pgd x = (pa + (PGROUNDDOWN x - a)) OR perm OR PTE_P"
    and "pa mod PGSIZE = 0" "a mod PGSIZE = 0" "perm AND NOT 0xFFF = 0"
  shows "translate m pgd x = Some (pa + (x - a), perm OR PTE_P)"
proof -
  let ?p = "pa + (PGROUNDDOWN x - a)"
  have p: "?p mod PGSIZE = 0"
    by (rule page_arith(2)[OF assms(2) page_arith(1)[OF PGROUNDDOWN_page assms(3)]])
  have perm: "(perm OR PTE_P) AND NOT 0xFFF = 0"
    using assms(4) by (simp add: bit.conj_disj_distrib2)
  have "entry m pgd x AND PTE_P \<noteq> 0"
    using present_bit[of "?p OR perm"] by (simp add: assms(1) or.assoc)
  moreover have "?p + (x AND 0xFFF) = pa + (x - a)"
    using PGROUNDDOWN_offset[of x, THEN arg_cong, of "\<lambda>y. pa + (y - a)"]
    by (simp add: algebra_simps)
  ultimately show ?thesis
    using PTE_ADDR_FLAGS_OR[OF p perm] page_offset[OF p, of x]
    by (simp add: translate_def assms(1))
qed

lemma page_index_le:
  assumes "a mod PGSIZE = 0" "l mod PGSIZE = 0"
  shows "page_index a x \<le> unat ((l - a) div PGSIZE) \<longleftrightarrow> PGROUNDDOWN x - a \<le> l - a"
proof -
  obtain j k where "unat (PGROUNDDOWN x - a) = j * 4096" "unat (l - a) = k * 4096"
    using page_multiple[OF page_arith(1)[OF PGROUNDDOWN_page assms(1)]]
      page_multiple[OF page_arith(1)[OF assms(2,1)]] by metis
  then show ?thesis
    by (simp add: page_index_def unat_div word_le_nat_alt)
qed

section \<open>Properties\<close>


lemma vm3_inv:
  "vm_inv (0x200, 0) 0x80403000 (kmem3 x) [0x80402000, 0x80401000, 0x80400000]"
  "translate (mem (kmem3 x)) 0x80403000 va = None"
proof -
  have "rd32 (mem (kmem3 x)) (slot 0x80403000 i) = rd32 (\<lambda>_. 0) (slot 0x80403000 i)" if "i < 1024" for i
  proof (rule rd32_slot_frame)
    fix a assume "PGROUNDDOWN a = 0x80403000"
    then show "mem (kmem3 x) a = 0"
      using wr32_slot_frame[of "0x80401000" 0 a] wr32_slot_frame[of "0x80402000" 0 a]
      by (simp add: kmem3_def mach2_def)
  qed (simp_all add: that)
  then have absent: "\<not> pde_present (mem (kmem3 x)) 0x80403000 i" if "i < 1024" for i
    using that by (simp add: pde_present_def rd32_def)
  then show "vm_inv (0x200, 0) 0x80403000 (kmem3 x) [0x80402000, 0x80401000, 0x80400000]"
    using kmem3_ok[of x] by (auto simp: vm_inv_def pt_ok_def kmem_ok_def valid_page_def V2P_def)
  show "translate (mem (kmem3 x)) 0x80403000 va = None"
    using absent[of "PDX va"] by (simp add: translate_def entry_def)
qed


end
