(* ===== verification/Rand.thy ===== *)
theory Rand
  imports Prelude
begin

text \<open>
  The generator of \<open>src/rand.c\<close>, linked into the kernel (the scheduler draws tickets from it) and
  into the user library.  \<open>unsigned long\<close> is 32 bits wide on this machine, so \<open>next\<close> is a
  32-bit word and the recurrence wraps.  The lemmas give the range of \<open>rand\<close>, its exact
  distribution over the states of the generator, and the period of the recurrence.
\<close>

section \<open>rand.c\<close>

abbreviation (input) RAND_MAX :: u32 where "RAND_MAX \<equiv> 0x80000000"

text \<open>\<open>static unsigned long next = 1;\<close>\<close>

definition next_init :: u32 where
  "next_init = 1"

definition srand :: "u32 \<Rightarrow> u32" where
  "srand seed = seed"

definition rand_next :: "u32 \<Rightarrow> u32" where
  "rand_next nxt = nxt * 1103515245 + 12345"

text \<open>
  \<open>rand\<close> returns the value and the new \<open>next\<close>.  The C result is an \<open>int\<close>; the word holds its
  32 bits.
\<close>

definition rand :: "u32 \<Rightarrow> u32 \<times> u32" where
  "rand nxt = (let nxt' = rand_next nxt in ((nxt' div 65536) mod RAND_MAX, nxt'))"

section \<open>Range\<close>

lemma unat_rand: "unat (fst (rand nxt)) = unat (rand_next nxt) div 65536"
proof -
  have "unat (rand_next nxt) div 65536 < 65536"
    using unsigned_less[of "rand_next nxt", where 'a = nat] by (simp add: less_mult_imp_div_less)
  then show ?thesis
    by (simp add: rand_def Let_def unat_mod unat_div)
qed

lemma rand_less: "unat (fst (rand nxt)) < 65536"
  using unsigned_less[of "rand_next nxt", where 'a = nat]
  by (simp add: unat_rand less_mult_imp_div_less)

section \<open>The recurrence is a permutation of the states\<close>

text \<open>The multiplier is odd; this is its inverse modulo \<open>2 ^ 32\<close>.\<close>

lemma rand_next_inverse: "(rand_next w - 12345) * 4005161829 = w"
proof -
  have inv: "(1103515245 :: u32) * 4005161829 = 1"
    by simp
  have "(rand_next w - 12345) * 4005161829 = w * (1103515245 * 4005161829)"
    unfolding rand_next_def add_diff_cancel_right' mult.assoc ..
  then show ?thesis
    unfolding inv by simp
qed

lemma bij_rand_next: "bij rand_next"
proof -
  have "inj rand_next"
    using rand_next_inverse by (metis injI)
  then show ?thesis
    using finite_UNIV_inj_surj[of rand_next] by (auto simp: bij_def)
qed

section \<open>The period is \<open>2 ^ 32\<close>\<close>

text \<open>
  The \<open>2 ^ k\<close>-fold iterate is affine, with a multiplier that is 1 modulo \<open>2 ^ (k + 2)\<close> and an
  increment that is an odd multiple of \<open>2 ^ k\<close>: the multiplier of the code is 1 modulo 4 and its
  increment is odd.
\<close>

lemma rand_next_pow2:
  "\<exists>m q :: int. odd q \<and>
     (\<forall>w. (rand_next ^^ (2 ^ k)) w = of_int (1 + 2 ^ (k + 2) * m) * w + of_int (2 ^ k * q))"
proof (induction k)
  case 0
  show ?case
    by (intro exI[of _ "275878811 :: int"] exI[of _ "12345 :: int"])
      (simp add: rand_next_def mult.commute)
next
  case (Suc k)
  then obtain m q :: int where q: "odd q"
    and step: "\<And>w. (rand_next ^^ (2 ^ k)) w = of_int (1 + 2 ^ (k + 2) * m) * w + of_int (2 ^ k * q)"
    by blast
  let ?A = "1 + 2 ^ (k + 2) * m" and ?C = "2 ^ k * q"
  have A: "?A * ?A = 1 + 2 ^ (Suc k + 2) * (m + 2 ^ (k + 1) * m * m)"
    by (simp add: algebra_simps power_add)
  have C: "?A * ?C + ?C = 2 ^ Suc k * (q * (1 + 2 ^ (k + 1) * m))"
    by (simp add: algebra_simps power_add)
  have "(rand_next ^^ (2 ^ Suc k)) w = of_int (?A * ?A) * w + of_int (?A * ?C + ?C)" for w
    unfolding power_Suc mult_2 funpow_add comp_apply step by (simp only: of_int_mult of_int_add algebra_simps)
  moreover have "odd (q * (1 + 2 ^ (k + 1) * m))"
    using q by simp
  ultimately show ?case
    unfolding A C by blast
qed

lemma rand_next_pow2_iterate:
  fixes g :: "u32 \<Rightarrow> u32"
  assumes step: "\<And>w. g w = of_int (1 + 2 ^ (k + 2) * m) * w + of_int (2 ^ k * q)"
  shows "\<exists>r. (g ^^ j) w = w + of_int (2 ^ k * (int j * q) + 2 ^ (k + 2) * r)"
proof (induction j)
  case 0
  show ?case
    by (intro exI[of _ 0]) simp
next
  case (Suc j)
  then obtain r where r: "(g ^^ j) w = w + of_int (2 ^ k * (int j * q) + 2 ^ (k + 2) * r)"
    by blast
  define K L :: int where "K = 2 ^ k" and "L = 2 ^ (k + 2)"
  define d u where "d = K * (int j * q) + L * r" and "u = uint w"
  have w: "w + of_int d = of_int (u + d)" and u: "w = of_int u"
    by (simp_all add: u_def)
  have "(1 + L * m) * (u + d) + K * q = u + (K * (int (Suc j) * q) + L * (r + m * (u + d)))"
    unfolding d_def by (simp add: algebra_simps)
  moreover have "(g ^^ Suc j) w = of_int ((1 + L * m) * (u + d) + K * q)"
    unfolding funpow.simps comp_apply r step K_def[symmetric] L_def[symmetric] d_def[symmetric] w
    by (simp only: of_int_mult of_int_add)
  ultimately have "(g ^^ Suc j) w = w + of_int (K * (int (Suc j) * q) + L * (r + m * (u + d)))"
    by (simp only: of_int_add flip: u)
  then show ?case
    unfolding K_def L_def by blast
qed

lemma split_pow2: "0 < (n :: nat) \<Longrightarrow> \<exists>k j. n = 2 ^ k * j \<and> odd j"
proof (induction n rule: less_induct)
  case (less n)
  show ?case
  proof (cases "even n")
    case True
    then obtain h where h: "n = 2 * h" by blast
    obtain k j where "h = 2 ^ k * j" "odd j"
      using less.IH[of h] less.prems h by auto
    then show ?thesis
      using h by (intro exI[of _ "Suc k"] exI[of _ j]) simp
  next
    case False
    then show ?thesis by (intro exI[of _ 0] exI[of _ n]) simp
  qed
qed

lemma rand_next_no_short_cycle:
  assumes "0 < n" and "n < 2 ^ 32"
  shows "(rand_next ^^ n) w \<noteq> w"
proof
  assume fix_w: "(rand_next ^^ n) w = w"
  obtain k j where n: "n = 2 ^ k * j" and j: "odd j"
    using split_pow2[OF assms(1)] by blast
  obtain m q :: int where q: "odd q"
    and step: "\<And>w. (rand_next ^^ (2 ^ k)) w = of_int (1 + 2 ^ (k + 2) * m) * w + of_int (2 ^ k * q)"
    using rand_next_pow2[of k] by blast
  obtain r where r: "((rand_next ^^ (2 ^ k)) ^^ j) w = w + of_int (2 ^ k * (int j * q) + 2 ^ (k + 2) * r)"
    using rand_next_pow2_iterate[OF step] by blast
  have "0 < j"
    using j odd_pos by blast
  have "2 ^ k \<le> n"
    using n \<open>0 < j\<close> by simp
  then have "(2 :: nat) ^ k < 2 ^ 32"
    using assms(2) by (rule le_less_trans)
  then have "k < 32"
    by (rule power_less_imp_less_exp[rotated]) simp
  have "w + of_int (2 ^ k * (int j * q) + 2 ^ (k + 2) * r) = w"
    using r fix_w unfolding n funpow_mult by (simp only: mult.commute)
  then have "(of_int (2 ^ k * (int j * q) + 2 ^ (k + 2) * r) :: u32) = 0"
    by (metis add_cancel_left_right)
  then have "(2 :: int) ^ 32 dvd 2 ^ k * (int j * q + 4 * r)"
    unfolding word_of_int_eq_0_iff by (simp add: algebra_simps power_add)
  moreover have "(2 :: int) ^ 32 = 2 ^ k * 2 ^ (32 - k)"
    using \<open>k < 32\<close> by (simp flip: power_add)
  ultimately have "(2 :: int) ^ k * 2 ^ (32 - k) dvd 2 ^ k * (int j * q + 4 * r)"
    by (simp only:)
  then have "(2 :: int) ^ (32 - k) dvd int j * q + 4 * r"
    by simp
  moreover have "(2 :: int) dvd 2 ^ (32 - k)"
    using \<open>k < 32\<close> by simp
  ultimately have "even (int j * q + 4 * r)"
    by (rule dvd_trans[rotated])
  then show False
    using j q by simp
qed

lemma funpow_cancel:
  assumes "inj f" and "(f ^^ i) x = (f ^^ (i + d)) x"
  shows "(f ^^ d) x = x"
proof -
  have "(f ^^ i) ((f ^^ d) x) = (f ^^ i) x"
    using assms(2) by (simp add: funpow_add)
  then show ?thesis
    using inj_fn[OF assms(1), of i] by (simp add: inj_eq)
qed

lemma inj_on_orbit: "inj_on (\<lambda>n. (rand_next ^^ n) w) {..<2 ^ 32}"
proof (rule linorder_inj_onI')
  fix i j :: nat
  assume ij: "i \<in> {..<2 ^ 32}" "j \<in> {..<2 ^ 32}" "i < j"
  show "(rand_next ^^ i) w \<noteq> (rand_next ^^ j) w"
  proof
    assume "(rand_next ^^ i) w = (rand_next ^^ j) w"
    then have "(rand_next ^^ (j - i)) w = w"
      using ij(3) by (intro funpow_cancel[of _ i]) (simp_all add: bij_rand_next bij_is_inj)
    moreover have "j - i < 2 ^ 32" "0 < j - i"
      using ij unfolding lessThan_iff by (meson diff_le_self le_less_trans, simp)
    ultimately show False
      using rand_next_no_short_cycle by blast
  qed
qed

lemma orbit_UNIV: "(\<lambda>n. (rand_next ^^ n) w) ` {..<2 ^ 32} = UNIV"
proof (rule card_subset_eq[OF finite subset_UNIV])
  show "card ((\<lambda>n. (rand_next ^^ n) w) ` {..<2 ^ 32}) = card (UNIV :: u32 set)"
    unfolding card_image[OF inj_on_orbit] card_lessThan card_word by simp
qed

lemma bij_betw_orbit: "bij_betw (\<lambda>n. (rand_next ^^ n) w) {..<2 ^ 32} UNIV"
  unfolding bij_betw_def by (rule conjI[OF inj_on_orbit orbit_UNIV])

lemma rand_next_period: "(rand_next ^^ (2 ^ 32)) w = w"
proof -
  define M :: nat where "M = 2 ^ 32"
  have "(rand_next ^^ M) w \<in> (\<lambda>n. (rand_next ^^ n) w) ` {..<M}"
    unfolding M_def orbit_UNIV by (rule UNIV_I)
  then obtain n where n: "n < M" "(rand_next ^^ n) w = (rand_next ^^ (n + (M - n))) w"
    by force
  have bk: "(rand_next ^^ (M - n)) w = w"
    using n(2) by (rule funpow_cancel[OF bij_is_inj[OF bij_rand_next]])
  have "n = 0"
    using rand_next_no_short_cycle[of "M - n" w] n(1) bk unfolding M_def[symmetric] by force
  then have "(rand_next ^^ M) w = w"
    using bk by simp
  then show ?thesis
    unfolding M_def .
qed

section \<open>Distribution over the states\<close>

lemma card_rand_value:
  assumes "v < 65536"
  shows "card {w. unat (fst (rand w)) = v} = 65536"
proof -
  have "{w. unat (fst (rand w)) = v} = rand_next -` {u. unat u div 65536 = v}"
    by (auto simp: unat_rand)
  also have "card \<dots> = card {u :: u32. unat u div 65536 = v}"
    using bij_rand_next by (intro card_vimage_inj) (auto simp: bij_def)
  also have "\<dots> = card (unat ` {u :: u32. unat u div 65536 = v})"
    by (intro card_image[symmetric] inj_onI) (rule unsigned_word_eqI)
  also have "unat ` {u :: u32. unat u div 65536 = v} = {65536 * v ..< 65536 * v + 65536}"
  proof (intro equalityI subsetI)
    fix n assume n: "n \<in> {65536 * v ..< 65536 * v + 65536}"
    then have "n < 2 ^ 32"
      using assms by simp
    then have "unat (of_nat n :: u32) = n"
      by (simp add: unat_of_nat)
    moreover have "n div 65536 = v"
      using n by (auto intro!: div_nat_eqI)
    ultimately show "n \<in> unat ` {u :: u32. unat u div 65536 = v}"
      by (metis (mono_tags, lifting) image_eqI mem_Collect_eq)
  qed (auto simp: div_mult_mod_eq)
  finally show ?thesis
    by simp
qed

lemma card_bij_filter:
  assumes "bij_betw f A UNIV"
  shows "card {n \<in> A. P (f n)} = card {u. P u}"
proof -
  have "f ` {n \<in> A. P (f n)} = {u. P u}"
    using assms by (auto simp: bij_betw_def)
  moreover have "inj_on f {n \<in> A. P (f n)}"
    using assms by (auto simp: bij_betw_def intro: inj_on_subset)
  ultimately show ?thesis
    using card_image by fastforce
qed

section \<open>Properties\<close>

text \<open>
  C5: the generator has full period, and over a period \<open>rand\<close> is exactly uniform on
  \<open>0 .. 65535\<close>: from any seed, \<open>2 ^ 32\<close> calls visit every state once, the state then recurs, and
  each value is returned exactly 65536 times; no call returns a larger value.
\<close>
theorem rand_uniform_over_period:
  assumes "v < 65536"
  shows "card {n \<in> {..<2 ^ 32}. unat (fst (rand ((rand_next ^^ n) seed))) = v} = 65536 \<and>
    bij_betw (\<lambda>n. (rand_next ^^ n) seed) {..<2 ^ 32} UNIV \<and> (rand_next ^^ (2 ^ 32)) seed = seed \<and>
    (\<forall>w. unat (fst (rand w)) < 65536)"
proof (intro conjI allI)
  show "card {n \<in> {..<2 ^ 32}. unat (fst (rand ((rand_next ^^ n) seed))) = v} = 65536"
    unfolding card_bij_filter[OF bij_betw_orbit, of "\<lambda>u. unat (fst (rand u)) = v" seed]
    by (rule card_rand_value[OF assms])
qed (rule bij_betw_orbit rand_next_period rand_less)+

theorem rand_uniform_over_period_witness:
  "card {n \<in> {..<2 ^ 32}. unat (fst (rand ((rand_next ^^ n) next_init))) = 42} = 65536"
proof -
  have "(42 :: nat) < 65536" by simp
  from conjunct1[OF rand_uniform_over_period[OF this]] show ?thesis .
qed

end
