(* ===== verification/Proc.thy ===== *)
theory Proc
  imports Vm Rand
begin

unbundle bit_operations_syntax

text \<open>
  Processes and the lottery scheduler, \<open>src/proc.c\<close>, apart from the routines that need the file
  system.  \<open>swtch\<close> is where a routine gives up the processor: a routine that calls it is modelled as
  the part before the switch and the part after it (\<open>sched_enter\<close> and \<open>sched_exit\<close>, and so on), and
  the state at the switch is what the other side starts from.
\<close>

section \<open>State\<close>

text \<open>
  \<open>rand_state\<close> is \<open>next\<close> of \<open>src/rand.c\<close>, \<open>clock\<close> and \<open>clock_reads\<close> what the real-time clock shows to
  \<open>cmostime\<close>, \<open>trapret_addr\<close> and \<open>forkret_addr\<close> the addresses of the two routines.
\<close>

record proc_state = vm_state +
  procs :: "proc list"
  nextpid :: u32
  initproc :: "nat option"
  ticks :: u32
  rand_state :: u32
  first :: bool
  clock :: cmos_regs
  clock_reads :: "(cmos_regs \<times> cmos_regs \<times> cmos_regs) list"
  trapret_addr :: u32
  forkret_addr :: u32

definition upd_proc :: "nat \<Rightarrow> (proc \<Rightarrow> proc) \<Rightarrow> 'x proc_state_scheme \<Rightarrow> 'x proc_state_scheme" where
  "upd_proc i f s = s\<lparr>procs := (procs s)[i := f (procs s ! i)]\<rparr>"

definition pget :: "(proc \<Rightarrow> 'a) \<Rightarrow> nat \<Rightarrow> ('x proc_state_scheme, 'a) kernel" where
  "pget g i = kgets (\<lambda>s. g (procs s ! i))"

definition pset :: "(proc \<Rightarrow> proc) \<Rightarrow> nat \<Rightarrow> ('x proc_state_scheme, unit) kernel" where
  "pset f i = kmodify (upd_proc i f)"

text \<open>Following a pointer that may be null.\<close>

definition deref :: "'a option \<Rightarrow> ('s, 'a) kernel" where
  "deref r = (case r of None \<Rightarrow> kstop Fault | Some i \<Rightarrow> kret i)"

section \<open>The current process\<close>

definition pinit :: "('x mach_scheme, unit) kernel" where
  "pinit = initlock Ptable_lock ''ptable''"

definition myproc :: "('x mach_scheme, nat option) kernel" where
  "myproc =
     kbind pushcli (\<lambda>_.
     kbind mycpu (\<lambda>c.
     kbind (kgets (\<lambda>s. cpu_proc (cpus s ! c))) (\<lambda>p.
     kbind popcli (\<lambda>_. kret p))))"

definition uptime :: "('x proc_state_scheme, u32) kernel" where
  "uptime =
     kbind (acquire Ticks_lock) (\<lambda>_.
     kbind (kgets ticks) (\<lambda>xticks.
     kbind (release Ticks_lock) (\<lambda>_. kret xticks)))"

section \<open>Allocation\<close>

text \<open>The part of \<open>allocproc\<close> under the lock: claim a slot and a process id.\<close>

definition allocproc_claim :: "('x proc_state_scheme, nat option) kernel" where
  "allocproc_claim =
     kbind (acquire Ptable_lock) (\<lambda>_.
     kbind (kgets (\<lambda>s. first_index (\<lambda>p. state p = UNUSED) (procs s))) (\<lambda>found.
     case found of
       None \<Rightarrow> kbind (release Ptable_lock) (\<lambda>_. kret None)
     | Some p \<Rightarrow>
         kbind (pset (\<lambda>q. q\<lparr>state := EMBRYO\<rparr>) p) (\<lambda>_.
         kbind (kgets nextpid) (\<lambda>n.
         kbind (kmodify (\<lambda>s. s\<lparr>nextpid := n + 1\<rparr>)) (\<lambda>_.
         kbind (pset (\<lambda>q. q\<lparr>pid := n\<rparr>) p) (\<lambda>_.
         kbind (release Ptable_lock) (\<lambda>_. kret (Some p))))))))"

definition stamp_begin_date :: "nat \<Rightarrow> ('x proc_state_scheme, unit) kernel" where
  "stamp_begin_date p =
     kbind (kgets (\<lambda>s. cmostime (clock s) (clock_reads s))) (\<lambda>r.
     case r of None \<Rightarrow> kstop Spin | Some d \<Rightarrow> pset (\<lambda>q. q\<lparr>begin_date := d\<rparr>) p)"

definition allocproc :: "('x proc_state_scheme, nat option) kernel" where
  "allocproc =
     kbind allocproc_claim (\<lambda>found.
     case found of None \<Rightarrow> kret None | Some p \<Rightarrow>
       kbind kalloc (\<lambda>ks.
       kbind (pset (\<lambda>q. q\<lparr>kstack := ks\<rparr>) p) (\<lambda>_.
       if ks = 0 then kbind (pset (\<lambda>q. q\<lparr>state := UNUSED\<rparr>) p) (\<lambda>_. kret None)
       else
         let sp = ks + KSTACKSIZE - TF_SIZE; sp' = sp - 4; sp'' = sp' - CONTEXT_SIZE in
         kbind (kgets trapret_addr) (\<lambda>trapret.
         kbind (kgets forkret_addr) (\<lambda>forkret.
         kbind (kseq
          [pset (\<lambda>q. q\<lparr>tf := sp\<rparr>) p,
           kstore sp' trapret,
           pset (\<lambda>q. q\<lparr>ctxt := sp''\<rparr>) p,
           kmemset sp'' 0 CONTEXT_SIZE,
           kstore (sp'' + CONTEXT_EIP) forkret,
           stamp_begin_date p,
           pset (\<lambda>q. q\<lparr>ticks_begin := 0\<rparr>) p,
           pset (\<lambda>q. q\<lparr>ticks_total := 0\<rparr>) p,
           pset (\<lambda>q. q\<lparr>sched_times := 0\<rparr>) p,
           pset (\<lambda>q. q\<lparr>nice_value := DEFAULT_NICE_VALUE\<rparr>) p]) (\<lambda>_.
         kret (Some p)))))))"

definition growproc :: "u32 \<Rightarrow> ('x proc_state_scheme, int) kernel" where
  "growproc n =
     kbind myproc (\<lambda>po. kbind (deref po) (\<lambda>curproc.
     kbind (pget sz curproc) (\<lambda>size.
     kbind (pget pgdir curproc) (\<lambda>pgd.
     kbind (if 0 <s n then allocuvm pgd size (size + n)
            else if n <s 0 then deallocuvm pgd size (size + n)
            else kret size) (\<lambda>size'.
     if n \<noteq> 0 \<and> size' = 0 then kret (-1)
     else kbind (pset (\<lambda>q. q\<lparr>sz := size'\<rparr>) curproc) (\<lambda>_.
     kbind (kgets (\<lambda>s. procs s ! curproc)) (\<lambda>pr.
     kbind (switchuvm (Some pr)) (\<lambda>_. kret 0))))))))"

section \<open>The lottery\<close>

text \<open>
  \<open>nice_sum\<close> adds up the tickets of the runnable processes.  \<open>lottery_loop\<close> is the scan of the table
  for the holder of ticket \<open>rand_num\<close>; \<open>check\<close> counts the tickets passed so far.  (The variable
  \<open>running_total\<close> of the code is never read.)
\<close>

fun nice_total :: "proc list \<Rightarrow> u32 \<Rightarrow> u32" where
  "nice_total [] tot = tot"
| "nice_total (p # ps) tot =
     nice_total ps (if state p = RUNNABLE then tot + nice_value p else tot)"

definition nice_sum :: "('x proc_state_scheme, u32) kernel" where
  "nice_sum = kgets (\<lambda>s. nice_total (procs s) 0)"

fun lottery_loop :: "u32 \<Rightarrow> proc list \<Rightarrow> nat \<Rightarrow> u32 \<Rightarrow> nat option" where
  "lottery_loop rand_num [] i check = None"
| "lottery_loop rand_num (p # ps) i check =
     (if state p \<noteq> RUNNABLE then lottery_loop rand_num ps (Suc i) check
      else if rand_num > check + nice_value p then lottery_loop rand_num ps (Suc i) (check + nice_value p)
      else Some i)"

definition krand :: "('x proc_state_scheme, u32) kernel" where
  "krand = kbind (kgets (\<lambda>s. rand (rand_state s))) (\<lambda>r.
     kbind (kmodify (\<lambda>s. s\<lparr>rand_state := snd r\<rparr>)) (\<lambda>_. kret (fst r)))"

definition lottery_draw :: "('x proc_state_scheme, nat option) kernel" where
  "lottery_draw =
     kbind nice_sum (\<lambda>tot.
     if 0 <s tot then
       kbind krand (\<lambda>r. kbind nice_sum (\<lambda>tot'.
       kgets (\<lambda>s. lottery_loop (r mod tot' + 1) (procs s) 0 0)))
     else kret None)"

text \<open>Before the loop: \<open>c\<close> is this processor's structure.\<close>

definition scheduler_start :: "('x mach_scheme, nat) kernel" where
  "scheduler_start = kbind mycpu (\<lambda>c. kbind (kmodify (upd_cpu c (\<lambda>x. x\<lparr>cpu_proc := None\<rparr>))) (\<lambda>_. kret c))"

text \<open>One round up to the switch to the winner, or the whole round when nothing is runnable.\<close>

definition scheduler_pick :: "nat \<Rightarrow> ('x proc_state_scheme, nat option) kernel" where
  "scheduler_pick c =
     kbind sti (\<lambda>_.
     kbind (acquire Ptable_lock) (\<lambda>_.
     kbind lottery_draw (\<lambda>w.
     case w of
       None \<Rightarrow> kbind (release Ptable_lock) (\<lambda>_. kret None)
     | Some p \<Rightarrow>
         kbind (kmodify (upd_cpu c (\<lambda>x. x\<lparr>cpu_proc := Some p\<rparr>))) (\<lambda>_.
         kbind (kgets (\<lambda>s. procs s ! p)) (\<lambda>pr.
         kbind (switchuvm (Some pr)) (\<lambda>_.
         kbind (pset (\<lambda>q. q\<lparr>state := RUNNING\<rparr>) p) (\<lambda>_.
         kbind uptime (\<lambda>t.
         kbind (pset (\<lambda>q. q\<lparr>ticks_begin := t\<rparr>) p) (\<lambda>_.
         kbind (pset (\<lambda>q. q\<lparr>sched_times := sched_times q + 1\<rparr>) p) (\<lambda>_.
         kret (Some p)))))))))))"

text \<open>The rest of the round, after the process has switched back.\<close>

definition scheduler_back :: "nat \<Rightarrow> nat \<Rightarrow> ('x proc_state_scheme, unit) kernel" where
  "scheduler_back c p =
     kbind switchkvm (\<lambda>_.
     kbind uptime (\<lambda>t. kseq
      [pset (\<lambda>q. q\<lparr>ticks_total := ticks_total q + (t - ticks_begin q)\<rparr>) p,
       kmodify (upd_cpu c (\<lambda>x. x\<lparr>cpu_proc := None\<rparr>)),
       release Ptable_lock]))"

section \<open>Giving up the processor\<close>

definition sched_enter :: "('x proc_state_scheme, u32) kernel" where
  "sched_enter =
     kbind myproc (\<lambda>po.
     kbind (holding Ptable_lock) (\<lambda>h.
     if \<not> h then panic ''sched ptable.lock''
     else kbind (mycpu_get ncli) (\<lambda>n.
     if n \<noteq> 1 then panic ''sched locks''
     else kbind (deref po) (\<lambda>p.
     kbind (pget state p) (\<lambda>st.
     if st = RUNNING then panic ''sched running''
     else kbind readeflags (\<lambda>efl.
     if efl AND FL_IF \<noteq> 0 then panic ''sched interruptible''
     else mycpu_get intena))))))"

definition sched_exit :: "u32 \<Rightarrow> ('x mach_scheme, unit) kernel" where
  "sched_exit ie = mycpu_upd (\<lambda>c. c\<lparr>intena := ie\<rparr>)"

definition yield_enter :: "('x proc_state_scheme, u32) kernel" where
  "yield_enter =
     kbind (acquire Ptable_lock) (\<lambda>_.
     kbind myproc (\<lambda>po. kbind (deref po) (\<lambda>p.
     kbind (pset (\<lambda>q. q\<lparr>state := RUNNABLE\<rparr>) p) (\<lambda>_. sched_enter))))"

definition yield_exit :: "u32 \<Rightarrow> ('x proc_state_scheme, unit) kernel" where
  "yield_exit ie = kseq [sched_exit ie, release Ptable_lock]"

definition sleep_enter :: "chan \<Rightarrow> lockid option \<Rightarrow> ('x proc_state_scheme, nat \<times> u32) kernel" where
  "sleep_enter ch lk =
     kbind myproc (\<lambda>po.
     case po of None \<Rightarrow> panic ''sleep'' | Some p \<Rightarrow>
     (case lk of None \<Rightarrow> panic ''sleep without lk'' | Some l \<Rightarrow>
       kbind (kwhen (l \<noteq> Ptable_lock) (kseq [acquire Ptable_lock, release l])) (\<lambda>_.
       kbind (pset (\<lambda>q. q\<lparr>chan := ch\<rparr>) p) (\<lambda>_.
       kbind (pset (\<lambda>q. q\<lparr>state := SLEEPING\<rparr>) p) (\<lambda>_.
       kbind sched_enter (\<lambda>ie. kret (p, ie)))))))"

definition sleep_exit :: "nat \<Rightarrow> lockid \<Rightarrow> u32 \<Rightarrow> ('x proc_state_scheme, unit) kernel" where
  "sleep_exit p l ie = kseq
    [sched_exit ie,
     pset (\<lambda>q. q\<lparr>chan := Chan_null\<rparr>) p,
     kwhen (l \<noteq> Ptable_lock) (kseq [release Ptable_lock, acquire l])]"

text \<open>In a routine modelled as a whole, \<open>sleep\<close> ends the run.\<close>

definition sleep :: "chan \<Rightarrow> lockid option \<Rightarrow> ('x proc_state_scheme, unit) kernel" where
  "sleep ch lk = kbind (sleep_enter ch lk) (\<lambda>_. kstop Blocked)"

section \<open>Waking, killing, renicing\<close>

definition wake :: "chan \<Rightarrow> proc \<Rightarrow> proc" where
  "wake ch p = (if state p = SLEEPING \<and> chan p = ch then p\<lparr>state := RUNNABLE\<rparr> else p)"

definition wakeup1 :: "chan \<Rightarrow> ('x proc_state_scheme, unit) kernel" where
  "wakeup1 ch = kmodify (\<lambda>s. s\<lparr>procs := map (wake ch) (procs s)\<rparr>)"

definition wakeup :: "chan \<Rightarrow> ('x proc_state_scheme, unit) kernel" where
  "wakeup ch = kseq [acquire Ptable_lock, wakeup1 ch, release Ptable_lock]"

definition kill :: "u32 \<Rightarrow> ('x proc_state_scheme, int) kernel" where
  "kill pd =
     kbind (acquire Ptable_lock) (\<lambda>_.
     kbind (kgets (\<lambda>s. first_index (\<lambda>p. pid p = pd) (procs s))) (\<lambda>found.
     case found of
       None \<Rightarrow> kbind (release Ptable_lock) (\<lambda>_. kret (-1))
     | Some p \<Rightarrow>
         kbind (pset (\<lambda>q. q\<lparr>killed := 1\<rparr>) p) (\<lambda>_.
         kbind (pset (\<lambda>q. if state q = SLEEPING then q\<lparr>state := RUNNABLE\<rparr> else q) p) (\<lambda>_.
         kbind (release Ptable_lock) (\<lambda>_. kret 0)))))"

definition renice_slot :: "u32 \<Rightarrow> u32 \<Rightarrow> proc \<Rightarrow> proc" where
  "renice_slot nice_val pd p =
     (if state p \<noteq> UNUSED \<and> pid p = pd then p\<lparr>nice_value := nice_val\<rparr> else p)"

definition renice :: "u32 \<Rightarrow> u32 \<Rightarrow> ('x proc_state_scheme, int) kernel" where
  "renice nice_val pd =
     (if sint nice_val < MIN_NICE_VALUE \<or> sint nice_val > MAX_NICE_VALUE then
        kbind (cprintf '' Error: Out of bounds\<newline>'' []) (\<lambda>_. kret 1)
      else
        kbind (acquire Ptable_lock) (\<lambda>_.
        kbind (kgets (\<lambda>s. list_ex (\<lambda>p. state p \<noteq> UNUSED \<and> pid p = pd) (procs s))) (\<lambda>check.
        kbind (kmodify (\<lambda>s. s\<lparr>procs := map (renice_slot nice_val pd) (procs s)\<rparr>)) (\<lambda>_.
        kbind (release Ptable_lock) (\<lambda>_.
        if \<not> check then kret 2 else kret 0)))))"

section \<open>Exiting and waiting\<close>

definition proc_chan :: "nat option \<Rightarrow> chan" where
  "proc_chan po = (case po of None \<Rightarrow> Chan_null | Some p \<Rightarrow> Proc_chan p)"

definition abandon_child :: "nat \<Rightarrow> nat \<Rightarrow> ('x proc_state_scheme, unit) kernel" where
  "abandon_child curproc i =
     kbind (pget parent i) (\<lambda>par.
     kwhen (par = Some curproc)
      (kbind (kgets initproc) (\<lambda>ip.
       kbind (pset (\<lambda>q. q\<lparr>parent := ip\<rparr>) i) (\<lambda>_.
       kbind (pget state i) (\<lambda>st. kwhen (st = ZOMBIE) (wakeup1 (proc_chan ip)))))))"

text \<open>\<open>exit\<close> from the point where it takes \<open>ptable.lock\<close>; the switch never comes back.\<close>

definition exit_last :: "nat \<Rightarrow> ('x proc_state_scheme, u32) kernel" where
  "exit_last curproc =
     kbind (acquire Ptable_lock) (\<lambda>_.
     kbind (pget parent curproc) (\<lambda>par.
     kbind (wakeup1 (proc_chan par)) (\<lambda>_.
     kbind (kseq (map (abandon_child curproc) [0..<NPROC])) (\<lambda>_.
     kbind (pset (\<lambda>q. q\<lparr>state := ZOMBIE\<rparr>) curproc) (\<lambda>_.
     sched_enter)))))"

definition reap :: "nat \<Rightarrow> ('x proc_state_scheme, u32) kernel" where
  "reap i =
     kbind (pget pid i) (\<lambda>pd.
     kbind (pget kstack i) (\<lambda>ks.
     kbind (pget pgdir i) (\<lambda>pgd.
     kbind (kseq
      [kfree ks,
       pset (\<lambda>q. q\<lparr>kstack := 0\<rparr>) i,
       freevm pgd,
       pset (\<lambda>q. q\<lparr>pid := 0\<rparr>) i,
       pset (\<lambda>q. q\<lparr>parent := None\<rparr>) i,
       pset (\<lambda>q. q\<lparr>name := (name q)[0 := 0]\<rparr>) i,
       pset (\<lambda>q. q\<lparr>killed := 0\<rparr>) i,
       pset (\<lambda>q. q\<lparr>state := UNUSED\<rparr>) i,
       release Ptable_lock]) (\<lambda>_. kret pd))))"

datatype wait_result = Wait_return u32 | Wait_sleeping u32

text \<open>One pass over the table.  \<open>Wait_sleeping ie\<close>: no child has exited and the process has gone to sleep.\<close>

definition wait_round :: "nat \<Rightarrow> ('x proc_state_scheme, wait_result) kernel" where
  "wait_round curproc =
     kbind (kgets (\<lambda>s. first_index (\<lambda>p. parent p = Some curproc \<and> state p = ZOMBIE) (procs s))) (\<lambda>found.
     case found of
       Some i \<Rightarrow> kbind (reap i) (\<lambda>pd. kret (Wait_return pd))
     | None \<Rightarrow>
         kbind (kgets (\<lambda>s. list_ex (\<lambda>p. parent p = Some curproc) (procs s))) (\<lambda>havekids.
         kbind (pget killed curproc) (\<lambda>k.
         if \<not> havekids \<or> k \<noteq> 0 then
           kbind (release Ptable_lock) (\<lambda>_. kret (Wait_return (-1)))
         else
           kbind (sleep_enter (Proc_chan curproc) (Some Ptable_lock)) (\<lambda>r.
           kret (Wait_sleeping (snd r))))))"

definition wait_enter :: "('x proc_state_scheme, nat \<times> wait_result) kernel" where
  "wait_enter =
     kbind myproc (\<lambda>po. kbind (deref po) (\<lambda>curproc.
     kbind (acquire Ptable_lock) (\<lambda>_.
     kbind (wait_round curproc) (\<lambda>r. kret (curproc, r)))))"

definition wait_resume :: "nat \<Rightarrow> u32 \<Rightarrow> ('x proc_state_scheme, wait_result) kernel" where
  "wait_resume curproc ie =
     kbind (sleep_exit curproc Ptable_lock ie) (\<lambda>_. wait_round curproc)"

text \<open>The end of \<open>fork\<close>: the child becomes runnable, with its parent's tickets.\<close>

definition fork_publish :: "nat \<Rightarrow> ('x proc_state_scheme, unit) kernel" where
  "fork_publish np =
     kbind (acquire Ptable_lock) (\<lambda>_.
     kbind (pset (\<lambda>q. q\<lparr>state := RUNNABLE\<rparr>) np) (\<lambda>_.
     kbind (pget parent np) (\<lambda>par. kbind (deref par) (\<lambda>pp.
     kbind (pget nice_value pp) (\<lambda>nv.
     kbind (pset (\<lambda>q. q\<lparr>nice_value := nv\<rparr>) np) (\<lambda>_.
     release Ptable_lock))))))"

section \<open>Listings\<close>

fun states :: "procstate \<Rightarrow> string" where
  "states UNUSED = ''unused''"
| "states EMBRYO = ''embryo''"
| "states SLEEPING = ''sleep ''"
| "states RUNNABLE = ''runble''"
| "states RUNNING = ''run   ''"
| "states ZOMBIE = ''zombie''"

definition cstring :: "string \<Rightarrow> fmt_arg" where
  "cstring str = Str (map (\<lambda>c. of_char c) str @ [0])"

definition procdump_slot :: "nat \<Rightarrow> ('x proc_state_scheme, unit) kernel" where
  "procdump_slot i =
     kbind (kgets (\<lambda>s. procs s ! i)) (\<lambda>p.
     kwhen (state p \<noteq> UNUSED)
      (kbind (cprintf ''%d %s %s'' [Word (pid p), cstring (states (state p)), Str (name p)]) (\<lambda>_.
       kbind (kwhen (state p = SLEEPING)
        (kbind (kload (ctxt p + 12)) (\<lambda>ebp.
         kbind (kgets (\<lambda>s. getcallerpcs (rd32 (mem s)) (ebp + 8))) (\<lambda>pc.
         kseq (map (\<lambda>a. cprintf '' %p'' [Word a]) (takeWhile (\<lambda>a. a \<noteq> 0) pc)))))) (\<lambda>_.
       cprintf ''\<newline>'' []))))"

definition procdump :: "('x proc_state_scheme, unit) kernel" where
  "procdump = kseq (map procdump_slot [0..<NPROC])"

fun tabbed :: "string list \<Rightarrow> string" where
  "tabbed [] = []"
| "tabbed [x] = x"
| "tabbed (x # y # xs) = x @ CHR 0x09 # tabbed (y # xs)"

definition cps_header :: string where
  "cps_header = tabbed [''pid'', ''ppid'', ''name'', ''state'', ''size'', ''start_time'', [],
     ''ticks'', ''sched'', ''nice'']"

definition cps_format :: string where
  "cps_format = tabbed [''%d'', ''%d'', ''%s'', ''%s'', ''%u'', ''%u-%s%u-%u %u:%u:%u'', ''%u'',
     ''%u'', ''%u'']"

definition cps_slot :: "nat \<Rightarrow> ('x proc_state_scheme, unit) kernel" where
  "cps_slot i =
     kbind (kgets (\<lambda>s. procs s ! i)) (\<lambda>p.
     kbind (kgets (\<lambda>s. case parent p of None \<Rightarrow> 1 | Some q \<Rightarrow> pid (procs s ! q))) (\<lambda>ppid.
     kwhen (state p \<noteq> UNUSED) (kseq
      [cprintf cps_format
        [Word (pid p), Word ppid, Str (name p), cstring (states (state p)), Word (sz p),
         Word (rt_year (begin_date p)), cstring (if rt_month (begin_date p) < 10 then ''0'' else ''''),
         Word (rt_month (begin_date p)), Word (rt_day (begin_date p)), Word (rt_hour (begin_date p)),
         Word (rt_minute (begin_date p)), Word (rt_second (begin_date p)),
         Word (ticks_total p), Word (sched_times p), Word (nice_value p)],
       cprintf ''\<newline>'' []])))"

definition proc_cps :: "('x proc_state_scheme, int) kernel" where
  "proc_cps = kbind (kseq
     [acquire Ptable_lock,
      cprintf cps_header [],
      cprintf ''\<newline>'' [],
      kseq (map cps_slot [0..<NPROC]),
      release Ptable_lock]) (\<lambda>_. kret 0)"

end
