(* ===== verification/Lottery.thy ===== *)
theory Lottery
  imports Proc
begin

unbundle bit_operations_syntax

text \<open>
  What the lottery of \<open>scheduler()\<close> promises, proved of the definitions of theory Proc: who wins a
  draw, how often, and what the scheduler and the routines that give up the processor do to the
  process table.
\<close>

section \<open>Tickets\<close>

text \<open>
  The tickets of a process, the tickets held by the first \<open>i\<close> processes of the table, and the
  invariant on nice values: a process that is in use has between 1 and 100.
\<close>

definition tickets :: "proc \<Rightarrow> nat" where
  "tickets p = (if state p = RUNNABLE then unat (nice_value p) else 0)"

definition all_tickets :: "proc list \<Rightarrow> nat" where
  "all_tickets ps = sum_list (map tickets ps)"

definition tickets_below :: "proc list \<Rightarrow> nat \<Rightarrow> nat" where
  "tickets_below ps i = all_tickets (take i ps)"

definition nice_ok :: "proc \<Rightarrow> bool" where
  "nice_ok p \<longleftrightarrow> state p \<in> {UNUSED, EMBRYO} \<or> 1 \<le> unat (nice_value p) \<and> unat (nice_value p) \<le> 100"

lemma all_tickets_simps [simp]:
  "all_tickets [] = 0" "all_tickets (p # ps) = tickets p + all_tickets ps"
  "all_tickets (ps @ qs) = all_tickets ps + all_tickets qs"
  by (simp_all add: all_tickets_def)

lemma tickets_le: "nice_ok p \<Longrightarrow> tickets p \<le> 100"
  by (auto simp: nice_ok_def tickets_def)

lemma tickets_pos: "nice_ok p \<Longrightarrow> 0 < tickets p \<longleftrightarrow> state p = RUNNABLE"
  by (auto simp: nice_ok_def tickets_def)

lemma all_tickets_le: "list_all nice_ok ps \<Longrightarrow> all_tickets ps \<le> 100 * length ps"
  by (induction ps) (auto dest: tickets_le)

lemma tickets_below_Suc: "i < length ps \<Longrightarrow> tickets_below ps (Suc i) = tickets_below ps i + tickets (ps ! i)"
  by (simp add: tickets_below_def take_Suc_conv_app_nth)

lemma tickets_below_0 [simp]: "tickets_below ps 0 = 0"
  by (simp add: tickets_below_def)

lemma tickets_below_mono: "i \<le> j \<Longrightarrow> tickets_below ps i \<le> tickets_below ps j"
proof -
  assume "i \<le> j"
  then have "take j ps = take i ps @ take (j - i) (drop i ps)"
    by (metis le_add_diff_inverse take_add)
  then show ?thesis
    by (simp add: tickets_below_def)
qed

lemma tickets_below_all: "tickets_below ps (length ps) = all_tickets ps"
  by (simp add: tickets_below_def)

lemma nice_total_add:
  "unat acc + all_tickets ps < 2 ^ 32 \<Longrightarrow> unat (nice_total ps acc) = unat acc + all_tickets ps"
proof (induction ps arbitrary: acc)
  case (Cons p ps)
  then have "state p = RUNNABLE \<Longrightarrow> unat (acc + nice_value p) = unat acc + unat (nice_value p)"
    by (intro unat_add_lem[THEN iffD1]) (simp add: tickets_def)
  then show ?case
    using Cons.IH[of acc] Cons.IH[of "acc + nice_value p"] Cons.prems
    by (cases "state p = RUNNABLE") (simp_all add: tickets_def)
qed simp

text \<open>The scan finds the process whose interval of tickets contains the number drawn.\<close>

lemma lottery_loop_index: "lottery_loop r ps i c = map_option (\<lambda>j. i + j) (lottery_loop r ps 0 c)"
proof (induction ps arbitrary: i c)
  case (Cons p ps)
  show ?case
    using Cons.IH[of "Suc i"] Cons.IH[of "Suc 0"] by (auto simp: option.map_comp comp_def)
qed simp

lemma lottery_loop_Some:
  assumes "unat acc + all_tickets ps < 2 ^ 32" and "unat acc < unat r"
  shows "lottery_loop r ps 0 acc = Some i \<longleftrightarrow> i < length ps \<and> state (ps ! i) = RUNNABLE \<and>
    unat acc + tickets_below ps i < unat r \<and> unat r \<le> unat acc + tickets_below ps (Suc i)"
  using assms
proof (induction ps arbitrary: acc i)
  case (Cons p ps)
  define n where "n = tickets p"
  have below: "tickets_below (p # ps) 0 = 0" "tickets_below (p # ps) (Suc j) = n + tickets_below ps j" for j
    by (simp_all add: tickets_below_def n_def)
  have acc: "unat (acc + of_nat n) = unat acc + n" "unat acc + n + all_tickets ps < 2 ^ 32"
    using Cons.prems(1) unsigned_less[of acc, where 'a = nat]
    by (auto simp: n_def unat_word_ariths unat_of_nat)
  have step: "lottery_loop r (p # ps) 0 acc =
    (if state p = RUNNABLE \<and> unat r \<le> unat acc + n then Some 0
     else map_option Suc (lottery_loop r ps 0 (acc + of_nat n)))"
    using lottery_loop_index[of r ps "Suc 0"] acc(1)
    by (auto simp: n_def tickets_def word_less_nat_alt not_less)
  show ?case
  proof (cases "state p = RUNNABLE \<and> unat r \<le> unat acc + n")
    case True
    then show ?thesis
      using Cons.prems(2) tickets_below_mono[of 0] unfolding step
      by (cases i) (auto simp: below)
  next
    case False
    then have less: "unat (acc + of_nat n) < unat r"
      using Cons.prems(2) acc(1) by (auto simp: n_def tickets_def)
    have IH: "lottery_loop r ps 0 (acc + of_nat n) = Some j \<longleftrightarrow> j < length ps \<and> state (ps ! j) = RUNNABLE \<and>
        unat acc + n + tickets_below ps j < unat r \<and> unat r \<le> unat acc + n + tickets_below ps (Suc j)" for j
      using Cons.IH[of "acc + of_nat n" j] acc less by simp
    show ?thesis
    proof (cases i)
      case 0
      then show ?thesis
        using False unfolding step by (auto simp: below)
    next
      case (Suc j)
      then show ?thesis
        using False IH[of j] unfolding step by (auto simp: below)
    qed
  qed
qed simp

section \<open>The draw\<close>

lemma nice_total_run:
  assumes "list_all nice_ok (procs s)" and "length (procs s) \<le> NPROC"
  shows "unat (nice_total (procs s) 0) = all_tickets (procs s)" and "all_tickets (procs s) \<le> 6400"
proof -
  show le: "all_tickets (procs s) \<le> 6400"
    using all_tickets_le[OF assms(1)] assms(2) by simp
  then show "unat (nice_total (procs s) 0) = all_tickets (procs s)"
    using nice_total_add[of 0 "procs s"] by simp
qed

lemma sint_small:
  assumes "unat (x :: u32) < 2 ^ 31"
  shows "sint x = uint x" and "0 <s x \<longleftrightarrow> x \<noteq> 0"
proof -
  have "uint x < 2 ^ 31"
    using assms unfolding uint_nat by (metis of_nat_less_iff of_nat_numeral of_nat_power)
  then show eq: "sint x = uint x"
    using order_trans[OF _ uint_ge_0[of x], of "- (2 ^ 31)"]
    by (simp add: sint_uint signed_take_bit_int_eq_self)
  show "0 <s x \<longleftrightarrow> x \<noteq> 0"
    unfolding word_sless_alt eq by (auto simp: less_le uint_0_iff)
qed

lemma lottery_draw_run:
  assumes "list_all nice_ok (procs s)" and "length (procs s) \<le> NPROC"
  defines "r \<equiv> rand (rand_state s)"
  shows "lottery_draw s =
    (if all_tickets (procs s) = 0 then Inr (None, s)
     else Inr (lottery_loop (fst r mod nice_total (procs s) 0 + 1) (procs s) 0 0, s\<lparr>rand_state := snd r\<rparr>))"
proof -
  have "0 <s nice_total (procs s) 0 \<longleftrightarrow> all_tickets (procs s) \<noteq> 0"
    using nice_total_run[OF assms(1,2)] sint_small(2)[of "nice_total (procs s) 0"]
    by (simp add: unat_eq_0[symmetric])
  then show ?thesis
    by (simp add: lottery_draw_def nice_sum_def krand_def r_def kbind_def)
qed

lemma lottery_draw_winner:
  assumes "list_all nice_ok (procs s)" and "length (procs s) \<le> NPROC" and "0 < all_tickets (procs s)"
  defines "v \<equiv> unat (fst (rand (rand_state s))) mod all_tickets (procs s)"
  shows "(\<exists>t. lottery_draw s = Inr (Some i, t)) \<longleftrightarrow> i < length (procs s) \<and>
    state (procs s ! i) = RUNNABLE \<and>
    tickets_below (procs s) i \<le> v \<and> v < tickets_below (procs s) i + tickets (procs s ! i)"
proof -
  let ?T = "nice_total (procs s) 0"
  let ?r = "fst (rand (rand_state s)) mod ?T"
  note T = nice_total_run[OF assms(1,2)]
  have v: "unat ?r = v" "v < all_tickets (procs s)"
    using T(1) assms(3) by (simp_all add: v_def unat_mod)
  then have r1: "unat (?r + 1) = v + 1"
    using T(2) by (intro trans[OF unat_add_lem[THEN iffD1]]) simp_all
  have "(\<exists>t. lottery_draw s = Inr (Some i, t)) \<longleftrightarrow> lottery_loop (?r + 1) (procs s) 0 0 = Some i"
    using lottery_draw_run[OF assms(1,2)] assms(3) by simp
  also have "\<dots> \<longleftrightarrow> i < length (procs s) \<and> state (procs s ! i) = RUNNABLE \<and>
      tickets_below (procs s) i < v + 1 \<and> v + 1 \<le> tickets_below (procs s) (Suc i)"
    using lottery_loop_Some[of 0 "procs s" "?r + 1" i] T(2) r1 by simp
  finally show ?thesis
    by (auto simp: tickets_below_Suc)
qed

text \<open>Someone always wins.\<close>

lemma ticket_interval:
  assumes "v < all_tickets ps"
  shows "\<exists>i<length ps. tickets_below ps i \<le> v \<and> v < tickets_below ps i + tickets (ps ! i)"
  using assms
proof (induction ps rule: rev_induct)
  case (snoc p ps)
  show ?case
  proof (cases "v < all_tickets ps")
    case True
    then show ?thesis
      using snoc.IH by (auto simp: nth_append tickets_below_def less_SucI)
  next
    case False
    then show ?thesis
      using snoc.prems by (intro exI[of _ "length ps"]) (simp add: tickets_below_def)
  qed
qed simp

lemma lottery_draw_total:
  assumes "list_all nice_ok (procs s)" and "length (procs s) \<le> NPROC"
  shows "\<exists>w t. lottery_draw s = Inr (w, t) \<and> (\<exists>r. t = s\<lparr>rand_state := r\<rparr>) \<and>
    (case w of None \<Rightarrow> \<forall>p\<in>set (procs s). state p \<noteq> RUNNABLE
     | Some i \<Rightarrow> i < length (procs s) \<and> state (procs s ! i) = RUNNABLE)"
proof (cases "all_tickets (procs s) = 0")
  case True
  then have "state p \<noteq> RUNNABLE" if "p \<in> set (procs s)" for p
    using that tickets_pos[of p] assms(1) by (auto simp: list_all_iff all_tickets_def)
  moreover have "\<exists>r. s = s\<lparr>rand_state := r\<rparr>"
    by (intro exI[of _ "rand_state s"]) simp
  ultimately show ?thesis
    using lottery_draw_run[OF assms] True by auto
next
  case False
  then have "unat (fst (rand (rand_state s))) mod all_tickets (procs s) < all_tickets (procs s)"
    by simp
  from ticket_interval[OF this] obtain i where i: "i < length (procs s)"
    "tickets_below (procs s) i \<le> unat (fst (rand (rand_state s))) mod all_tickets (procs s)"
    "unat (fst (rand (rand_state s))) mod all_tickets (procs s) <
      tickets_below (procs s) i + tickets (procs s ! i)"
    by blast
  then have "state (procs s ! i) = RUNNABLE"
    by (auto simp: tickets_def split: if_splits)
  then have "\<exists>t. lottery_draw s = Inr (Some i, t)"
    using lottery_draw_winner[OF assms, of i] i False by simp
  then show ?thesis
    using i(1) \<open>state (procs s ! i) = RUNNABLE\<close> lottery_draw_run[OF assms] False by auto
qed

section \<open>Fairness\<close>

lemma card_residue:
  fixes M T j :: nat
  assumes "j < T"
  shows "M div T \<le> card {v \<in> {..<M}. v mod T = j}" and "card {v \<in> {..<M}. v mod T = j} \<le> M div T + 1"
proof -
  let ?f = "\<lambda>q. q * T + j"
  have T: "0 < T" using assms by simp
  have inj: "inj_on ?f A" for A
    using T by (intro inj_onI) simp
  have "?f ` {..<M div T} \<subseteq> {v \<in> {..<M}. v mod T = j}"
  proof (intro image_subsetI)
    fix q assume "q \<in> {..<M div T}"
    then have "Suc q * T \<le> M div T * T"
      by (intro mult_le_mono1) simp
    also have "\<dots> \<le> M" by simp
    finally show "q * T + j \<in> {v \<in> {..<M}. v mod T = j}"
      using assms by simp
  qed
  from card_mono[OF _ this] show "M div T \<le> card {v \<in> {..<M}. v mod T = j}"
    by (simp add: card_image[OF inj])
  have "{v \<in> {..<M}. v mod T = j} \<subseteq> ?f ` {..M div T}"
  proof
    fix v assume v: "v \<in> {v \<in> {..<M}. v mod T = j}"
    then have "v = ?f (v div T)" and "v div T \<le> M div T"
      by (auto simp: div_mult_mod_eq intro: div_le_mono)
    then show "v \<in> ?f ` {..M div T}" by blast
  qed
  from card_mono[OF _ this] show "card {v \<in> {..<M}. v mod T = j} \<le> M div T + 1"
    by (simp add: card_image[OF inj])
qed

lemma card_residues:
  fixes M T L n :: nat
  assumes "L + n \<le> T"
  shows "n * (M div T) \<le> card {v \<in> {..<M}. L \<le> v mod T \<and> v mod T < L + n}"
    and "card {v \<in> {..<M}. L \<le> v mod T \<and> v mod T < L + n} \<le> n * (M div T + 1)"
proof -
  have "{v \<in> {..<M}. L \<le> v mod T \<and> v mod T < L + n} = (\<Union>j\<in>{L..<L + n}. {v \<in> {..<M}. v mod T = j})"
    by auto
  then have eq: "card {v \<in> {..<M}. L \<le> v mod T \<and> v mod T < L + n} =
      (\<Sum>j\<in>{L..<L + n}. card {v \<in> {..<M}. v mod T = j})"
    by (simp only:) (rule card_UN_disjoint; auto)
  have "(\<Sum>j\<in>{L..<L + n}. M div T) \<le> (\<Sum>j\<in>{L..<L + n}. card {v \<in> {..<M}. v mod T = j})"
    using assms by (intro sum_mono card_residue(1)) simp
  then show "n * (M div T) \<le> card {v \<in> {..<M}. L \<le> v mod T \<and> v mod T < L + n}"
    unfolding eq by simp
  have "(\<Sum>j\<in>{L..<L + n}. card {v \<in> {..<M}. v mod T = j}) \<le> (\<Sum>j\<in>{L..<L + n}. M div T + 1)"
    using assms by (intro sum_mono card_residue(2)) simp
  then show "card {v \<in> {..<M}. L \<le> v mod T \<and> v mod T < L + n} \<le> n * (M div T + 1)"
    unfolding eq by simp
qed

lemma card_rand_values:
  assumes "V \<subseteq> {..<65536}"
  shows "card {w. unat (fst (rand w)) \<in> V} = 65536 * card V"
proof -
  have "{w. unat (fst (rand w)) \<in> V} = (\<Union>v\<in>V. {w. unat (fst (rand w)) = v})"
    by auto
  moreover have "card (\<Union>v\<in>V. {w. unat (fst (rand w)) = v}) = (\<Sum>v\<in>V. card {w. unat (fst (rand w)) = v})"
    using assms finite_subset by (intro card_UN_disjoint) auto
  moreover have "(\<Sum>v\<in>V. card {w. unat (fst (rand w)) = v}) = (\<Sum>v\<in>V. 65536)"
    using assms by (intro sum.cong refl card_rand_value) auto
  ultimately show ?thesis
    by simp
qed

text \<open>The generator states in which a draw picks process \<open>i\<close>.\<close>

lemma card_winning_states:
  assumes ok: "list_all nice_ok (procs s)" "length (procs s) \<le> NPROC"
    and i: "i < length (procs s)" "state (procs s ! i) = RUNNABLE"
  defines "W \<equiv> {w. \<exists>t. lottery_draw (s\<lparr>rand_state := w\<rparr>) = Inr (Some i, t)}"
    and "T \<equiv> all_tickets (procs s)" and "n \<equiv> tickets (procs s ! i)"
  shows "65536 * (n * (65536 div T)) \<le> card W" and "card W \<le> 65536 * (n * (65536 div T + 1))"
proof -
  let ?L = "tickets_below (procs s) i"
  let ?V = "{v \<in> {..<65536}. ?L \<le> v mod T \<and> v mod T < ?L + n}"
  have n: "0 < n"
    using i ok tickets_pos[of "procs s ! i"] by (simp add: n_def list_all_length)
  have LT: "?L + n \<le> T"
    using tickets_below_mono[of "Suc i" "length (procs s)" "procs s"] i(1)
    by (simp add: T_def n_def tickets_below_Suc) (simp add: tickets_below_def)
  have "w \<in> W \<longleftrightarrow> unat (fst (rand w)) \<in> ?V" for w
    using lottery_draw_winner[of "s\<lparr>rand_state := w\<rparr>" i] ok i LT n rand_less[of w]
    by (simp add: W_def T_def n_def)
  then have "W = {w. unat (fst (rand w)) \<in> ?V}"
    by blast
  moreover have "?V \<subseteq> {..<65536}"
    by blast
  ultimately have "card W = 65536 * card ?V"
    using card_rand_values[of ?V] by simp
  then show "65536 * (n * (65536 div T)) \<le> card W" "card W \<le> 65536 * (n * (65536 div T + 1))"
    using card_residues[OF LT, of 65536] by simp_all
qed


section \<open>The process table across a routine\<close>

text \<open>
  \<open>core s\<close>: everything above the machine level, the process each processor runs, and which
  processor this is.  Locking and interrupt nesting leave it alone.
\<close>

definition core :: "'x mach_scheme \<Rightarrow> 'x \<times> nat option list \<times> nat option \<times> nat" where
  "core s = (mach.more s, map cpu_proc (cpus s), this_cpu s, this s)"

lemma core_upd [simp]:
  "(\<And>x. cpu_proc (f x) = cpu_proc x) \<Longrightarrow> (\<And>x. apicid (f x) = apicid x) \<Longrightarrow> core (upd_cpu i f s) = core s"
  "core (upd_lock l g s) = core s"
  by (simp_all add: core_def, simp_all add: mach_defs map_update)
    (metis list_update_id map_update)

lemma core_upd_hw [simp]:
  assumes "\<And>x. lapic_reg (f x) = lapic_reg x"
  shows "core (upd_hw f s) = core s"
proof -
  have "this_cpu (upd_hw f s) = this_cpu s"
    by (rule this_cpu_cong) (simp_all add: upd_hw_def assms)
  then show ?thesis
    by (simp add: core_def) (simp add: upd_hw_def)
qed

lemma core_mycpu_upd [keeps_intros]:
  "(\<And>x. cpu_proc (f x) = cpu_proc x) \<Longrightarrow> (\<And>x. apicid (f x) = apicid x) \<Longrightarrow> keeps core (mycpu_upd f)"
  unfolding mycpu_upd_def by (intro keeps_intros core_upd)

lemma core_cli_sti [keeps_intros, intro]: "keeps core cli" "keeps core sti"
  unfolding cli_def sti_def by (intro keeps_intros, simp)+

lemma core_pushcli [keeps_intros, intro]: "keeps core pushcli"
  unfolding pushcli_def by (intro keeps_intros) (auto intro!: keeps_intros)

lemma core_popcli [keeps_intros, intro]: "keeps core popcli"
  unfolding popcli_def by (intro keeps_intros) simp_all

lemma core_holding [keeps_intros, intro]: "keeps core (holding l)"
  unfolding holding_def by (intro keeps_intros)

lemma core_acquire [keeps_intros, intro]: "keeps core (acquire l)"
  unfolding acquire_def xchg_spin_def by (intro keeps_intros) (auto intro!: keeps_intros)

lemma core_release [keeps_intros, intro]: "keeps core (release l)"
  unfolding release_def by (intro keeps_intros) (auto intro!: keeps_intros)

lemma core_lcr3_ltr [keeps_intros, intro]: "keeps core (lcr3 v)" "keeps core (ltr sel)"
  unfolding lcr3_def ltr_def by (intro keeps_intros, simp)+

lemma core_switchuvm [keeps_intros, intro]: "keeps core (switchuvm po)"
  unfolding switchuvm_def by (cases po) (auto intro!: keeps_intros)

lemma core_switchkvm [keeps_intros, intro]: "keeps core switchkvm"
  unfolding switchkvm_def by (intro keeps_intros)

lemma core_myproc [keeps_intros, intro]: "keeps core myproc"
  unfolding myproc_def by (intro keeps_intros)

lemma core_uptime [keeps_intros, intro]: "keeps core uptime"
  unfolding uptime_def by (intro keeps_intros)

lemma core_sched_exit [keeps_intros, intro]: "keeps core (sched_exit ie)"
  unfolding sched_exit_def by (intro keeps_intros) simp_all

abbreviation (input) runs :: "'x mach_scheme \<Rightarrow> nat option list" where
  "runs s \<equiv> map cpu_proc (cpus s)"

text \<open>The process table proper: what the routines of \<open>src/proc.c\<close> change of it.\<close>

definition ptable :: "'x proc_state_scheme \<Rightarrow> proc list \<times> nat option list \<times> nat option \<times> nat \<times> u32 \<times> nat option" where
  "ptable s = (procs s, runs s, this_cpu s, this s, nextpid s, initproc s)"

lemma ptable_core: "core t = core s \<Longrightarrow> ptable t = ptable s \<and> ticks t = ticks s \<and> rand_state t = rand_state s"
  by (cases s; cases t) (simp add: core_def ptable_def)

lemma keeps_ptable: "keeps core m \<Longrightarrow> keeps ptable m"
  by (meson keepsD keepsI ptable_core)

lemma ptable_upd [simp]:
  "ptable (upd_proc i f s) = (case ptable s of (ps, r) \<Rightarrow> (ps[i := f (ps ! i)], r))"
  "ptable (s\<lparr>rand_state := v\<rparr>) = ptable s"
  "ptable (s\<lparr>mem := m\<rparr>) = ptable s"
  by (simp_all add: ptable_def upd_proc_def this_cpu_def lapic_id_def)

lemma ptable_upd_cpu [simp]:
  "ptable (upd_cpu c (\<lambda>x. x\<lparr>cpu_proc := v\<rparr>) s) = (case ptable s of (ps, rs, r) \<Rightarrow> (ps, rs[c := v], r))"
  by (simp add: ptable_def) (simp add: upd_cpu_def map_update)

lemma ptable_procs: "ptable t = ptable s \<Longrightarrow> procs t = procs s"
  by (simp add: ptable_def)

lemma pset_run [simp]: "pset f i s = Inr ((), upd_proc i f s)"
  by (simp add: pset_def)

lemma bind_pset [simp]: "kbind (pset f i) g s = g () (upd_proc i f s)"
  by (simp add: pset_def)

lemma bind_pget [simp]: "kbind (pget g i) f s = f (g (procs s ! i)) s"
  by (simp add: pget_def)

lemma lottery_loop_runnable:
  "lottery_loop r ps k acc = Some i \<Longrightarrow> k \<le> i \<and> i - k < length ps \<and> state (ps ! (i - k)) = RUNNABLE"
proof (induction ps arbitrary: k acc)
  case (Cons p ps)
  then show ?case
    by (fastforce split: if_splits simp: Suc_diff_le Suc_le_eq nth_Cons' dest: Suc_le_lessD)
qed simp

lemma lottery_draw_spec:
  assumes "lottery_draw s = Inr (w, t)"
  shows "ptable t = ptable s"
    and "w = Some i \<Longrightarrow> i < length (procs s) \<and> state (procs s ! i) = RUNNABLE"
proof -
  have "lottery_draw s = (if 0 <s nice_total (procs s) 0
      then Inr (lottery_loop (fst (rand (rand_state s)) mod nice_total (procs s) 0 + 1) (procs s) 0 0,
        s\<lparr>rand_state := snd (rand (rand_state s))\<rparr>) else Inr (None, s))"
    by (simp add: lottery_draw_def nice_sum_def krand_def kbind_def)
  then show "ptable t = ptable s"
    "w = Some i \<Longrightarrow> i < length (procs s) \<and> state (procs s ! i) = RUNNABLE"
    using assms lottery_loop_runnable[of _ "procs s" 0 0 i] by (auto split: if_splits)
qed

text \<open>What the scheduler does to the table, when it returns.\<close>

definition dispatched :: "u32 \<Rightarrow> proc \<Rightarrow> proc" where
  "dispatched x p = p\<lparr>state := RUNNING, ticks_begin := x, sched_times := sched_times p + 1\<rparr>"

lemma scheduler_pick_spec:
  "kpost (scheduler_pick c) s (\<lambda>w t. case w of None \<Rightarrow> ptable t = ptable s
    | Some i \<Rightarrow> i < length (procs s) \<and> state (procs s ! i) = RUNNABLE \<and>
        (\<exists>x. ptable t = ((procs s)[i := dispatched x (procs s ! i)], (runs s)[c := Some i],
          this_cpu s, this s, nextpid s, initproc s)))"
  unfolding scheduler_pick_def kpost_simps
proof (rule kpost_keeps[OF keeps_ptable[OF core_cli_sti(2)]], rule kpost_keeps[OF keeps_ptable[OF core_acquire]],
    rule kpostI)
  fix s1 s2 s3 :: "'x proc_state_scheme" and w
  assume 1: "ptable s1 = ptable s" "ptable s2 = ptable s1" and d: "lottery_draw s2 = Inr (w, s3)"
  show "kpost (case w of None \<Rightarrow> kbind (release Ptable_lock) (\<lambda>_. kret None) | Some p \<Rightarrow>
         kbind (kmodify (upd_cpu c (\<lambda>x. x\<lparr>cpu_proc := Some p\<rparr>))) (\<lambda>_.
         kbind (kgets (\<lambda>s. procs s ! p)) (\<lambda>pr.
         kbind (switchuvm (Some pr)) (\<lambda>_.
         kbind (pset (\<lambda>q. q\<lparr>state := RUNNING\<rparr>) p) (\<lambda>_.
         kbind uptime (\<lambda>t.
         kbind (pset (\<lambda>q. q\<lparr>ticks_begin := t\<rparr>) p) (\<lambda>_.
         kbind (pset (\<lambda>q. q\<lparr>sched_times := sched_times q + 1\<rparr>) p) (\<lambda>_.
         kret (Some p))))))))) s3 (\<lambda>w t. case w of None \<Rightarrow> ptable t = ptable s
    | Some i \<Rightarrow> i < length (procs s) \<and> state (procs s ! i) = RUNNABLE \<and>
        (\<exists>x. ptable t = ((procs s)[i := dispatched x (procs s ! i)], (runs s)[c := Some i],
          this_cpu s, this s, nextpid s, initproc s)))"
  proof (cases w)
    case None
    then show ?thesis
      using 1 lottery_draw_spec(1)[OF d]
      by (simp add: kpost_simps) (rule kpost_keeps[OF keeps_ptable[OF core_release]], simp)
  next
    case (Some i)
    have i: "i < length (procs s)" "state (procs s ! i) = RUNNABLE" and pt: "ptable s3 = ptable s"
      using lottery_draw_spec[OF d] 1 Some ptable_procs[of s2 s] by simp_all
    then have "ptable s3 = (procs s, runs s, this_cpu s, this s, nextpid s, initproc s)"
      by (simp add: ptable_def)
    with i show ?thesis unfolding Some
      by (simp add: kpost_simps pset_def)
        (rule kpost_keeps[OF keeps_ptable[OF core_switchuvm]],
         rule kpost_keeps[OF keeps_ptable[OF core_uptime]],
         auto simp: dispatched_def)
  qed
qed

section \<open>Properties\<close>

text \<open>
  C15: the lottery is fair.  Take any table whose processes in use have between 1 and 100 tickets and
  let \<open>T\<close> be the number of tickets of the runnable ones.  Over a full period of the generator, from
  any seed, a runnable process with \<open>n\<close> tickets wins between \<open>n * (65536 div T)\<close> and
  \<open>n * (65536 div T + 1)\<close> of every 65536 draws: its share is proportional to its tickets up to
  the rounding of \<open>65536 div T\<close>, which is at least 10.  So it cannot starve: within one period it
  does win.
\<close>
theorem lottery_fair:
  fixes seed :: u32
  assumes "list_all nice_ok (procs s)" and "length (procs s) \<le> NPROC"
    and "i < length (procs s)" and "state (procs s ! i) = RUNNABLE"
  defines "T \<equiv> all_tickets (procs s)" and "n \<equiv> unat (nice_value (procs s ! i))"
  defines "wins \<equiv> card {k \<in> {..<2 ^ 32}. \<exists>t.
      lottery_draw (s\<lparr>rand_state := (rand_next ^^ k) seed\<rparr>) = Inr (Some i, t)}"
  shows "65536 * (n * (65536 div T)) \<le> wins \<and> wins \<le> 65536 * (n * (65536 div T + 1)) \<and>
    10 \<le> 65536 div T \<and> 0 < wins"
proof -
  let ?P = "\<lambda>w. \<exists>t. lottery_draw (s\<lparr>rand_state := w\<rparr>) = Inr (Some i, t)"
  have n: "n = tickets (procs s ! i)" "0 < n"
    using assms(1,3,4) tickets_pos[of "procs s ! i"]
    by (auto simp: n_def tickets_def list_all_length)
  have "wins = card {w. ?P w}"
    unfolding wins_def using card_bij_filter[OF bij_betw_orbit, of ?P seed] .
  then have b: "65536 * (n * (65536 div T)) \<le> wins" "wins \<le> 65536 * (n * (65536 div T + 1))"
    using card_winning_states[OF assms(1-4)] by (simp_all add: n(1) T_def)
  have "T \<le> 6400"
    using nice_total_run(2)[OF assms(1,2)] by (simp add: T_def)
  moreover have "tickets (procs s ! i) \<le> T"
    using tickets_below_mono[of "Suc i" "length (procs s)" "procs s"] assms(3)
    by (simp add: T_def tickets_below_Suc) (simp add: tickets_below_def)
  ultimately have "10 \<le> 65536 div T"
    using n div_le_mono2[of T 6400 65536] by simp
  moreover from this have "0 < wins"
    using b(1) n(2) by (intro less_le_trans[OF _ b(1)]) simp
  ultimately show ?thesis
    using b by blast
qed

text \<open>A table with two runnable processes, of 30 and 10 tickets.\<close>

definition proc0 :: proc where
  "proc0 = \<lparr>sz = 0, pgdir = 0, kstack = 0, state = UNUSED, pid = 0, parent = None, tf = 0, ctxt = 0,
     chan = Chan_null, killed = 0, ofile = replicate 16 None, cwd = None, name = replicate 16 0,
     begin_date = \<lparr>rt_second = 0, rt_minute = 0, rt_hour = 0, rt_day = 0, rt_month = 0, rt_year = 0\<rparr>,
     ticks_total = 0, ticks_begin = 0, sched_times = 0, nice_value = 0\<rparr>"

definition procs2 :: "proc list" where
  "procs2 =
     [proc0\<lparr>state := RUNNABLE, pid := 1, nice_value := 30, kstack := 0x80500000, pgdir := 0x80501000\<rparr>,
      proc0\<lparr>state := RUNNABLE, pid := 2, nice_value := 10, kstack := 0x80502000, pgdir := 0x80503000\<rparr>] @
     replicate 62 proc0"

definition proc2 :: "'x \<Rightarrow> 'x proc_state_scheme" where
  "proc2 x = cons1 \<lparr>kpgdir = 0x803FF000, kdata = 0x80108000, procs = procs2, nextpid = 3,
     initproc = Some 0, ticks = 7, rand_state = 1, first = False, clock = (\<lambda>_. 0), clock_reads = [],
     trapret_addr = 0x80105A00, forkret_addr = 0x80103A00, \<dots> = x\<rparr>"

lemma proc2_procs: "procs (proc2 x) = procs2"
  by (simp add: proc2_def cons1_def kmem3_def mach2_def)

lemma procs2_ok: "list_all nice_ok procs2" "length procs2 = NPROC"
  by (simp_all add: procs2_def list_all_iff nice_ok_def proc0_def)

lemma procs2_tickets: "all_tickets procs2 = 40"
proof -
  have "all_tickets (replicate n proc0) = 0" for n
    by (induction n) (simp_all add: tickets_def proc0_def)
  then show ?thesis
    by (simp add: procs2_def) (simp add: tickets_def proc0_def)
qed

theorem lottery_fair_witness:
  "65536 * (30 * 1638) \<le> card {k \<in> {..<2 ^ 32}. \<exists>t.
      lottery_draw ((proc2 ())\<lparr>rand_state := (rand_next ^^ k) next_init\<rparr>) = Inr (Some 0, t)}"
proof -
  have p: "procs (proc2 ()) = procs2" "procs2 ! 0 = proc0\<lparr>state := RUNNABLE, pid := 1, nice_value := 30,
      kstack := 0x80500000, pgdir := 0x80501000\<rparr>"
    by (simp add: proc2_procs) (simp add: procs2_def)
  have "65536 * (unat (nice_value (procs (proc2 ()) ! 0)) * (65536 div all_tickets (procs (proc2 ())))) \<le>
      card {k \<in> {..<2 ^ 32}. \<exists>t.
        lottery_draw ((proc2 ())\<lparr>rand_state := (rand_next ^^ k) next_init\<rparr>) = Inr (Some 0, t)}"
    using lottery_fair[of "proc2 ()" 0 next_init] procs2_ok
    unfolding p(1) by (simp only: p(2)) simp
  then show ?thesis
    unfolding p by (simp add: procs2_tickets)
qed

end
