(* ===== verification/Sleeplock.thy ===== *)
theory Sleeplock
  imports Proc
begin

unbundle bit_operations_syntax

text \<open>
  Sleep locks, \<open>src/sleeplock.c\<close>.  A sleep lock is identified with the spin lock inside it
  (\<open>Buf_lk i\<close> of buffer \<open>i\<close>, \<open>Inode_lk i\<close> of inode \<open>i\<close>).  \<open>acquiresleep\<close> waits by sleeping; the
  part up to the sleep and the part after it are also given on their own.
\<close>

record sleeplock =
  sl_locked :: u32
  sl_name :: string
  sl_pid :: u32

record sl_state = proc_state +
  sleeplocks :: "lockid \<Rightarrow> sleeplock"

definition upd_sl :: "lockid \<Rightarrow> (sleeplock \<Rightarrow> sleeplock) \<Rightarrow> 'x sl_state_scheme \<Rightarrow> 'x sl_state_scheme" where
  "upd_sl l f s = s\<lparr>sleeplocks := (sleeplocks s)(l := f (sleeplocks s l))\<rparr>"

definition initsleeplock :: "lockid \<Rightarrow> string \<Rightarrow> ('x sl_state_scheme, unit) kernel" where
  "initsleeplock l nm = kseq
    [initlock l ''sleep lock'',
     kmodify (upd_sl l (\<lambda>k. k\<lparr>sl_name := nm\<rparr>)),
     kmodify (upd_sl l (\<lambda>k. k\<lparr>sl_locked := 0\<rparr>)),
     kmodify (upd_sl l (\<lambda>k. k\<lparr>sl_pid := 0\<rparr>))]"

text \<open>\<open>myproc()->pid\<close>\<close>

definition mypid :: "('x proc_state_scheme, u32) kernel" where
  "mypid = kbind myproc (\<lambda>po. kbind (deref po) (\<lambda>p. pget pid p))"

definition take_sleeplock :: "lockid \<Rightarrow> ('x sl_state_scheme, unit) kernel" where
  "take_sleeplock l =
     kbind (kmodify (upd_sl l (\<lambda>k. k\<lparr>sl_locked := 1\<rparr>))) (\<lambda>_.
     kbind mypid (\<lambda>p.
     kbind (kmodify (upd_sl l (\<lambda>k. k\<lparr>sl_pid := p\<rparr>))) (\<lambda>_. release l)))"

text \<open>
  One test of the loop condition: \<open>None\<close> when the lock has been taken, and what \<open>sleep_enter\<close>
  returned when the process has gone to sleep.
\<close>

definition acquiresleep_try :: "lockid \<Rightarrow> ('x sl_state_scheme, (nat \<times> u32) option) kernel" where
  "acquiresleep_try l =
     kbind (kgets (\<lambda>s. sl_locked (sleeplocks s l))) (\<lambda>k.
     if k \<noteq> 0 then kbind (sleep_enter (Sleeplock_chan l) (Some l)) (\<lambda>r. kret (Some r))
     else kbind (take_sleeplock l) (\<lambda>_. kret None))"

definition acquiresleep_enter :: "lockid \<Rightarrow> ('x sl_state_scheme, (nat \<times> u32) option) kernel" where
  "acquiresleep_enter l = kbind (acquire l) (\<lambda>_. acquiresleep_try l)"

definition acquiresleep_resume :: "lockid \<Rightarrow> nat \<times> u32 \<Rightarrow> ('x sl_state_scheme, (nat \<times> u32) option) kernel" where
  "acquiresleep_resume l r = kbind (sleep_exit (fst r) l (snd r)) (\<lambda>_. acquiresleep_try l)"

text \<open>The call as a whole: it ends in \<open>Blocked\<close> when it has to wait.\<close>

definition acquiresleep :: "lockid \<Rightarrow> ('x sl_state_scheme, unit) kernel" where
  "acquiresleep l =
     kbind (acquiresleep_enter l) (\<lambda>r. case r of None \<Rightarrow> kret () | Some _ \<Rightarrow> kstop Blocked)"

definition releasesleep :: "lockid \<Rightarrow> ('x sl_state_scheme, unit) kernel" where
  "releasesleep l = kseq
    [acquire l,
     kmodify (upd_sl l (\<lambda>k. k\<lparr>sl_locked := 0\<rparr>)),
     kmodify (upd_sl l (\<lambda>k. k\<lparr>sl_pid := 0\<rparr>)),
     wakeup (Sleeplock_chan l),
     release l]"

definition holdingsleep :: "lockid \<Rightarrow> ('x sl_state_scheme, bool) kernel" where
  "holdingsleep l =
     kbind (acquire l) (\<lambda>_.
     kbind (kgets (\<lambda>s. sleeplocks s l)) (\<lambda>k.
     kbind (if sl_locked k \<noteq> 0 then kbind mypid (\<lambda>p. kret (sl_pid k = p)) else kret False) (\<lambda>r.
     kbind (release l) (\<lambda>_. kret r))))"

end
