(* ===== verification/Bio.thy ===== *)
theory Bio
  imports Sleeplock
begin

unbundle bit_operations_syntax

text \<open>
  Disk blocks and the buffer cache: \<open>struct buf\<close> of \<open>src/buf.h\<close>, the disk of \<open>src/memide.c\<close> and
  \<open>src/bio.c\<close>.  Buffer \<open>i\<close> is entry \<open>i\<close> of \<open>bcache.buf\<close>; index \<open>NBUF\<close> is \<open>bcache.head\<close>.  The
  circular list is kept in the \<open>prev\<close> and \<open>next\<close> fields as the code keeps it.
\<close>

abbreviation (input) NBUF :: nat where "NBUF \<equiv> 30"
abbreviation (input) bhead :: nat where "bhead \<equiv> 30"
abbreviation (input) BSIZE :: nat where "BSIZE \<equiv> 512"
abbreviation (input) B_VALID :: u32 where "B_VALID \<equiv> 2"
abbreviation (input) B_DIRTY :: u32 where "B_DIRTY \<equiv> 4"

type_synonym block = "u8 list"

record buf =
  bflags :: u32
  bdev :: u32
  blockno :: u32
  refcnt :: u32
  bprev :: nat
  bnext :: nat
  qnext :: "nat option"
  bdata :: block

text \<open>\<open>memdisk\<close> is the image as an array of blocks, and \<open>writes\<close> records the order in which blocks reached it.\<close>

record bio_state = sl_state +
  bufs :: "buf list"
  memdisk :: "nat \<Rightarrow> block"
  disksize :: nat
  writes :: "(nat \<times> block) list"

definition upd_buf :: "nat \<Rightarrow> (buf \<Rightarrow> buf) \<Rightarrow> 'x bio_state_scheme \<Rightarrow> 'x bio_state_scheme" where
  "upd_buf i f s = s\<lparr>bufs := (bufs s)[i := f (bufs s ! i)]\<rparr>"

definition bufget :: "(buf \<Rightarrow> 'a) \<Rightarrow> nat \<Rightarrow> ('x bio_state_scheme, 'a) kernel" where
  "bufget g b = kgets (\<lambda>s. g (bufs s ! b))"

definition bufset :: "(buf \<Rightarrow> buf) \<Rightarrow> nat \<Rightarrow> ('x bio_state_scheme, unit) kernel" where
  "bufset f b = kmodify (upd_buf b f)"

section \<open>memide.c\<close>

definition iderw :: "nat \<Rightarrow> ('x bio_state_scheme, unit) kernel" where
  "iderw b =
     kbind (holdingsleep (Buf_lk b)) (\<lambda>h.
     if \<not> h then panic ''iderw: buf not locked''
     else kbind (kgets (\<lambda>s. bufs s ! b)) (\<lambda>x.
     if bflags x AND (B_VALID OR B_DIRTY) = B_VALID then panic ''iderw: nothing to do''
     else if bdev x \<noteq> 1 then panic ''iderw: request not for disk 1''
     else kbind (kgets disksize) (\<lambda>n.
     if unat (blockno x) \<ge> n then panic ''iderw: block out of range''
     else kbind (if bflags x AND B_DIRTY \<noteq> 0 then kseq
        [bufset (\<lambda>y. y\<lparr>bflags := bflags y AND NOT B_DIRTY\<rparr>) b,
         kmodify (\<lambda>s. s\<lparr>memdisk := (memdisk s)(unat (blockno x) := bdata (bufs s ! b))\<rparr>),
         kmodify (\<lambda>s. s\<lparr>writes := writes s @ [(unat (blockno x), bdata (bufs s ! b))]\<rparr>)]
      else kmodify (\<lambda>s. upd_buf b (\<lambda>y. y\<lparr>bdata := memdisk s (unat (blockno x))\<rparr>) s)) (\<lambda>_.
     bufset (\<lambda>y. y\<lparr>bflags := bflags y OR B_VALID\<rparr>) b))))"

section \<open>bio.c\<close>

text \<open>\<open>b->next->prev = b\<close> and the like: insertion at, and removal from, the circular list.\<close>

definition link_first :: "nat \<Rightarrow> ('x bio_state_scheme, unit) kernel" where
  "link_first b = kseq
    [kmodify (\<lambda>s. upd_buf b (\<lambda>x. x\<lparr>bnext := bnext (bufs s ! bhead)\<rparr>) s),
     bufset (\<lambda>x. x\<lparr>bprev := bhead\<rparr>) b,
     kmodify (\<lambda>s. upd_buf (bnext (bufs s ! bhead)) (\<lambda>x. x\<lparr>bprev := b\<rparr>) s),
     bufset (\<lambda>x. x\<lparr>bnext := b\<rparr>) bhead]"

definition unlink :: "nat \<Rightarrow> ('x bio_state_scheme, unit) kernel" where
  "unlink b = kseq
    [kmodify (\<lambda>s. upd_buf (bnext (bufs s ! b)) (\<lambda>x. x\<lparr>bprev := bprev (bufs s ! b)\<rparr>) s),
     kmodify (\<lambda>s. upd_buf (bprev (bufs s ! b)) (\<lambda>x. x\<lparr>bnext := bnext (bufs s ! b)\<rparr>) s)]"

definition binit_buf :: "nat \<Rightarrow> ('x bio_state_scheme, unit) kernel" where
  "binit_buf b = kseq
    [kmodify (\<lambda>s. upd_buf b (\<lambda>x. x\<lparr>bnext := bnext (bufs s ! bhead)\<rparr>) s),
     bufset (\<lambda>x. x\<lparr>bprev := bhead\<rparr>) b,
     initsleeplock (Buf_lk b) ''buffer'',
     kmodify (\<lambda>s. upd_buf (bnext (bufs s ! bhead)) (\<lambda>x. x\<lparr>bprev := b\<rparr>) s),
     bufset (\<lambda>x. x\<lparr>bnext := b\<rparr>) bhead]"

definition binit :: "('x bio_state_scheme, unit) kernel" where
  "binit = kseq
    [initlock Bcache_lock ''bcache'',
     bufset (\<lambda>x. x\<lparr>bprev := bhead\<rparr>) bhead,
     bufset (\<lambda>x. x\<lparr>bnext := bhead\<rparr>) bhead,
     kseq (map binit_buf [0..<NBUF])]"

text \<open>
  A walk along the list from \<open>b\<close> back to the head, with at most \<open>n\<close> steps: a well-formed list has
  \<open>NBUF\<close> buffers; on a broken one the walk may go round for ever.
\<close>

fun walk :: "(buf \<Rightarrow> nat) \<Rightarrow> (buf \<Rightarrow> bool) \<Rightarrow> buf list \<Rightarrow> nat \<Rightarrow> nat \<Rightarrow> nat option option" where
  "walk step P bs b 0 = (if b = bhead then Some None else None)"
| "walk step P bs b (Suc n) =
     (if b = bhead then Some None
      else if P (bs ! b) then Some (Some b)
      else walk step P bs (step (bs ! b)) n)"

definition bfind :: "(buf \<Rightarrow> nat) \<Rightarrow> (buf \<Rightarrow> bool) \<Rightarrow> ('x bio_state_scheme, nat option) kernel" where
  "bfind step P =
     kbind (kgets (\<lambda>s. walk step P (bufs s) (step (bufs s ! bhead)) NBUF)) (\<lambda>r.
     case r of None \<Rightarrow> kstop Spin | Some x \<Rightarrow> kret x)"

definition bget :: "u32 \<Rightarrow> u32 \<Rightarrow> ('x bio_state_scheme, nat) kernel" where
  "bget dev bno =
     kbind (acquire Bcache_lock) (\<lambda>_.
     kbind (bfind bnext (\<lambda>b. bdev b = dev \<and> blockno b = bno)) (\<lambda>cached.
     case cached of
       Some b \<Rightarrow>
         kbind (kseq
          [bufset (\<lambda>x. x\<lparr>refcnt := refcnt x + 1\<rparr>) b,
           release Bcache_lock,
           acquiresleep (Buf_lk b)]) (\<lambda>_. kret b)
     | None \<Rightarrow>
         kbind (bfind bprev (\<lambda>b. refcnt b = 0 \<and> bflags b AND B_DIRTY = 0)) (\<lambda>free.
         case free of
           Some b \<Rightarrow>
             kbind (kseq
              [bufset (\<lambda>x. x\<lparr>bdev := dev\<rparr>) b,
               bufset (\<lambda>x. x\<lparr>blockno := bno\<rparr>) b,
               bufset (\<lambda>x. x\<lparr>bflags := 0\<rparr>) b,
               bufset (\<lambda>x. x\<lparr>refcnt := 1\<rparr>) b,
               release Bcache_lock,
               acquiresleep (Buf_lk b)]) (\<lambda>_. kret b)
         | None \<Rightarrow> panic ''bget: no buffers'')))"

definition bread :: "u32 \<Rightarrow> u32 \<Rightarrow> ('x bio_state_scheme, nat) kernel" where
  "bread dev bno =
     kbind (bget dev bno) (\<lambda>b.
     kbind (bufget bflags b) (\<lambda>fl.
     kbind (kwhen (fl AND B_VALID = 0) (iderw b)) (\<lambda>_. kret b)))"

definition bwrite :: "nat \<Rightarrow> ('x bio_state_scheme, unit) kernel" where
  "bwrite b =
     kbind (holdingsleep (Buf_lk b)) (\<lambda>h.
     if \<not> h then panic ''bwrite''
     else kseq [bufset (\<lambda>x. x\<lparr>bflags := bflags x OR B_DIRTY\<rparr>) b, iderw b])"

definition brelse :: "nat \<Rightarrow> ('x bio_state_scheme, unit) kernel" where
  "brelse b =
     kbind (holdingsleep (Buf_lk b)) (\<lambda>h.
     if \<not> h then panic ''brelse''
     else kbind (releasesleep (Buf_lk b)) (\<lambda>_.
     kbind (acquire Bcache_lock) (\<lambda>_.
     kbind (bufset (\<lambda>x. x\<lparr>refcnt := refcnt x - 1\<rparr>) b) (\<lambda>_.
     kbind (bufget refcnt b) (\<lambda>n.
     kbind (kwhen (n = 0) (kseq [unlink b, link_first b])) (\<lambda>_.
     release Bcache_lock))))))"

end
