(* ===== verification/Log.thy ===== *)
theory Log
  imports Bio
begin

unbundle bit_operations_syntax

text \<open>
  The redo log, \<open>src/log.c\<close>, with the superblock of \<open>src/fs.h\<close>.  Blocks are lists of bytes; the
  structures in them are read and written at their byte offsets, little endian.
\<close>

section \<open>Structures in a block\<close>

definition get32 :: "block \<Rightarrow> nat \<Rightarrow> u32" where
  "get32 bs off = ucast (bs ! off) OR push_bit 8 (ucast (bs ! (off + 1)))
     OR push_bit 16 (ucast (bs ! (off + 2))) OR push_bit 24 (ucast (bs ! (off + 3)))"

definition put32 :: "block \<Rightarrow> nat \<Rightarrow> u32 \<Rightarrow> block" where
  "put32 bs off v = bs[off := ucast v, off + 1 := ucast (drop_bit 8 v),
     off + 2 := ucast (drop_bit 16 v), off + 3 := ucast (drop_bit 24 v)]"

definition get16 :: "block \<Rightarrow> nat \<Rightarrow> u16" where
  "get16 bs off = ucast (bs ! off) OR push_bit 8 (ucast (bs ! (off + 1)))"

definition put16 :: "block \<Rightarrow> nat \<Rightarrow> u16 \<Rightarrow> block" where
  "put16 bs off v = bs[off := ucast v, off + 1 := ucast (drop_bit 8 v)]"

record superblock =
  sb_size :: u32
  sb_nblocks :: u32
  sb_ninodes :: u32
  sb_nlog :: u32
  sb_logstart :: u32
  sb_inodestart :: u32
  sb_bmapstart :: u32

definition superblock_of :: "block \<Rightarrow> superblock" where
  "superblock_of d = \<lparr>sb_size = get32 d 0, sb_nblocks = get32 d 4, sb_ninodes = get32 d 8,
     sb_nlog = get32 d 12, sb_logstart = get32 d 16, sb_inodestart = get32 d 20,
     sb_bmapstart = get32 d 24\<rparr>"

definition readsb :: "u32 \<Rightarrow> ('x bio_state_scheme, superblock) kernel" where
  "readsb dev =
     kbind (bread dev 1) (\<lambda>bp.
     kbind (bufget bdata bp) (\<lambda>d.
     kbind (brelse bp) (\<lambda>_. kret (superblock_of d))))"

section \<open>The log\<close>

abbreviation (input) MAXOPBLOCKS :: int where "MAXOPBLOCKS \<equiv> 10"
abbreviation (input) LOGSIZE :: int where "LOGSIZE \<equiv> 30"

text \<open>\<open>lh_n\<close> and \<open>lh_block\<close> are \<open>log.lh\<close>.  The counters are C integers that stay far from overflow.\<close>

record log_state = bio_state +
  log_start :: u32
  log_size :: int
  outstanding :: int
  committing :: bool
  log_dev :: u32
  lh_n :: int
  lh_block :: "u32 list"

definition install_block :: "nat \<Rightarrow> ('x log_state_scheme, unit) kernel" where
  "install_block tail =
     kbind (kgets (\<lambda>s. (log_dev s, log_start s + of_nat tail + 1, lh_block s ! tail))) (\<lambda>(dev, lb, db).
     kbind (bread dev lb) (\<lambda>lbuf.
     kbind (bread dev db) (\<lambda>dbuf. kseq
      [kmodify (\<lambda>s. upd_buf dbuf (\<lambda>x. x\<lparr>bdata := bdata (bufs s ! lbuf)\<rparr>) s),
       bwrite dbuf,
       brelse lbuf,
       brelse dbuf])))"

definition install_trans :: "('x log_state_scheme, unit) kernel" where
  "install_trans = kbind (kgets lh_n) (\<lambda>n. kseq (map install_block [0..<nat n]))"

text \<open>Reading a count beyond the array \<open>log.lh.block\<close> would write past its end.\<close>

definition read_head :: "('x log_state_scheme, unit) kernel" where
  "read_head =
     kbind (kgets (\<lambda>s. (log_dev s, log_start s))) (\<lambda>(dev, st).
     kbind (bread dev st) (\<lambda>b.
     kbind (bufget bdata b) (\<lambda>d.
     let n = sint (get32 d 0) in
     kbind (kmodify (\<lambda>s. s\<lparr>lh_n := n\<rparr>)) (\<lambda>_.
     if n > LOGSIZE then kstop Fault
     else kseq
      [kmodify (\<lambda>s. s\<lparr>lh_block := map (\<lambda>i. get32 d (4 + 4 * i)) [0..<nat n] @ drop (nat n) (lh_block s)\<rparr>),
       brelse b]))))"

fun put_head :: "block \<Rightarrow> u32 list \<Rightarrow> nat \<Rightarrow> block" where
  "put_head d [] off = d"
| "put_head d (b # bs) off = put_head (put32 d off b) bs (off + 4)"

definition write_head :: "('x log_state_scheme, unit) kernel" where
  "write_head =
     kbind (kgets (\<lambda>s. (log_dev s, log_start s, lh_n s, take (nat (lh_n s)) (lh_block s)))) (\<lambda>(dev, st, n, bs).
     kbind (bread dev st) (\<lambda>b. kseq
      [bufset (\<lambda>x. x\<lparr>bdata := put_head (put32 (bdata x) 0 (of_int n)) bs 4\<rparr>) b,
       bwrite b,
       brelse b]))"

definition recover_from_log :: "('x log_state_scheme, unit) kernel" where
  "recover_from_log = kseq [read_head, install_trans, kmodify (\<lambda>s. s\<lparr>lh_n := 0\<rparr>), write_head]"

text \<open>\<open>sizeof(struct logheader)\<close> is 124, less than a block.\<close>

definition initlog :: "u32 \<Rightarrow> ('x log_state_scheme, unit) kernel" where
  "initlog dev =
     kbind (initlock Log_lock ''log'') (\<lambda>_.
     kbind (readsb dev) (\<lambda>sb. kseq
      [kmodify (\<lambda>s. s\<lparr>log_start := sb_logstart sb\<rparr>),
       kmodify (\<lambda>s. s\<lparr>log_size := sint (sb_nlog sb)\<rparr>),
       kmodify (\<lambda>s. s\<lparr>log_dev := dev\<rparr>),
       recover_from_log]))"

section \<open>Transactions\<close>

text \<open>
  One round of the loop of \<open>begin_op\<close>: \<open>None\<close> when the operation has been admitted, else the
  process sleeps on the log.
\<close>

definition begin_op_try :: "('x log_state_scheme, (nat \<times> u32) option) kernel" where
  "begin_op_try =
     kbind (kgets (\<lambda>s. (committing s, lh_n s, outstanding s))) (\<lambda>(cm, n, out).
     if cm then kbind (sleep_enter Log_chan (Some Log_lock)) (\<lambda>r. kret (Some r))
     else if n + (out + 1) * MAXOPBLOCKS > LOGSIZE then
       kbind (sleep_enter Log_chan (Some Log_lock)) (\<lambda>r. kret (Some r))
     else kbind (kseq
       [kmodify (\<lambda>s. s\<lparr>outstanding := out + 1\<rparr>), release Log_lock]) (\<lambda>_. kret None))"

definition begin_op_enter :: "('x log_state_scheme, (nat \<times> u32) option) kernel" where
  "begin_op_enter = kbind (acquire Log_lock) (\<lambda>_. begin_op_try)"

definition begin_op_resume :: "nat \<times> u32 \<Rightarrow> ('x log_state_scheme, (nat \<times> u32) option) kernel" where
  "begin_op_resume r = kbind (sleep_exit (fst r) Log_lock (snd r)) (\<lambda>_. begin_op_try)"

definition begin_op :: "('x log_state_scheme, unit) kernel" where
  "begin_op = kbind begin_op_enter (\<lambda>r. case r of None \<Rightarrow> kret () | Some _ \<Rightarrow> kstop Blocked)"

definition write_log_block :: "nat \<Rightarrow> ('x log_state_scheme, unit) kernel" where
  "write_log_block tail =
     kbind (kgets (\<lambda>s. (log_dev s, log_start s + of_nat tail + 1, lh_block s ! tail))) (\<lambda>(dev, lb, db).
     kbind (bread dev lb) (\<lambda>to.
     kbind (bread dev db) (\<lambda>from. kseq
      [kmodify (\<lambda>s. upd_buf to (\<lambda>x. x\<lparr>bdata := bdata (bufs s ! from)\<rparr>) s),
       bwrite to,
       brelse from,
       brelse to])))"

definition write_log :: "('x log_state_scheme, unit) kernel" where
  "write_log = kbind (kgets lh_n) (\<lambda>n. kseq (map write_log_block [0..<nat n]))"

definition commit :: "('x log_state_scheme, unit) kernel" where
  "commit = kbind (kgets lh_n) (\<lambda>n. kwhen (n > 0) (kseq
     [write_log, write_head, install_trans, kmodify (\<lambda>s. s\<lparr>lh_n := 0\<rparr>), write_head]))"

definition end_op :: "('x log_state_scheme, unit) kernel" where
  "end_op =
     kbind (acquire Log_lock) (\<lambda>_.
     kbind (kmodify (\<lambda>s. s\<lparr>outstanding := outstanding s - 1\<rparr>)) (\<lambda>_.
     kbind (kgets (\<lambda>s. (committing s, outstanding s))) (\<lambda>(cm, out).
     if cm then panic ''log.committing''
     else kbind (if out = 0 then kmodify (\<lambda>s. s\<lparr>committing := True\<rparr>) else wakeup Log_chan) (\<lambda>_.
     kbind (release Log_lock) (\<lambda>_.
     kwhen (out = 0) (kseq
      [commit,
       acquire Log_lock,
       kmodify (\<lambda>s. s\<lparr>committing := False\<rparr>),
       wakeup Log_chan,
       release Log_lock]))))))"

text \<open>The slot of a block in the log: where it already is, or the next free one.\<close>

definition log_slot :: "u32 list \<Rightarrow> u32 \<Rightarrow> nat \<Rightarrow> nat" where
  "log_slot bs b n = (case first_index (\<lambda>x. x = b) (take n bs) of Some i \<Rightarrow> i | None \<Rightarrow> n)"

definition log_write :: "nat \<Rightarrow> ('x log_state_scheme, unit) kernel" where
  "log_write b =
     kbind (kgets (\<lambda>s. (lh_n s, log_size s, outstanding s))) (\<lambda>(n, size, out).
     if n \<ge> LOGSIZE \<or> n \<ge> size - 1 then panic ''too big a transaction''
     else if out < 1 then panic ''log_write outside of trans''
     else kbind (acquire Log_lock) (\<lambda>_.
     kbind (bufget blockno b) (\<lambda>bno.
     kbind (kgets (\<lambda>s. (lh_n s, log_slot (lh_block s) bno (nat (lh_n s))))) (\<lambda>(n, i). kseq
      [kmodify (\<lambda>s. s\<lparr>lh_block := (lh_block s)[i := bno]\<rparr>),
       kwhen (int i = n) (kmodify (\<lambda>s. s\<lparr>lh_n := lh_n s + 1\<rparr>)),
       bufset (\<lambda>x. x\<lparr>bflags := bflags x OR B_DIRTY\<rparr>) b,
       release Log_lock]))))"

section \<open>Records in a block\<close>

text \<open>
  What the file system relies on when it keeps records in a block: a record that has been stored is
  read back, and a store leaves the records at other places alone.  The word, the short and
  (theory \<open>Inode\<close>) the on-disk inode are such records.
\<close>

fun put_seq :: "('d \<Rightarrow> nat \<Rightarrow> 'a \<Rightarrow> 'd) \<Rightarrow> nat \<Rightarrow> 'd \<Rightarrow> nat \<Rightarrow> 'a list \<Rightarrow> 'd" where
  "put_seq put w d off [] = d"
| "put_seq put w d off (v # vs) = put_seq put w (put d off v) (off + w) vs"

locale block_record =
  fixes get :: "block \<Rightarrow> nat \<Rightarrow> 'a"
    and put :: "block \<Rightarrow> nat \<Rightarrow> 'a \<Rightarrow> block"
    and w :: nat
    and ok :: "'a \<Rightarrow> bool"
  assumes length_put: "length (put d off v) = length d"
    and get_put: "off + w \<le> length d \<Longrightarrow> ok v \<Longrightarrow> get (put d off v) off = v"
    and nth_put: "i < length d \<Longrightarrow> i < off \<or> off + w \<le> i \<Longrightarrow> ok v \<Longrightarrow> put d off v ! i = d ! i"
    and get_local: "(\<And>i. off \<le> i \<Longrightarrow> i < off + w \<Longrightarrow> d ! i = d' ! i) \<Longrightarrow> get d off = get d' off"
begin

lemma get_put_other:
  "off + w \<le> i \<or> i + w \<le> off \<Longrightarrow> i + w \<le> length d \<Longrightarrow> ok v \<Longrightarrow> get (put d off v) i = get d i"
  by (rule get_local) (auto simp: nth_put)

lemma length_put_seq: "length (put_seq put w d off vs) = length d"
  by (induction vs arbitrary: d off) (simp_all add: length_put)

lemma nth_put_seq:
  "list_all ok vs \<Longrightarrow> i < length d \<Longrightarrow> i < off \<or> off + w * length vs \<le> i \<Longrightarrow> put_seq put w d off vs ! i = d ! i"
  by (induction vs arbitrary: d off) (auto simp: length_put nth_put)

lemma get_put_seq:
  "list_all ok vs \<Longrightarrow> off + w * length vs \<le> length d \<Longrightarrow> k < length vs \<Longrightarrow>
    get (put_seq put w d off vs) (off + w * k) = vs ! k"
proof (induction vs arbitrary: d off k)
  case (Cons v vs)
  show ?case
  proof (cases k)
    case 0
    have "get (put_seq put w (put d off v) (off + w) vs) off = get (put d off v) off"
      using Cons.prems by (intro get_local nth_put_seq) (auto simp: length_put)
    then show ?thesis
      using 0 Cons.prems by (simp add: get_put)
  next
    case (Suc j)
    then show ?thesis
      using Cons.prems Cons.IH[of "off + w" "put d off v" j] by (simp add: length_put algebra_simps)
  qed
qed simp

lemma get_put_seq_other:
  "list_all ok vs \<Longrightarrow> i + w \<le> length d \<Longrightarrow> i + w \<le> off \<or> off + w * length vs \<le> i \<Longrightarrow>
    get (put_seq put w d off vs) i = get d i"
  by (rule get_local) (auto simp: nth_put_seq)

end

lemma nth_put32:
  "i < length d \<Longrightarrow> put32 d off v ! i =
     (if i = off + 3 then ucast (drop_bit 24 v) else if i = off + 2 then ucast (drop_bit 16 v)
      else if i = off + 1 then ucast (drop_bit 8 v) else if i = off then ucast v else d ! i)"
  by (simp add: put32_def nth_list_update)

lemma nth_put16:
  "i < length d \<Longrightarrow> put16 d off v ! i =
     (if i = off + 1 then ucast (drop_bit 8 v) else if i = off then ucast v else d ! i)"
  by (simp add: put16_def nth_list_update)

lemma length_put_field [simp]: "length (put32 d off v) = length d" "length (put16 d off u) = length d"
  by (simp_all add: put32_def put16_def)

lemma word16_bytes: "ucast (ucast v :: u8) OR push_bit 8 (ucast (ucast (drop_bit 8 v) :: u8)) = (v :: u16)"
  by (rule bit_word_eqI) (auto simp: bit_simps)

interpretation rec32: block_record get32 put32 4 "\<lambda>_. True"
  by unfold_locales (auto simp: nth_put32 get32_def word32_bytes)

interpretation rec16: block_record get16 put16 2 "\<lambda>_. True"
  by unfold_locales (auto simp: nth_put16 get16_def word16_bytes)

section \<open>The header of the log\<close>

lemma put_head_seq: "put_head d bs off = put_seq put32 4 d off bs"
  by (induction d bs off rule: put_head.induct) simp_all

lemma head_roundtrip:
  assumes "length d = BSIZE" "length bs \<le> 30"
  shows "get32 (put_head (put32 d 0 (of_nat (length bs))) bs 4) 0 = of_nat (length bs)"
    and "map (\<lambda>i. get32 (put_head (put32 d 0 (of_nat (length bs))) bs 4) (4 + 4 * i)) [0..<length bs] = bs"
proof -
  show "get32 (put_head (put32 d 0 (of_nat (length bs))) bs 4) 0 = of_nat (length bs)"
    using assms by (simp add: put_head_seq rec32.get_put_seq_other rec32.get_put list_all_iff)
  show "map (\<lambda>i. get32 (put_head (put32 d 0 (of_nat (length bs))) bs 4) (4 + 4 * i)) [0..<length bs] = bs"
    using assms by (intro nth_equalityI) (simp_all add: put_head_seq rec32.get_put_seq list_all_iff)
qed

end
