(* ===== verification/Inode.thy ===== *)
theory Inode
  imports Log
begin

unbundle bit_operations_syntax

text \<open>
  The lower half of \<open>src/fs.c\<close>: the block allocator, on-disk inodes (\<open>struct dinode\<close> of \<open>src/fs.h\<close>)
  and the inode cache.  An \<open>struct inode *\<close> is an index into \<open>icache.inode\<close>, \<open>None\<close> the null
  pointer.
\<close>

abbreviation (input) NINODE :: nat where "NINODE \<equiv> 50"
abbreviation (input) NDIRECT :: nat where "NDIRECT \<equiv> 12"
abbreviation (input) NINDIRECT :: nat where "NINDIRECT \<equiv> 128"
abbreviation (input) MAXFILE :: nat where "MAXFILE \<equiv> 140"
abbreviation (input) BPB :: nat where "BPB \<equiv> 4096"
abbreviation (input) IPB :: u32 where "IPB \<equiv> 8"
abbreviation (input) T_DIR :: u16 where "T_DIR \<equiv> 1"
abbreviation (input) T_FILE :: u16 where "T_FILE \<equiv> 2"
abbreviation (input) T_DEV :: u16 where "T_DEV \<equiv> 3"
abbreviation (input) ROOTDEV :: u32 where "ROOTDEV \<equiv> 1"
abbreviation (input) ROOTINO :: u32 where "ROOTINO \<equiv> 1"

record dinode =
  d_type :: u16
  d_major :: u16
  d_minor :: u16
  d_nlink :: u16
  d_size :: u32
  d_addrs :: "u32 list"

record inode =
  i_dev :: u32
  i_inum :: u32
  i_ref :: int
  i_valid :: bool
  i_type :: u16
  i_major :: u16
  i_minor :: u16
  i_nlink :: u16
  i_size :: u32
  i_addrs :: "u32 list"

record fs_state = log_state +
  sb :: superblock
  inodes :: "inode list"

definition upd_inode :: "nat \<Rightarrow> (inode \<Rightarrow> inode) \<Rightarrow> 'x fs_state_scheme \<Rightarrow> 'x fs_state_scheme" where
  "upd_inode i f s = s\<lparr>inodes := (inodes s)[i := f (inodes s ! i)]\<rparr>"

definition iget_field :: "(inode \<Rightarrow> 'a) \<Rightarrow> nat \<Rightarrow> ('x fs_state_scheme, 'a) kernel" where
  "iget_field g i = kgets (\<lambda>s. g (inodes s ! i))"

definition iset_field :: "(inode \<Rightarrow> inode) \<Rightarrow> nat \<Rightarrow> ('x fs_state_scheme, unit) kernel" where
  "iset_field f i = kmodify (upd_inode i f)"

definition IBLOCK :: "u32 \<Rightarrow> superblock \<Rightarrow> u32" where
  "IBLOCK i sbk = i div IPB + sb_inodestart sbk"

definition BBLOCK :: "u32 \<Rightarrow> superblock \<Rightarrow> u32" where
  "BBLOCK b sbk = b div 4096 + sb_bmapstart sbk"

section \<open>Blocks\<close>

definition bzero :: "u32 \<Rightarrow> u32 \<Rightarrow> ('x log_state_scheme, unit) kernel" where
  "bzero dev bno =
     kbind (bread dev bno) (\<lambda>bp. kseq
      [bufset (\<lambda>x. x\<lparr>bdata := replicate BSIZE 0\<rparr>) bp,
       log_write bp,
       brelse bp])"

text \<open>Bit \<open>bi\<close> of a bitmap block, and the first clear one below \<open>n\<close>.\<close>

definition bitmask :: "nat \<Rightarrow> u8" where
  "bitmask bi = push_bit (bi mod 8) 1"

definition bit_clear :: "block \<Rightarrow> nat \<Rightarrow> bool" where
  "bit_clear d bi \<longleftrightarrow> d ! (bi div 8) AND bitmask bi = 0"

definition set_bit_at :: "block \<Rightarrow> nat \<Rightarrow> block" where
  "set_bit_at d bi = d[bi div 8 := d ! (bi div 8) OR bitmask bi]"

definition clear_bit_at :: "block \<Rightarrow> nat \<Rightarrow> block" where
  "clear_bit_at d bi = d[bi div 8 := d ! (bi div 8) AND NOT (bitmask bi)]"

definition first_clear :: "block \<Rightarrow> nat \<Rightarrow> nat option" where
  "first_clear d n = first_index (bit_clear d) [0..<n]"

function balloc_from :: "u32 \<Rightarrow> superblock \<Rightarrow> nat \<Rightarrow> ('x log_state_scheme, u32) kernel" where
  "balloc_from dev sbk b =
     (if b < unat (sb_size sbk) then
        kbind (bread dev (BBLOCK (of_nat b) sbk)) (\<lambda>bp.
        kbind (bufget bdata bp) (\<lambda>d.
        case first_clear d (min BPB (unat (sb_size sbk) - b)) of
          Some bi \<Rightarrow>
            kbind (kseq
             [bufset (\<lambda>x. x\<lparr>bdata := set_bit_at (bdata x) bi\<rparr>) bp,
              log_write bp,
              brelse bp,
              bzero dev (of_nat (b + bi))]) (\<lambda>_. kret (of_nat (b + bi)))
        | None \<Rightarrow> kbind (brelse bp) (\<lambda>_. balloc_from dev sbk (b + BPB))))
      else panic ''balloc: out of blocks'')"
  by auto
termination
  by (relation "measure (\<lambda>(_, sbk, b). unat (sb_size sbk) - b)") auto

declare balloc_from.simps [simp del]

definition balloc :: "u32 \<Rightarrow> ('x fs_state_scheme, u32) kernel" where
  "balloc dev = kbind (kgets sb) (\<lambda>sbk. balloc_from dev sbk 0)"

definition bfree :: "u32 \<Rightarrow> u32 \<Rightarrow> ('x fs_state_scheme, unit) kernel" where
  "bfree dev b =
     kbind (kgets sb) (\<lambda>sbk.
     kbind (bread dev (BBLOCK b sbk)) (\<lambda>bp.
     let bi = unat b mod BPB in
     kbind (bufget bdata bp) (\<lambda>d.
     if bit_clear d bi then panic ''freeing free block''
     else kseq
      [bufset (\<lambda>x. x\<lparr>bdata := clear_bit_at (bdata x) bi\<rparr>) bp,
       log_write bp,
       brelse bp])))"

section \<open>Inodes on disk\<close>

definition dinode_off :: "u32 \<Rightarrow> nat" where
  "dinode_off inum = 64 * unat (inum mod IPB)"

definition get_dinode :: "block \<Rightarrow> nat \<Rightarrow> dinode" where
  "get_dinode d off = \<lparr>d_type = get16 d off, d_major = get16 d (off + 2), d_minor = get16 d (off + 4),
     d_nlink = get16 d (off + 6), d_size = get32 d (off + 8),
     d_addrs = map (\<lambda>i. get32 d (off + 12 + 4 * i)) [0..<NDIRECT + 1]\<rparr>"

fun put_words :: "block \<Rightarrow> nat \<Rightarrow> u32 list \<Rightarrow> block" where
  "put_words d off [] = d"
| "put_words d off (v # vs) = put_words (put32 d off v) (off + 4) vs"

definition put_dinode :: "block \<Rightarrow> nat \<Rightarrow> dinode \<Rightarrow> block" where
  "put_dinode d off i =
     put_words
      (put32
        (put16 (put16 (put16 (put16 d off (d_type i)) (off + 2) (d_major i)) (off + 4) (d_minor i))
          (off + 6) (d_nlink i))
        (off + 8) (d_size i))
      (off + 12) (d_addrs i)"

definition zero_range :: "block \<Rightarrow> nat \<Rightarrow> nat \<Rightarrow> block" where
  "zero_range d off n = take off d @ replicate n 0 @ drop (off + n) d"

section \<open>The inode cache\<close>

definition iinit :: "u32 \<Rightarrow> ('x fs_state_scheme, unit) kernel" where
  "iinit dev =
     kbind (kseq
      [initlock Icache_lock ''icache'',
       kseq (map (\<lambda>i. initsleeplock (Inode_lk i) ''inode'') [0..<NINODE])]) (\<lambda>_.
     kbind (readsb dev) (\<lambda>sbk. kseq
      [kmodify (\<lambda>s. s\<lparr>sb := sbk\<rparr>),
       cprintf (''sb: size %d nblocks %d ninodes %d nlog %d logstart %d'' @
           '' inodestart %d bmap start %d\<newline>'')
        [Word (sb_size sbk), Word (sb_nblocks sbk), Word (sb_ninodes sbk), Word (sb_nlog sbk),
         Word (sb_logstart sbk), Word (sb_inodestart sbk), Word (sb_bmapstart sbk)]]))"

text \<open>
  \<open>iget\<close> scans once: the first entry that holds the inode wins, and the first free one seen before
  is remembered.
\<close>

definition iget :: "u32 \<Rightarrow> u32 \<Rightarrow> ('x fs_state_scheme, nat) kernel" where
  "iget dev inum =
     kbind (acquire Icache_lock) (\<lambda>_.
     kbind (kgets (\<lambda>s. first_index (\<lambda>ip. i_ref ip > 0 \<and> i_dev ip = dev \<and> i_inum ip = inum) (inodes s))) (\<lambda>cached.
     case cached of
       Some ip \<Rightarrow>
         kbind (kseq [iset_field (\<lambda>x. x\<lparr>i_ref := i_ref x + 1\<rparr>) ip, release Icache_lock]) (\<lambda>_. kret ip)
     | None \<Rightarrow>
         kbind (kgets (\<lambda>s. first_index (\<lambda>ip. i_ref ip = 0) (inodes s))) (\<lambda>empty.
         case empty of
           None \<Rightarrow> panic ''iget: no inodes''
         | Some ip \<Rightarrow>
             kbind (kseq
              [iset_field (\<lambda>x. x\<lparr>i_dev := dev\<rparr>) ip,
               iset_field (\<lambda>x. x\<lparr>i_inum := inum\<rparr>) ip,
               iset_field (\<lambda>x. x\<lparr>i_ref := 1\<rparr>) ip,
               iset_field (\<lambda>x. x\<lparr>i_valid := False\<rparr>) ip,
               release Icache_lock]) (\<lambda>_. kret ip))))"

fun ialloc_from :: "u32 \<Rightarrow> u16 \<Rightarrow> superblock \<Rightarrow> nat list \<Rightarrow> ('x fs_state_scheme, nat) kernel" where
  "ialloc_from dev type sbk [] = panic ''ialloc: no inodes''"
| "ialloc_from dev type sbk (inum # rest) =
     kbind (bread dev (IBLOCK (of_nat inum) sbk)) (\<lambda>bp.
     kbind (bufget bdata bp) (\<lambda>d.
     let off = dinode_off (of_nat inum) in
     if get16 d off = 0 then
       kbind (kseq
        [bufset (\<lambda>x. x\<lparr>bdata := zero_range (bdata x) off 64\<rparr>) bp,
         bufset (\<lambda>x. x\<lparr>bdata := put16 (bdata x) off type\<rparr>) bp,
         log_write bp,
         brelse bp]) (\<lambda>_. iget dev (of_nat inum))
     else kbind (brelse bp) (\<lambda>_. ialloc_from dev type sbk rest)))"

definition ialloc :: "u32 \<Rightarrow> u16 \<Rightarrow> ('x fs_state_scheme, nat) kernel" where
  "ialloc dev type = kbind (kgets sb) (\<lambda>sbk. ialloc_from dev type sbk [1..<unat (sb_ninodes sbk)])"

definition dinode_of :: "inode \<Rightarrow> dinode" where
  "dinode_of ip = \<lparr>d_type = i_type ip, d_major = i_major ip, d_minor = i_minor ip,
     d_nlink = i_nlink ip, d_size = i_size ip, d_addrs = i_addrs ip\<rparr>"

definition iupdate :: "nat \<Rightarrow> ('x fs_state_scheme, unit) kernel" where
  "iupdate ip =
     kbind (kgets (\<lambda>s. (sb s, inodes s ! ip))) (\<lambda>(sbk, x).
     kbind (bread (i_dev x) (IBLOCK (i_inum x) sbk)) (\<lambda>bp. kseq
      [bufset (\<lambda>b. b\<lparr>bdata := put_dinode (bdata b) (dinode_off (i_inum x)) (dinode_of x)\<rparr>) bp,
       log_write bp,
       brelse bp]))"

definition idup :: "nat \<Rightarrow> ('x fs_state_scheme, nat) kernel" where
  "idup ip =
     kbind (kseq
      [acquire Icache_lock, iset_field (\<lambda>x. x\<lparr>i_ref := i_ref x + 1\<rparr>) ip, release Icache_lock]) (\<lambda>_.
     kret ip)"

definition load_inode :: "dinode \<Rightarrow> inode \<Rightarrow> inode" where
  "load_inode di x = x\<lparr>i_type := d_type di, i_major := d_major di, i_minor := d_minor di,
     i_nlink := d_nlink di, i_size := d_size di, i_addrs := d_addrs di\<rparr>"

definition ilock :: "nat option \<Rightarrow> ('x fs_state_scheme, unit) kernel" where
  "ilock ipo = (case ipo of None \<Rightarrow> panic ''ilock'' | Some ip \<Rightarrow>
     kbind (iget_field i_ref ip) (\<lambda>r.
     if r < 1 then panic ''ilock''
     else kbind (acquiresleep (Inode_lk ip)) (\<lambda>_.
     kbind (kgets (\<lambda>s. (sb s, inodes s ! ip))) (\<lambda>(sbk, x).
     kwhen (\<not> i_valid x)
      (kbind (bread (i_dev x) (IBLOCK (i_inum x) sbk)) (\<lambda>bp.
       kbind (bufget bdata bp) (\<lambda>d.
       kbind (iset_field (load_inode (get_dinode d (dinode_off (i_inum x)))) ip) (\<lambda>_.
       kbind (brelse bp) (\<lambda>_.
       kbind (iset_field (\<lambda>y. y\<lparr>i_valid := True\<rparr>) ip) (\<lambda>_.
       kbind (iget_field i_type ip) (\<lambda>ty.
       kwhen (ty = 0) (panic ''ilock: no type''))))))))))))"

definition iunlock :: "nat option \<Rightarrow> ('x fs_state_scheme, unit) kernel" where
  "iunlock ipo = (case ipo of None \<Rightarrow> panic ''iunlock'' | Some ip \<Rightarrow>
     kbind (holdingsleep (Inode_lk ip)) (\<lambda>h.
     kbind (iget_field i_ref ip) (\<lambda>r.
     if \<not> h \<or> r < 1 then panic ''iunlock'' else releasesleep (Inode_lk ip))))"

section \<open>Content\<close>

definition bmap :: "nat \<Rightarrow> u32 \<Rightarrow> ('x fs_state_scheme, u32) kernel" where
  "bmap ip bn =
     kbind (iget_field i_dev ip) (\<lambda>dev.
     if bn < 12 then
       kbind (iget_field (\<lambda>x. i_addrs x ! unat bn) ip) (\<lambda>addr.
       if addr = 0 then
         kbind (balloc dev) (\<lambda>addr.
         kbind (iset_field (\<lambda>x. x\<lparr>i_addrs := (i_addrs x)[unat bn := addr]\<rparr>) ip) (\<lambda>_. kret addr))
       else kret addr)
     else let bn = bn - 12 in
     if bn < 128 then
       kbind (iget_field (\<lambda>x. i_addrs x ! NDIRECT) ip) (\<lambda>addr.
       kbind (if addr = 0 then
           kbind (balloc dev) (\<lambda>addr.
           kbind (iset_field (\<lambda>x. x\<lparr>i_addrs := (i_addrs x)[NDIRECT := addr]\<rparr>) ip) (\<lambda>_. kret addr))
         else kret addr) (\<lambda>addr.
       kbind (bread dev addr) (\<lambda>bp.
       kbind (bufget (\<lambda>b. get32 (bdata b) (4 * unat bn)) bp) (\<lambda>addr.
       kbind (if addr = 0 then
           kbind (balloc dev) (\<lambda>addr.
           kbind (bufset (\<lambda>b. b\<lparr>bdata := put32 (bdata b) (4 * unat bn) addr\<rparr>) bp) (\<lambda>_.
           kbind (log_write bp) (\<lambda>_. kret addr)))
         else kret addr) (\<lambda>addr.
       kbind (brelse bp) (\<lambda>_. kret addr))))))
     else panic ''bmap: out of range'')"

definition itrunc_direct :: "nat \<Rightarrow> nat \<Rightarrow> ('x fs_state_scheme, unit) kernel" where
  "itrunc_direct ip i =
     kbind (kgets (\<lambda>s. (i_dev (inodes s ! ip), i_addrs (inodes s ! ip) ! i))) (\<lambda>(dev, addr).
     kwhen (addr \<noteq> 0) (kseq
      [bfree dev addr, iset_field (\<lambda>x. x\<lparr>i_addrs := (i_addrs x)[i := 0]\<rparr>) ip]))"

definition itrunc_indirect :: "nat \<Rightarrow> nat \<Rightarrow> nat \<Rightarrow> ('x fs_state_scheme, unit) kernel" where
  "itrunc_indirect ip bp j =
     kbind (kgets (\<lambda>s. (i_dev (inodes s ! ip), get32 (bdata (bufs s ! bp)) (4 * j)))) (\<lambda>(dev, addr).
     kwhen (addr \<noteq> 0) (bfree dev addr))"

definition itrunc :: "nat \<Rightarrow> ('x fs_state_scheme, unit) kernel" where
  "itrunc ip =
     kbind (kseq (map (itrunc_direct ip) [0..<NDIRECT])) (\<lambda>_.
     kbind (kgets (\<lambda>s. (i_dev (inodes s ! ip), i_addrs (inodes s ! ip) ! NDIRECT))) (\<lambda>(dev, addr).
     kbind (kwhen (addr \<noteq> 0)
        (kbind (bread dev addr) (\<lambda>bp. kseq
          [kseq (map (itrunc_indirect ip bp) [0..<NINDIRECT]),
           brelse bp,
           bfree dev addr,
           iset_field (\<lambda>x. x\<lparr>i_addrs := (i_addrs x)[NDIRECT := 0]\<rparr>) ip]))) (\<lambda>_. kseq
      [iset_field (\<lambda>x. x\<lparr>i_size := 0\<rparr>) ip, iupdate ip])))"

definition iput :: "nat \<Rightarrow> ('x fs_state_scheme, unit) kernel" where
  "iput ip =
     kbind (acquiresleep (Inode_lk ip)) (\<lambda>_.
     kbind (kgets (\<lambda>s. inodes s ! ip)) (\<lambda>x.
     kbind (kwhen (i_valid x \<and> i_nlink x = 0)
        (kbind (acquire Icache_lock) (\<lambda>_.
         kbind (iget_field i_ref ip) (\<lambda>r.
         kbind (release Icache_lock) (\<lambda>_.
         kwhen (r = 1) (kseq
          [itrunc ip,
           iset_field (\<lambda>x. x\<lparr>i_type := 0\<rparr>) ip,
           iupdate ip,
           iset_field (\<lambda>x. x\<lparr>i_valid := False\<rparr>) ip])))))) (\<lambda>_. kseq
      [releasesleep (Inode_lk ip),
       acquire Icache_lock,
       iset_field (\<lambda>x. x\<lparr>i_ref := i_ref x - 1\<rparr>) ip,
       release Icache_lock])))"

definition iunlockput :: "nat option \<Rightarrow> ('x fs_state_scheme, unit) kernel" where
  "iunlockput ipo = kbind (iunlock ipo) (\<lambda>_. kbind (deref ipo) iput)"

section \<open>Inodes in a block\<close>

lemma put_words_seq: "put_words d off vs = put_seq put32 4 d off vs"
  by (induction d off vs rule: put_words.induct) simp_all

lemma length_put_words [simp]: "length (put_words d off vs) = length d"
  by (simp add: put_words_seq rec32.length_put_seq)

lemma nth_put_words:
  "i < length d \<Longrightarrow> i < off \<or> off + 4 * length vs \<le> i \<Longrightarrow> put_words d off vs ! i = d ! i"
  by (simp add: put_words_seq rec32.nth_put_seq list_all_iff)

lemma get_put_dinode:
  assumes "off + 64 \<le> length d" "length (d_addrs i) = 13"
  shows "get_dinode (put_dinode d off i) off = i"
proof -
  have "map (\<lambda>k. get32 (put_dinode d off i) (off + 12 + 4 * k)) [0..<13] = d_addrs i"
    using assms by (intro nth_equalityI) (simp_all add: put_dinode_def put_words_seq rec32.get_put_seq list_all_iff)
  then show ?thesis
    using assms
    by (simp add: get_dinode_def)
      (simp add: put_dinode_def get16_def get32_def nth_put_words nth_put32 nth_put16 word16_bytes word32_bytes)
qed

interpretation recdi: block_record get_dinode put_dinode 64 "\<lambda>i. length (d_addrs i) = 13"
proof (unfold_locales, goal_cases)
  case (4 off d d')
  then show ?case
    by (auto simp: get_dinode_def get16_def get32_def)
qed (auto simp: get_put_dinode, auto simp: put_dinode_def nth_put_words nth_put32 nth_put16)

lemma dinode_off_bounds: "dinode_off inum + 64 \<le> BSIZE"
proof -
  have "unat (inum mod IPB) < 8"
    by (simp add: unat_mod)
  then show ?thesis
    by (simp add: dinode_off_def)
qed

lemma dinode_off_apart:
  "inum mod IPB \<noteq> inum' mod IPB \<Longrightarrow>
    dinode_off inum + 64 \<le> dinode_off inum' \<or> dinode_off inum' + 64 \<le> dinode_off inum"
  by (auto simp: dinode_off_def word_unat_eq_iff)



section \<open>Bits of the free map\<close>

lemma bit_bitmask: "bit (bitmask bi) n \<longleftrightarrow> n = bi mod 8"
  by (auto simp: bitmask_def bit_simps)

lemma bit_clear_iff: "bit_clear d bi \<longleftrightarrow> \<not> bit (d ! (bi div 8)) (bi mod 8)"
proof -
  have "d ! (bi div 8) AND bitmask bi = (if bit (d ! (bi div 8)) (bi mod 8) then bitmask bi else 0)"
    by (rule bit_word_eqI) (auto simp: bit_simps bit_bitmask)
  moreover have "bitmask bi \<noteq> 0"
    using bit_bitmask[of bi "bi mod 8"] by auto
  ultimately show ?thesis
    by (simp add: bit_clear_def)
qed

lemma same_bit: "i div 8 = j div 8 \<Longrightarrow> i mod 8 = j mod 8 \<Longrightarrow> i = (j :: nat)"
  by (metis div_mult_mod_eq)

lemma set_bit_at_clear:
  "bi div 8 < length d \<Longrightarrow> bit_clear (set_bit_at d bi) j \<longleftrightarrow> j \<noteq> bi \<and> bit_clear d j"
  by (auto simp: bit_clear_iff set_bit_at_def nth_list_update bit_simps bit_bitmask dest: same_bit)

lemma clear_bit_at_clear:
  "bi div 8 < length d \<Longrightarrow> bit_clear (clear_bit_at d bi) j \<longleftrightarrow> j = bi \<or> bit_clear d j"
  by (auto simp: bit_clear_iff clear_bit_at_def nth_list_update bit_simps bit_bitmask dest: same_bit)

lemma clear_set_bit:
  assumes "bi div 8 < length d" "bit_clear d bi"
  shows "clear_bit_at (set_bit_at d bi) bi = d"
proof -
  have "(d ! (bi div 8) OR bitmask bi) AND NOT (bitmask bi) = d ! (bi div 8)"
    using assms(2) by (intro bit_word_eqI) (auto simp: bit_simps bit_bitmask bit_clear_iff)
  then show ?thesis
    using assms(1) by (simp add: clear_bit_at_def set_bit_at_def)
qed

lemma first_clear_Some:
  "first_clear d n = Some bi \<longleftrightarrow> bi < n \<and> bit_clear d bi \<and> (\<forall>j < bi. \<not> bit_clear d j)"
  by (auto simp: first_clear_def first_index_Some_iff)

lemma first_clear_None: "first_clear d n = None \<longleftrightarrow> (\<forall>j < n. \<not> bit_clear d j)"
  by (auto simp: first_clear_def first_index_None_iff)



end
