(* ===== verification/Console.thy ===== *)
theory Console
  imports Inode
begin

unbundle bit_operations_syntax

text \<open>
  The input half of \<open>src/console.c\<close>, the keyboard of \<open>src/kbd.c\<close> and the serial port of
  \<open>src/uart.c\<close>.  The line buffer \<open>input\<close> is the fields \<open>in_buf\<close>, \<open>in_r\<close>, \<open>in_w\<close>, \<open>in_e\<close> of the state.
  A device is the list of the characters its \<open>getc\<close> returns before it returns a negative number.
\<close>

abbreviation (input) INPUT_BUF :: u32 where "INPUT_BUF \<equiv> 128"
abbreviation (input) BACKSPACE :: u32 where "BACKSPACE \<equiv> 0x100"

definition in_slot :: "u32 \<Rightarrow> nat" where
  "in_slot i = unat (i mod INPUT_BUF)"

section \<open>Line editing\<close>

function kill_line :: "u32 \<Rightarrow> u32 \<Rightarrow> u8 list \<Rightarrow> ('x cons_state_scheme, unit) kernel" where
  "kill_line e w buf =
     (if e \<noteq> w \<and> buf ! in_slot (e - 1) \<noteq> 10 then
        kbind (kmodify (\<lambda>s. s\<lparr>in_e := e - 1\<rparr>)) (\<lambda>_.
        kbind (consputc BACKSPACE) (\<lambda>_. kill_line (e - 1) w buf))
      else kret ())"
  by auto
termination
proof (relation "measure (\<lambda>(e, w, _). unat (e - w))", simp, goal_cases)
  case (1 e w buf)
  then have "e - w \<noteq> 0" by simp
  then have "unat (e - w - 1) < unat (e - w)"
    by (simp add: unat_minus_one) (simp add: unat_gt_0)
  then show ?case
    by (simp add: algebra_simps)
qed

declare kill_line.simps [simp del]

text \<open>
  One character.  The result tells whether the process listing was asked for.
\<close>

definition console_default :: "u32 \<Rightarrow> ('x proc_state_scheme, unit) kernel" where
  "console_default c0 =
     kbind (kgets (\<lambda>s. in_e s - in_r s)) (\<lambda>used.
     kwhen (c0 \<noteq> 0 \<and> used < INPUT_BUF)
      (let c = (if c0 = 13 then 10 else c0) in
       kbind (kmodify (\<lambda>s. s\<lparr>in_buf := (in_buf s)[in_slot (in_e s) := ucast c], in_e := in_e s + 1\<rparr>)) (\<lambda>_.
       kbind (consputc c) (\<lambda>_.
       kbind (kgets (\<lambda>s. in_e s = in_r s + INPUT_BUF)) (\<lambda>full.
       kwhen (c = 10 \<or> c = 4 \<or> full) (kseq
        [kmodify (\<lambda>s. s\<lparr>in_w := in_e s\<rparr>), wakeup Input_chan]))))))"

definition console_char :: "u32 \<Rightarrow> ('x proc_state_scheme, bool) kernel" where
  "console_char c =
     (if c = 16 then kret True
      else if c = 21 then
        kbind (kgets (\<lambda>s. (in_e s, in_w s, in_buf s))) (\<lambda>(e, w, b).
        kbind (kill_line e w b) (\<lambda>_. kret False))
      else if c = 8 \<or> c = 0x7f then
        kbind (kgets (\<lambda>s. in_e s \<noteq> in_w s)) (\<lambda>ne.
        kbind (kwhen ne (kseq [kmodify (\<lambda>s. s\<lparr>in_e := in_e s - 1\<rparr>), consputc BACKSPACE])) (\<lambda>_.
        kret False))
      else kbind (console_default c) (\<lambda>_. kret False))"

fun console_chars :: "u32 list \<Rightarrow> bool \<Rightarrow> ('x proc_state_scheme, bool) kernel" where
  "console_chars [] dump = kret dump"
| "console_chars (c # cs) dump = kbind (console_char c) (\<lambda>d. console_chars cs (dump \<or> d))"

definition consoleintr :: "u32 list \<Rightarrow> ('x proc_state_scheme, unit) kernel" where
  "consoleintr getc =
     kbind (acquire Cons_lock) (\<lambda>_.
     kbind (console_chars getc False) (\<lambda>doprocdump.
     kbind (release Cons_lock) (\<lambda>_. kwhen doprocdump procdump)))"

section \<open>Reading and writing the console as a file\<close>

text \<open>
  The destination of a read is given by \<open>put\<close>, which stores bytes and advances it; the source of a
  write by \<open>get\<close>, which fetches so many bytes and advances it.  A process that has to wait for input ends in
  \<open>Blocked\<close>.
\<close>

fun consoleread_loop ::
  "(u8 list \<Rightarrow> 'd \<Rightarrow> ('x fs_state_scheme, 'd) kernel) \<Rightarrow> nat \<Rightarrow> nat \<Rightarrow> 'd \<Rightarrow>
    ('x fs_state_scheme, (nat \<times> 'd) option) kernel" where
  "consoleread_loop put tgt 0 dst = kret (Some (0, dst))"
| "consoleread_loop put tgt (Suc n) dst =
     kbind (kgets (\<lambda>s. in_r s = in_w s)) (\<lambda>empty.
     if empty then
       kbind myproc (\<lambda>po. kbind (deref po) (\<lambda>p. kbind (pget killed p) (\<lambda>k.
       if k \<noteq> 0 then kret None else kbind (sleep Input_chan (Some Cons_lock)) (\<lambda>_. kstop Blocked))))
     else
       kbind (kgets (\<lambda>s. in_buf s ! in_slot (in_r s))) (\<lambda>c.
       kbind (kmodify (\<lambda>s. s\<lparr>in_r := in_r s + 1\<rparr>)) (\<lambda>_.
       if c = 4 then
         kbind (kwhen (Suc n < tgt) (kmodify (\<lambda>s. s\<lparr>in_r := in_r s - 1\<rparr>))) (\<lambda>_. kret (Some (Suc n, dst)))
       else
         kbind (put [c] dst) (\<lambda>dst'.
         if c = 10 then kret (Some (n, dst')) else consoleread_loop put tgt n dst'))))"

definition consoleread ::
  "(u8 list \<Rightarrow> 'd \<Rightarrow> ('x fs_state_scheme, 'd) kernel) \<Rightarrow> nat \<Rightarrow> 'd \<Rightarrow> u32 \<Rightarrow>
    ('x fs_state_scheme, int \<times> 'd) kernel" where
  "consoleread put ip dst n =
     kbind (iunlock (Some ip)) (\<lambda>_.
     kbind (acquire Cons_lock) (\<lambda>_.
     kbind (consoleread_loop put (nat (sint n)) (nat (sint n)) dst) (\<lambda>r.
     kbind (release Cons_lock) (\<lambda>_.
     kbind (ilock (Some ip)) (\<lambda>_.
     kret (case r of None \<Rightarrow> (-1, dst)
       | Some (left, dst') \<Rightarrow> (if sint n \<le> 0 then 0 else sint n - int left, dst')))))))"

definition consolewrite ::
  "(nat \<Rightarrow> 'd \<Rightarrow> ('x fs_state_scheme, u8 list \<times> 'd) kernel) \<Rightarrow> nat \<Rightarrow> 'd \<Rightarrow> u32 \<Rightarrow>
    ('x fs_state_scheme, int \<times> 'd) kernel" where
  "consolewrite get ip src n =
     kbind (iunlock (Some ip)) (\<lambda>_.
     kbind (acquire Cons_lock) (\<lambda>_.
     kbind (get (nat (sint n)) src) (\<lambda>(bs, src').
     kbind (kseq (map (\<lambda>c. consputc (ucast c)) bs)) (\<lambda>_.
     kbind (release Cons_lock) (\<lambda>_.
     kbind (ilock (Some ip)) (\<lambda>_. kret (sint n, src')))))))"

section \<open>kbd.c\<close>

abbreviation (input) SHIFT :: u32 where "SHIFT \<equiv> 1"
abbreviation (input) CTL :: u32 where "CTL \<equiv> 2"
abbreviation (input) ALT :: u32 where "ALT \<equiv> 4"
abbreviation (input) CAPSLOCK :: u32 where "CAPSLOCK \<equiv> 8"
abbreviation (input) NUMLOCK :: u32 where "NUMLOCK \<equiv> 16"
abbreviation (input) SCROLLLOCK :: u32 where "SCROLLLOCK \<equiv> 32"
abbreviation (input) E0ESC :: u32 where "E0ESC \<equiv> 64"

definition shiftcode :: "nat \<Rightarrow> u32" where
  "shiftcode = (\<lambda>_. 0)(0x1D := CTL, 0x2A := SHIFT, 0x36 := SHIFT, 0x38 := ALT, 0x9D := CTL, 0xB8 := ALT)"

definition togglecode :: "nat \<Rightarrow> u32" where
  "togglecode = (\<lambda>_. 0)(0x3A := CAPSLOCK, 0x45 := NUMLOCK, 0x46 := SCROLLLOCK)"

text \<open>The entries from \<open>0x97\<close> on, common to the three maps but for Enter and the divide key.\<close>

definition keypad :: "u32 \<Rightarrow> u32 \<Rightarrow> (nat \<times> u32) list" where
  "keypad enter dv = [(0x9C, enter), (0xB5, dv), (0xC8, 0xE2), (0xD0, 0xE3), (0xC9, 0xE6), (0xD1, 0xE7),
     (0xCB, 0xE4), (0xCD, 0xE5), (0x97, 0xE0), (0xCF, 0xE1), (0xD2, 0xE8), (0xD3, 0xE9)]"

definition table :: "u32 list \<Rightarrow> (nat \<times> u32) list \<Rightarrow> nat \<Rightarrow> u32" where
  "table low high i = (if i < length low then low ! i else case map_of high i of Some c \<Rightarrow> c | None \<Rightarrow> 0)"

definition chars :: "string \<Rightarrow> u32 list" where
  "chars = map of_char"

definition normalmap :: "nat \<Rightarrow> u32" where
  "normalmap = table
     ([0, 0x1B] @ chars ''1234567890-='' @ [8, 9] @ chars ''qwertyuiop[]'' @ [10, 0] @
      chars ''asdfghjkl;'' @ [39, 96, 0, 92] @ chars ''zxcvbnm,./'' @ [0, 42, 0, 32] @ replicate 13 0 @
      chars ''789-456+1230.'' @ [0, 0, 0, 0])
     (keypad 10 47)"

definition shiftmap :: "nat \<Rightarrow> u32" where
  "shiftmap = table
     ([0, 0x1B] @ chars ''!@#$%^&*()_+'' @ [8, 9] @ chars ''QWERTYUIOP{}'' @ [10, 0] @
      chars ''ASDFGHJKL:'' @ [34, 126, 0, 124] @ chars ''ZXCVBNM<>?'' @ [0, 42, 0, 32] @ replicate 13 0 @
      chars ''789-456+1230.'' @ [0, 0, 0, 0])
     (keypad 10 47)"

text \<open>\<open>C(x)\<close> is \<open>x - '@'\<close>.\<close>

definition ctrl :: "string \<Rightarrow> u32 list" where
  "ctrl = map (\<lambda>c. of_char c - 64)"

definition ctlmap :: "nat \<Rightarrow> u32" where
  "ctlmap = table
     (replicate 16 0 @ ctrl ''QWERTYUIOP'' @ [0, 0, 13, 0] @ ctrl ''ASDFGHJKL'' @ [0, 0, 0, 0] @
      [92 - 64] @ ctrl ''ZXCVBNM'' @ [0, 0, 0xEF, 0, 0])
     (keypad 13 0xEF)"

definition charcode :: "u32 \<Rightarrow> nat \<Rightarrow> u32" where
  "charcode m = (if m = 0 then normalmap else if m = 1 then shiftmap else ctlmap)"

definition capitals :: "u32 \<Rightarrow> u32" where
  "capitals c = (if 97 \<le> c \<and> c \<le> 122 then c + 65 - 97 else if 65 \<le> c \<and> c \<le> 90 then c + 97 - 65 else c)"

text \<open>\<open>kbdgetc\<close> on one data byte from the controller: the character and the new \<open>shift\<close>.\<close>

definition kbdgetc :: "u32 \<Rightarrow> u8 \<Rightarrow> u32 \<times> u32" where
  "kbdgetc shift byte =
     (let data = (ucast byte :: u32) in
      if data = 0xE0 then (0, shift OR E0ESC)
      else if data AND 0x80 \<noteq> 0 then
        let data = (if shift AND E0ESC \<noteq> 0 then data else data AND 0x7F) in
        (0, shift AND NOT (shiftcode (unat data) OR E0ESC))
      else
        let esc = shift AND E0ESC \<noteq> 0;
            data = unat (if esc then data OR 0x80 else data);
            shift = (if esc then shift AND NOT E0ESC else shift);
            shift = (shift OR shiftcode data) XOR togglecode data;
            c = charcode (shift AND (CTL OR SHIFT)) data
        in (if shift AND CAPSLOCK \<noteq> 0 then capitals c else c, shift))"

fun kbd_chars :: "u32 \<Rightarrow> u8 list \<Rightarrow> u32 list \<times> u32" where
  "kbd_chars shift [] = ([], shift)"
| "kbd_chars shift (d # ds) =
     (let (c, shift') = kbdgetc shift d; (cs, shift'') = kbd_chars shift' ds in (c # cs, shift''))"

record cons_in_state = fs_state +
  kbd_shift :: u32
  kbd_data :: "u8 list"
  com1_in :: "u8 list"
  devsw_console :: bool

definition kbdintr :: "('x cons_in_state_scheme, unit) kernel" where
  "kbdintr =
     kbind (kgets (\<lambda>s. kbd_chars (kbd_shift s) (kbd_data s))) (\<lambda>(cs, sh).
     kbind (kmodify (\<lambda>s. s\<lparr>kbd_shift := sh, kbd_data := []\<rparr>)) (\<lambda>_. consoleintr cs))"

section \<open>uart.c\<close>

definition uartintr :: "('x cons_in_state_scheme, unit) kernel" where
  "uartintr =
     kbind (kgets (\<lambda>s. if uart s = 0 then [] else map ucast (com1_in s))) (\<lambda>cs.
     kbind (kmodify (\<lambda>s. if uart s = 0 then s else s\<lparr>com1_in := []\<rparr>)) (\<lambda>_. consoleintr cs))"

end
