(* ===== verification/Fs.thy ===== *)
theory Fs
  imports Console
begin

unbundle bit_operations_syntax

text \<open>
  The upper half of \<open>src/fs.c\<close>: reading and writing an inode's content, directories and path names.
  A C string is the list of its bytes before the terminating zero.
\<close>

abbreviation (input) DIRSIZ :: nat where "DIRSIZ \<equiv> 14"
abbreviation (input) NDEV :: int where "NDEV \<equiv> 10"

section \<open>Reading and writing\<close>

text \<open>
  The loop of \<open>readi\<close> at offset \<open>off\<close> with \<open>rem\<close> bytes to go.  The destination is advanced by \<open>put\<close>, the
  source by \<open>get\<close>.
\<close>

function readi_loop ::
  "(u8 list \<Rightarrow> 'd \<Rightarrow> ('x fs_state_scheme, 'd) kernel) \<Rightarrow> nat \<Rightarrow> 'd \<Rightarrow> nat \<Rightarrow> nat \<Rightarrow>
    ('x fs_state_scheme, 'd) kernel" where
  "readi_loop put ip dst off rem =
     (if 0 < rem then
        let m = min rem (BSIZE - off mod BSIZE) in
        kbind (iget_field i_dev ip) (\<lambda>dev.
        kbind (bmap ip (of_nat (off div BSIZE))) (\<lambda>addr.
        kbind (bread dev addr) (\<lambda>bp.
        kbind (bufget (\<lambda>b. take m (drop (off mod BSIZE) (bdata b))) bp) (\<lambda>bs.
        kbind (put bs dst) (\<lambda>dst'.
        kbind (brelse bp) (\<lambda>_. readi_loop put ip dst' (off + m) (rem - m)))))))
      else kret dst)"
  by auto
termination
  by (relation "measure (\<lambda>(_, _, _, _, rem). rem)") auto

declare readi_loop.simps [simp del]

definition is_device :: "inode \<Rightarrow> bool \<Rightarrow> bool" where
  "is_device x present \<longleftrightarrow> \<not> (sint (i_major x) < 0 \<or> sint (i_major x) \<ge> NDEV \<or> i_major x \<noteq> 1 \<or> \<not> present)"

definition readi ::
  "(u8 list \<Rightarrow> 'd \<Rightarrow> ('x cons_in_state_scheme, 'd) kernel) \<Rightarrow> nat \<Rightarrow> 'd \<Rightarrow> u32 \<Rightarrow> u32 \<Rightarrow>
    ('x cons_in_state_scheme, int \<times> 'd) kernel" where
  "readi put ip dst off n =
     kbind (kgets (\<lambda>s. (inodes s ! ip, devsw_console s))) (\<lambda>(x, dv).
     if i_type x = T_DEV then
       if \<not> is_device x dv then kret (-1, dst) else consoleread put ip dst n
     else if off > i_size x \<or> off + n < off then kret (-1, dst)
     else
       let n' = (if off + n > i_size x then i_size x - off else n) in
       kbind (readi_loop put ip dst (unat off) (unat n')) (\<lambda>dst'. kret (uint n', dst')))"

function writei_loop ::
  "(nat \<Rightarrow> 'd \<Rightarrow> ('x fs_state_scheme, u8 list \<times> 'd) kernel) \<Rightarrow> nat \<Rightarrow> 'd \<Rightarrow> nat \<Rightarrow> nat \<Rightarrow>
    ('x fs_state_scheme, 'd) kernel" where
  "writei_loop get ip src off rem =
     (if 0 < rem then
        let m = min rem (BSIZE - off mod BSIZE) in
        kbind (iget_field i_dev ip) (\<lambda>dev.
        kbind (bmap ip (of_nat (off div BSIZE))) (\<lambda>addr.
        kbind (bread dev addr) (\<lambda>bp.
        kbind (get m src) (\<lambda>(bs, src').
        kbind (bufset (\<lambda>b. b\<lparr>bdata := take (off mod BSIZE) (bdata b) @ bs @ drop (off mod BSIZE + m) (bdata b)\<rparr>) bp) (\<lambda>_.
        kbind (log_write bp) (\<lambda>_.
        kbind (brelse bp) (\<lambda>_. writei_loop get ip src' (off + m) (rem - m))))))))
      else kret src)"
  by auto
termination
  by (relation "measure (\<lambda>(_, _, _, _, rem). rem)") auto

declare writei_loop.simps [simp del]

definition writei ::
  "(nat \<Rightarrow> 'd \<Rightarrow> ('x cons_in_state_scheme, u8 list \<times> 'd) kernel) \<Rightarrow> nat \<Rightarrow> 'd \<Rightarrow> u32 \<Rightarrow> u32 \<Rightarrow>
    ('x cons_in_state_scheme, int \<times> 'd) kernel" where
  "writei get ip src off n =
     kbind (kgets (\<lambda>s. (inodes s ! ip, devsw_console s))) (\<lambda>(x, dv).
     if i_type x = T_DEV then
       if \<not> is_device x dv then kret (-1, src) else consolewrite get ip src n
     else if off > i_size x \<or> off + n < off then kret (-1, src)
     else if unat (off + n) > MAXFILE * BSIZE then kret (-1, src)
     else
       kbind (writei_loop get ip src (unat off) (unat n)) (\<lambda>src'.
       kbind (iget_field i_size ip) (\<lambda>len.
       kbind (kwhen (n > 0 \<and> off + n > len) (kseq
         [iset_field (\<lambda>y. y\<lparr>i_size := off + n\<rparr>) ip, iupdate ip])) (\<lambda>_.
       kret (uint n, src')))))"

text \<open>A local variable as destination and as source.\<close>

definition put_local :: "u8 list \<Rightarrow> u8 list \<Rightarrow> ('s, u8 list) kernel" where
  "put_local bs acc = kret (acc @ bs)"

definition get_local :: "nat \<Rightarrow> u8 list \<Rightarrow> ('s, u8 list \<times> u8 list) kernel" where
  "get_local m acc = kret (take m acc, drop m acc)"

section \<open>Directories\<close>

record dirent =
  de_inum :: u16
  de_name :: "u8 list"

definition dirent_of :: "u8 list \<Rightarrow> dirent" where
  "dirent_of bs = \<lparr>de_inum = get16 bs 0, de_name = take DIRSIZ (drop 2 bs)\<rparr>"

definition dirent_bytes :: "dirent \<Rightarrow> u8 list" where
  "dirent_bytes de = [ucast (de_inum de), ucast (drop_bit 8 (de_inum de))] @ de_name de"

text \<open>\<open>strncmp\<close> and \<open>strncpy\<close> on the bytes of two strings; beyond its end a string reads as zero.\<close>

definition byte_at :: "u8 list \<Rightarrow> u8" where
  "byte_at s = (case s of [] \<Rightarrow> 0 | c # _ \<Rightarrow> c)"

fun strncmp_bytes :: "u8 list \<Rightarrow> u8 list \<Rightarrow> nat \<Rightarrow> int" where
  "strncmp_bytes s t 0 = 0"
| "strncmp_bytes s t (Suc n) =
     (if byte_at s \<noteq> 0 \<and> byte_at s = byte_at t then strncmp_bytes (tl s) (tl t) n
      else uint (byte_at s) - uint (byte_at t))"

definition namecmp :: "u8 list \<Rightarrow> u8 list \<Rightarrow> int" where
  "namecmp s t = strncmp_bytes s t DIRSIZ"

fun strncpy_bytes :: "u8 list \<Rightarrow> nat \<Rightarrow> u8 list" where
  "strncpy_bytes s 0 = []"
| "strncpy_bytes s (Suc n) = (if byte_at s = 0 then replicate (Suc n) 0 else byte_at s # strncpy_bytes (tl s) n)"

text \<open>\<open>readi(dp, &de, off, sizeof(de))\<close> and the check of its result.\<close>

definition read_dirent :: "string \<Rightarrow> nat \<Rightarrow> u32 \<Rightarrow> ('x cons_in_state_scheme, dirent) kernel" where
  "read_dirent msg dp off =
     kbind (readi put_local dp [] off 16) (\<lambda>(r, bs).
     if r \<noteq> 16 then panic msg else kret (dirent_of bs))"

text \<open>\<open>for(off = 0; off < dp->size; off += sizeof(de))\<close>, with \<open>off\<close> in steps of 16.\<close>

definition dirent_offsets :: "u32 \<Rightarrow> nat list" where
  "dirent_offsets len = map (\<lambda>k. 16 * k) [0..<(unat len + 15) div 16]"

fun dirlookup_scan :: "nat \<Rightarrow> u8 list \<Rightarrow> nat list \<Rightarrow> ('x cons_in_state_scheme, (nat \<times> nat) option) kernel" where
  "dirlookup_scan dp nm [] = kret None"
| "dirlookup_scan dp nm (off # offs) =
     kbind (read_dirent ''dirlookup read'' dp (of_nat off)) (\<lambda>de.
     if de_inum de = 0 then dirlookup_scan dp nm offs
     else if namecmp nm (de_name de) = 0 then
       kbind (iget_field i_dev dp) (\<lambda>dev.
       kbind (iget dev (ucast (de_inum de))) (\<lambda>ip. kret (Some (ip, off))))
     else dirlookup_scan dp nm offs)"

definition dirlookup :: "nat \<Rightarrow> u8 list \<Rightarrow> ('x cons_in_state_scheme, (nat \<times> nat) option) kernel" where
  "dirlookup dp nm =
     kbind (kgets (\<lambda>s. inodes s ! dp)) (\<lambda>x.
     if i_type x \<noteq> T_DIR then panic ''dirlookup not DIR''
     else dirlookup_scan dp nm (dirent_offsets (i_size x)))"

fun dirlink_scan :: "nat \<Rightarrow> nat list \<Rightarrow> nat \<Rightarrow> ('x cons_in_state_scheme, nat) kernel" where
  "dirlink_scan dp [] fin = kret fin"
| "dirlink_scan dp (off # offs) fin =
     kbind (read_dirent ''dirlink read'' dp (of_nat off)) (\<lambda>de.
     if de_inum de = 0 then kret off else dirlink_scan dp offs fin)"

definition dirlink :: "nat \<Rightarrow> u8 list \<Rightarrow> u32 \<Rightarrow> ('x cons_in_state_scheme, int) kernel" where
  "dirlink dp nm inum =
     kbind (dirlookup dp nm) (\<lambda>r.
     case r of
       Some (ip, _) \<Rightarrow> kbind (iput ip) (\<lambda>_. kret (-1))
     | None \<Rightarrow>
         kbind (iget_field i_size dp) (\<lambda>len.
         let offs = dirent_offsets len in
         kbind (dirlink_scan dp offs (16 * length offs)) (\<lambda>off.
         let de = \<lparr>de_inum = ucast inum, de_name = strncpy_bytes nm DIRSIZ\<rparr> in
         kbind (writei get_local dp (dirent_bytes de) (of_nat off) 16) (\<lambda>(r, _).
         if r \<noteq> 16 then panic ''dirlink'' else kret 0))))"

section \<open>Paths\<close>

abbreviation (input) SLASH :: u8 where "SLASH \<equiv> 47"

text \<open>The next element and the rest of the path, or \<open>None\<close> when there is no element.\<close>

definition skipelem :: "u8 list \<Rightarrow> (u8 list \<times> u8 list) option" where
  "skipelem path =
     (let path = dropWhile (\<lambda>c. c = SLASH) path in
      if path = [] then None
      else
        let elem = takeWhile (\<lambda>c. c \<noteq> SLASH) path; rest = dropWhile (\<lambda>c. c \<noteq> SLASH) path in
        Some (take DIRSIZ elem, dropWhile (\<lambda>c. c = SLASH) rest))"

lemma skipelem_less: "skipelem path = Some (elem, rest) \<Longrightarrow> length rest < length path"
proof -
  assume s: "skipelem path = Some (elem, rest)"
  let ?p = "dropWhile (\<lambda>c. c = SLASH) path"
  have ne: "?p \<noteq> []" and rest: "rest = dropWhile (\<lambda>c. c = SLASH) (dropWhile (\<lambda>c. c \<noteq> SLASH) ?p)"
    using s by (auto simp: skipelem_def Let_def split: if_splits)
  have "hd ?p \<noteq> SLASH"
    using hd_dropWhile[of "\<lambda>c. c = SLASH" path] ne by simp
  then have "length (dropWhile (\<lambda>c. c \<noteq> SLASH) ?p) < length ?p"
    using ne by (cases ?p) (auto intro: le_imp_less_Suc length_dropWhile_le)
  moreover have "length rest \<le> length (dropWhile (\<lambda>c. c \<noteq> SLASH) ?p)" "length ?p \<le> length path"
    unfolding rest by (rule length_dropWhile_le)+
  ultimately show "length rest < length path"
    by linarith
qed

text \<open>
  The loop of \<open>namex\<close>: the result is the inode and the last element found, which \<open>nameiparent\<close>
  hands to its caller.
\<close>

function namex_loop :: "nat \<Rightarrow> u8 list \<Rightarrow> bool \<Rightarrow> u8 list \<Rightarrow> ('x cons_in_state_scheme, (nat \<times> u8 list) option) kernel" where
  "namex_loop ip path wantparent nm =
     (case skipelem path of
        None \<Rightarrow>
          if wantparent then kbind (iput ip) (\<lambda>_. kret None) else kret (Some (ip, nm))
      | Some (elem, rest) \<Rightarrow>
          kbind (ilock (Some ip)) (\<lambda>_.
          kbind (iget_field i_type ip) (\<lambda>ty.
          if ty \<noteq> T_DIR then kbind (iunlockput (Some ip)) (\<lambda>_. kret None)
          else if wantparent \<and> rest = [] then kbind (iunlock (Some ip)) (\<lambda>_. kret (Some (ip, elem)))
          else kbind (dirlookup ip elem) (\<lambda>r.
            case r of
              None \<Rightarrow> kbind (iunlockput (Some ip)) (\<lambda>_. kret None)
            | Some (nxt, _) \<Rightarrow>
                kbind (iunlockput (Some ip)) (\<lambda>_. namex_loop nxt rest wantparent elem)))))"
  by auto
termination
  by (relation "measure (\<lambda>(_, path, _, _). length path)") (auto dest: skipelem_less)

declare namex_loop.simps [simp del]

definition namex :: "u8 list \<Rightarrow> bool \<Rightarrow> ('x cons_in_state_scheme, (nat \<times> u8 list) option) kernel" where
  "namex path wantparent =
     kbind (if path \<noteq> [] \<and> hd path = SLASH then iget ROOTDEV ROOTINO
        else kbind myproc (\<lambda>po. kbind (deref po) (\<lambda>p.
          kbind (pget cwd p) (\<lambda>c. kbind (deref c) idup)))) (\<lambda>ip.
     namex_loop ip path wantparent [])"

definition namei :: "u8 list \<Rightarrow> ('x cons_in_state_scheme, nat option) kernel" where
  "namei path = kbind (namex path False) (\<lambda>r. kret (map_option fst r))"

definition nameiparent :: "u8 list \<Rightarrow> ('x cons_in_state_scheme, (nat \<times> u8 list) option) kernel" where
  "nameiparent path = namex path True"

section \<open>Directory entries and path elements\<close>

lemma dirent_of_bytes: "length (de_name de) = 14 \<Longrightarrow> dirent_of (dirent_bytes de) = de"
  by (simp add: dirent_of_def dirent_bytes_def get16_def word16_bytes)

lemma length_strncpy_bytes [simp]: "length (strncpy_bytes s n) = n"
  by (induction s n rule: strncpy_bytes.induct) simp_all

lemma strncmp_strncpy:
  "0 \<notin> set s \<Longrightarrow> 0 \<notin> set t \<Longrightarrow> strncmp_bytes s (strncpy_bytes t n) n = 0 \<longleftrightarrow> take n s = take n t"
proof (induction s t n arbitrary: rule: strncmp_bytes.induct)
  case (2 s t n)
  then show ?case
    by (cases s; cases t) (auto simp: byte_at_def unsigned_eq_0_iff dest: word_uint_eqI)
qed simp

fun split_slash :: "u8 list \<Rightarrow> u8 list list" where
  "split_slash [] = [[]]"
| "split_slash (c # cs) =
     (if c = SLASH then [] # split_slash cs
      else case split_slash cs of [] \<Rightarrow> [[c]] | e # es \<Rightarrow> (c # e) # es)"

definition path_spec :: "u8 list \<Rightarrow> u8 list list" where
  "path_spec path = map (take DIRSIZ) (filter (\<lambda>e. e \<noteq> []) (split_slash path))"

function path_elems :: "u8 list \<Rightarrow> u8 list list" where
  "path_elems path = (case skipelem path of None \<Rightarrow> [] | Some (elem, rest) \<Rightarrow> elem # path_elems rest)"
  by auto
termination
  by (relation "measure length") (auto dest: skipelem_less)

declare path_elems.simps [simp del]

lemma split_slash_ne: "split_slash p \<noteq> []"
  by (cases p) (auto split: list.splits)

lemma path_spec_slash: "path_spec (SLASH # p) = path_spec p"
  by (simp add: path_spec_def)

lemma path_spec_drop: "path_spec (dropWhile (\<lambda>c. c = SLASH) p) = path_spec p"
  by (induction p) (auto simp: path_spec_slash)

lemma split_slash_elem:
  "split_slash p = takeWhile (\<lambda>c. c \<noteq> SLASH) p #
     (case dropWhile (\<lambda>c. c \<noteq> SLASH) p of [] \<Rightarrow> [] | _ # r \<Rightarrow> split_slash r)"
  by (induction p) (auto split: list.splits)

lemma path_spec_elem:
  assumes "p \<noteq> []" "hd p \<noteq> SLASH"
  shows "path_spec p = take DIRSIZ (takeWhile (\<lambda>c. c \<noteq> SLASH) p) # path_spec (dropWhile (\<lambda>c. c \<noteq> SLASH) p)"
proof -
  have ne: "takeWhile (\<lambda>c. c \<noteq> SLASH) p \<noteq> []"
    using assms by (cases p) auto
  show ?thesis
  proof (cases "dropWhile (\<lambda>c. c \<noteq> SLASH) p")
    case Nil
    have "split_slash p = [takeWhile (\<lambda>c. c \<noteq> SLASH) p]"
      by (subst split_slash_elem) (simp only: Nil list.case)
    then show ?thesis
      unfolding Nil using ne by (simp add: path_spec_def)
  next
    case (Cons c r)
    then have "c = SLASH"
      using hd_dropWhile[of "\<lambda>c. c \<noteq> SLASH" p] by simp
    then show ?thesis using Cons ne split_slash_elem[of p] by (simp add: path_spec_def)
  qed
qed

lemma path_elems_spec: "path_elems p = path_spec p"
proof (induction p rule: path_elems.induct)
  case (1 p)
  let ?q = "dropWhile (\<lambda>c. c = SLASH) p"
  show ?case
  proof (cases "?q = []")
    case True
    then have "path_spec p = path_spec []"
      by (metis path_spec_drop)
    moreover have "skipelem p = None"
      using True by (simp add: skipelem_def)
    ultimately show ?thesis
      by (simp add: path_elems.simps[of p] path_spec_def)
  next
    case False
    then have "hd ?q \<noteq> SLASH"
      using hd_dropWhile[of "\<lambda>c. c = SLASH" p] by simp
    then have spec: "path_spec p = take DIRSIZ (takeWhile (\<lambda>c. c \<noteq> SLASH) ?q) #
        path_spec (dropWhile (\<lambda>c. c = SLASH) (dropWhile (\<lambda>c. c \<noteq> SLASH) ?q))"
      using path_spec_elem[OF False] path_spec_drop[of p] path_spec_drop[of "dropWhile (\<lambda>c. c \<noteq> SLASH) ?q"]
      by simp
    have "skipelem p = Some (take DIRSIZ (takeWhile (\<lambda>c. c \<noteq> SLASH) ?q),
        dropWhile (\<lambda>c. c = SLASH) (dropWhile (\<lambda>c. c \<noteq> SLASH) ?q))"
      using False by (simp add: skipelem_def Let_def)
    then show ?thesis
      using 1 spec by (simp add: path_elems.simps[of p])
  qed
qed



text \<open>
  C20: Taking elements off a path with \<open>skipelem\<close> until there is none ends, and yields the non-empty parts
  between slashes in order, each cut to \<open>DIRSIZ\<close> characters.
\<close>

theorem skipelem_splits: "path_elems path = path_spec path"
  by (rule path_elems_spec)

end
