(* ===== verification/File.thy ===== *)
theory File
  imports Fs
begin

unbundle bit_operations_syntax

text \<open>
  Open files and pipes, \<open>src/file.c\<close> and \<open>src/pipe.c\<close>.  A \<open>struct file *\<close> is an index into
  \<open>ftable.file\<close>; a \<open>struct pipe *\<close> is the address of the page the pipe lives in, whose content the
  map \<open>pipes\<close> gives as a record.
\<close>

abbreviation (input) NFILE :: nat where "NFILE \<equiv> 100"
abbreviation (input) PIPESIZE :: u32 where "PIPESIZE \<equiv> 512"

datatype ftype = FD_NONE | FD_PIPE | FD_INODE

record kfile =
  f_type :: ftype
  f_ref :: int
  f_readable :: bool
  f_writable :: bool
  f_pipe :: u32
  f_ip :: "nat option"
  f_off :: u32

record pipe =
  p_data :: "u8 list"
  nread :: u32
  nwrite :: u32
  readopen :: bool
  writeopen :: bool

record file_state = cons_in_state +
  files :: "kfile list"
  pipes :: "u32 \<Rightarrow> pipe"

definition upd_file :: "nat \<Rightarrow> (kfile \<Rightarrow> kfile) \<Rightarrow> 'x file_state_scheme \<Rightarrow> 'x file_state_scheme" where
  "upd_file i f s = s\<lparr>files := (files s)[i := f (files s ! i)]\<rparr>"

definition fset :: "(kfile \<Rightarrow> kfile) \<Rightarrow> nat \<Rightarrow> ('x file_state_scheme, unit) kernel" where
  "fset f i = kmodify (upd_file i f)"

definition upd_pipe :: "u32 \<Rightarrow> (pipe \<Rightarrow> pipe) \<Rightarrow> 'x file_state_scheme \<Rightarrow> 'x file_state_scheme" where
  "upd_pipe p f s = s\<lparr>pipes := (pipes s)(p := f (pipes s p))\<rparr>"

definition pipeset :: "(pipe \<Rightarrow> pipe) \<Rightarrow> u32 \<Rightarrow> ('x file_state_scheme, unit) kernel" where
  "pipeset f p = kmodify (upd_pipe p f)"

section \<open>Memory as the running kernel sees it\<close>

text \<open>
  An address above \<open>KERNBASE\<close> is itself; below, the processor translates it with the page directory
  in \<open>cr3\<close>, and refuses a store to a page that is not writable.
\<close>

definition kva :: "bool \<Rightarrow> u32 \<Rightarrow> 'x kmem_state_scheme \<Rightarrow> u32 option" where
  "kva wr va s =
     (if KERNBASE \<le> va then Some va
      else case translate (mem s) (P2V (cr3 (hw s (this s)))) va of
        None \<Rightarrow> None
      | Some (pa, fl) \<Rightarrow> if wr \<and> fl AND PTE_W = 0 then None else Some (P2V pa))"

fun put_mem :: "u8 list \<Rightarrow> u32 \<Rightarrow> ('x kmem_state_scheme, u32) kernel" where
  "put_mem [] dst = kret dst"
| "put_mem (b # bs) dst =
     kbind (kgets (kva True dst)) (\<lambda>r.
     case r of None \<Rightarrow> kstop Fault
     | Some a \<Rightarrow> kbind (kmodify (\<lambda>s. s\<lparr>mem := (mem s)(a := b)\<rparr>)) (\<lambda>_. put_mem bs (dst + 1)))"

fun get_mem :: "nat \<Rightarrow> u32 \<Rightarrow> ('x kmem_state_scheme, u8 list \<times> u32) kernel" where
  "get_mem 0 src = kret ([], src)"
| "get_mem (Suc n) src =
     kbind (kgets (\<lambda>s. map_option (mem s) (kva False src s))) (\<lambda>r.
     case r of None \<Rightarrow> kstop Fault
     | Some b \<Rightarrow> kbind (get_mem n (src + 1)) (\<lambda>(bs, src'). kret (b # bs, src')))"

section \<open>file.c: the table\<close>

definition fileinit :: "('x mach_scheme, unit) kernel" where
  "fileinit = initlock Ftable_lock ''ftable''"

definition filealloc :: "('x file_state_scheme, nat option) kernel" where
  "filealloc =
     kbind (acquire Ftable_lock) (\<lambda>_.
     kbind (kgets (\<lambda>s. first_index (\<lambda>f. f_ref f = 0) (files s))) (\<lambda>found.
     kbind (case found of None \<Rightarrow> kret () | Some f \<Rightarrow> fset (\<lambda>x. x\<lparr>f_ref := 1\<rparr>) f) (\<lambda>_.
     kbind (release Ftable_lock) (\<lambda>_. kret found))))"

definition filedup :: "nat \<Rightarrow> ('x file_state_scheme, nat) kernel" where
  "filedup f =
     kbind (acquire Ftable_lock) (\<lambda>_.
     kbind (kgets (\<lambda>s. f_ref (files s ! f))) (\<lambda>r.
     if r < 1 then panic ''filedup''
     else kbind (kseq [fset (\<lambda>x. x\<lparr>f_ref := f_ref x + 1\<rparr>) f, release Ftable_lock]) (\<lambda>_. kret f)))"

section \<open>pipe.c: closing\<close>

definition pipeclose :: "u32 \<Rightarrow> bool \<Rightarrow> ('x file_state_scheme, unit) kernel" where
  "pipeclose p writable =
     kbind (acquire (Pipe_lock p)) (\<lambda>_.
     kbind (if writable then kseq [pipeset (\<lambda>x. x\<lparr>writeopen := False\<rparr>) p, wakeup (Pipe_nread p)]
        else kseq [pipeset (\<lambda>x. x\<lparr>readopen := False\<rparr>) p, wakeup (Pipe_nwrite p)]) (\<lambda>_.
     kbind (kgets (\<lambda>s. pipes s p)) (\<lambda>x.
     kbind (release (Pipe_lock p)) (\<lambda>_.
     kwhen (\<not> readopen x \<and> \<not> writeopen x) (kfree p)))))"

definition fileclose :: "nat \<Rightarrow> ('x file_state_scheme, unit) kernel" where
  "fileclose f =
     kbind (acquire Ftable_lock) (\<lambda>_.
     kbind (kgets (\<lambda>s. f_ref (files s ! f))) (\<lambda>r.
     if r < 1 then panic ''fileclose''
     else kbind (fset (\<lambda>x. x\<lparr>f_ref := f_ref x - 1\<rparr>) f) (\<lambda>_.
     if r - 1 > 0 then release Ftable_lock
     else kbind (kgets (\<lambda>s. files s ! f)) (\<lambda>ff.
     kbind (kseq
      [fset (\<lambda>x. x\<lparr>f_ref := 0\<rparr>) f,
       fset (\<lambda>x. x\<lparr>f_type := FD_NONE\<rparr>) f,
       release Ftable_lock]) (\<lambda>_.
     case f_type ff of
       FD_PIPE \<Rightarrow> pipeclose (f_pipe ff) (f_writable ff)
     | FD_INODE \<Rightarrow> kseq [begin_op, kbind (deref (f_ip ff)) iput, end_op]
     | FD_NONE \<Rightarrow> kret ())))))"

section \<open>pipe.c\<close>

definition pipealloc_bad :: "u32 \<Rightarrow> nat option \<Rightarrow> nat option \<Rightarrow> ('x file_state_scheme, 'a option) kernel" where
  "pipealloc_bad p f0 f1 =
     kbind (kseq
      [kwhen (p \<noteq> 0) (kfree p),
       (case f0 of None \<Rightarrow> kret () | Some f \<Rightarrow> fileclose f),
       (case f1 of None \<Rightarrow> kret () | Some f \<Rightarrow> fileclose f)]) (\<lambda>_. kret None)"

definition pipealloc :: "('x file_state_scheme, (nat \<times> nat) option) kernel" where
  "pipealloc =
     kbind filealloc (\<lambda>f0.
     case f0 of None \<Rightarrow> pipealloc_bad 0 None None | Some g0 \<Rightarrow>
     kbind filealloc (\<lambda>f1.
     case f1 of None \<Rightarrow> pipealloc_bad 0 f0 None | Some g1 \<Rightarrow>
     kbind kalloc (\<lambda>p.
     if p = 0 then pipealloc_bad p f0 f1
     else kbind (kseq
      [pipeset (\<lambda>x. x\<lparr>readopen := True\<rparr>) p,
       pipeset (\<lambda>x. x\<lparr>writeopen := True\<rparr>) p,
       pipeset (\<lambda>x. x\<lparr>nwrite := 0\<rparr>) p,
       pipeset (\<lambda>x. x\<lparr>nread := 0\<rparr>) p,
       initlock (Pipe_lock p) ''pipe'',
       fset (\<lambda>x. x\<lparr>f_type := FD_PIPE, f_readable := True, f_writable := False, f_pipe := p\<rparr>) g0,
       fset (\<lambda>x. x\<lparr>f_type := FD_PIPE, f_readable := False, f_writable := True, f_pipe := p\<rparr>) g1]) (\<lambda>_.
      kret (Some (g0, g1))))))"

text \<open>
  Writing stops with the bytes written, with an error, or asleep with so many bytes to go.  The
  loop is given up to the point where the process sleeps; \<open>pipewrite_resume\<close> goes on from there.
\<close>

datatype 'd pipe_write = W_done | W_fail | W_wait nat 'd "nat \<times> u32"

definition pipe_full :: "pipe \<Rightarrow> bool" where
  "pipe_full x \<longleftrightarrow> nwrite x = nread x + PIPESIZE"

definition pipe_put :: "u8 \<Rightarrow> pipe \<Rightarrow> pipe" where
  "pipe_put c x = x\<lparr>p_data := (p_data x)[unat (nwrite x mod PIPESIZE) := c], nwrite := nwrite x + 1\<rparr>"

definition pipe_get :: "pipe \<Rightarrow> u8 \<times> pipe" where
  "pipe_get x = (p_data x ! unat (nread x mod PIPESIZE), x\<lparr>nread := nread x + 1\<rparr>)"

definition my_killed :: "('x proc_state_scheme, bool) kernel" where
  "my_killed = kbind myproc (\<lambda>po. kbind (deref po) (\<lambda>p. kbind (pget killed p) (\<lambda>k. kret (k \<noteq> 0))))"

fun pipewrite_loop ::
  "(nat \<Rightarrow> 'd \<Rightarrow> ('x file_state_scheme, u8 list \<times> 'd) kernel) \<Rightarrow> u32 \<Rightarrow> nat \<Rightarrow> 'd \<Rightarrow>
    ('x file_state_scheme, 'd pipe_write) kernel" where
  "pipewrite_loop get p 0 src =
     kbind (kseq [wakeup (Pipe_nread p), release (Pipe_lock p)]) (\<lambda>_. kret W_done)"
| "pipewrite_loop get p (Suc n) src =
     kbind (kgets (\<lambda>s. pipes s p)) (\<lambda>x.
     if pipe_full x then
       kbind (if \<not> readopen x then kret True else my_killed) (\<lambda>stop.
       if stop then kbind (release (Pipe_lock p)) (\<lambda>_. kret W_fail)
       else
         kbind (wakeup (Pipe_nread p)) (\<lambda>_.
         kbind (sleep_enter (Pipe_nwrite p) (Some (Pipe_lock p))) (\<lambda>r. kret (W_wait (Suc n) src r))))
     else
       kbind (get 1 src) (\<lambda>(bs, src').
       kbind (pipeset (pipe_put (bs ! 0)) p) (\<lambda>_. pipewrite_loop get p n src')))"

definition pipewrite_enter ::
  "(nat \<Rightarrow> 'd \<Rightarrow> ('x file_state_scheme, u8 list \<times> 'd) kernel) \<Rightarrow> u32 \<Rightarrow> 'd \<Rightarrow> u32 \<Rightarrow>
    ('x file_state_scheme, 'd pipe_write) kernel" where
  "pipewrite_enter get p src n = kbind (acquire (Pipe_lock p)) (\<lambda>_. pipewrite_loop get p (nat (sint n)) src)"

definition pipewrite_resume ::
  "(nat \<Rightarrow> 'd \<Rightarrow> ('x file_state_scheme, u8 list \<times> 'd) kernel) \<Rightarrow> u32 \<Rightarrow> nat \<Rightarrow> 'd \<Rightarrow> nat \<times> u32 \<Rightarrow>
    ('x file_state_scheme, 'd pipe_write) kernel" where
  "pipewrite_resume get p n src r =
     kbind (sleep_exit (fst r) (Pipe_lock p) (snd r)) (\<lambda>_. pipewrite_loop get p n src)"

definition pipewrite ::
  "(nat \<Rightarrow> 'd \<Rightarrow> ('x file_state_scheme, u8 list \<times> 'd) kernel) \<Rightarrow> u32 \<Rightarrow> 'd \<Rightarrow> u32 \<Rightarrow>
    ('x file_state_scheme, int) kernel" where
  "pipewrite get p src n =
     kbind (pipewrite_enter get p src n) (\<lambda>r.
     case r of W_done \<Rightarrow> kret (sint n) | W_fail \<Rightarrow> kret (-1) | W_wait _ _ _ \<Rightarrow> kstop Blocked)"

datatype pipe_read = R_done nat | R_fail | R_wait "nat \<times> u32"

fun piperead_copy ::
  "(u8 list \<Rightarrow> 'd \<Rightarrow> ('x file_state_scheme, 'd) kernel) \<Rightarrow> u32 \<Rightarrow> nat \<Rightarrow> 'd \<Rightarrow>
    ('x file_state_scheme, nat) kernel" where
  "piperead_copy put p 0 dst = kret 0"
| "piperead_copy put p (Suc n) dst =
     kbind (kgets (\<lambda>s. pipes s p)) (\<lambda>x.
     if nread x = nwrite x then kret 0
     else
       kbind (pipeset (\<lambda>y. snd (pipe_get y)) p) (\<lambda>_.
       kbind (put [fst (pipe_get x)] dst) (\<lambda>dst'.
       kbind (piperead_copy put p n dst') (\<lambda>i. kret (Suc i)))))"

definition piperead_try ::
  "(u8 list \<Rightarrow> 'd \<Rightarrow> ('x file_state_scheme, 'd) kernel) \<Rightarrow> u32 \<Rightarrow> 'd \<Rightarrow> u32 \<Rightarrow>
    ('x file_state_scheme, pipe_read) kernel" where
  "piperead_try put p dst n =
     kbind (kgets (\<lambda>s. pipes s p)) (\<lambda>x.
     if nread x = nwrite x \<and> writeopen x then
       kbind my_killed (\<lambda>k.
       if k then kbind (release (Pipe_lock p)) (\<lambda>_. kret R_fail)
       else kbind (sleep_enter (Pipe_nread p) (Some (Pipe_lock p))) (\<lambda>r. kret (R_wait r)))
     else
       kbind (piperead_copy put p (nat (sint n)) dst) (\<lambda>i.
       kbind (kseq [wakeup (Pipe_nwrite p), release (Pipe_lock p)]) (\<lambda>_. kret (R_done i))))"

definition piperead_enter ::
  "(u8 list \<Rightarrow> 'd \<Rightarrow> ('x file_state_scheme, 'd) kernel) \<Rightarrow> u32 \<Rightarrow> 'd \<Rightarrow> u32 \<Rightarrow>
    ('x file_state_scheme, pipe_read) kernel" where
  "piperead_enter put p dst n = kbind (acquire (Pipe_lock p)) (\<lambda>_. piperead_try put p dst n)"

definition piperead_resume ::
  "(u8 list \<Rightarrow> 'd \<Rightarrow> ('x file_state_scheme, 'd) kernel) \<Rightarrow> u32 \<Rightarrow> 'd \<Rightarrow> u32 \<Rightarrow> nat \<times> u32 \<Rightarrow>
    ('x file_state_scheme, pipe_read) kernel" where
  "piperead_resume put p dst n r =
     kbind (sleep_exit (fst r) (Pipe_lock p) (snd r)) (\<lambda>_. piperead_try put p dst n)"

definition piperead ::
  "(u8 list \<Rightarrow> 'd \<Rightarrow> ('x file_state_scheme, 'd) kernel) \<Rightarrow> u32 \<Rightarrow> 'd \<Rightarrow> u32 \<Rightarrow>
    ('x file_state_scheme, int) kernel" where
  "piperead put p dst n =
     kbind (piperead_enter put p dst n) (\<lambda>r.
     case r of R_done i \<Rightarrow> kret (int i) | R_fail \<Rightarrow> kret (-1) | R_wait _ \<Rightarrow> kstop Blocked)"

section \<open>file.c: operations\<close>

definition bytes_of_word :: "u32 \<Rightarrow> u8 list" where
  "bytes_of_word v = [ucast v, ucast (drop_bit 8 v), ucast (drop_bit 16 v), ucast (drop_bit 24 v)]"

definition bytes_of_short :: "u16 \<Rightarrow> u8 list" where
  "bytes_of_short v = [ucast v, ucast (drop_bit 8 v)]"

definition put_at :: "u32 \<Rightarrow> u8 list \<Rightarrow> ('x kmem_state_scheme, unit) kernel" where
  "put_at a bs = kbind (put_mem bs a) (\<lambda>_. kret ())"

text \<open>\<open>stati\<close> of \<open>src/fs.c\<close>, with the layout of \<open>struct stat\<close> (20 bytes, the shorts padded).\<close>

definition stati :: "nat \<Rightarrow> u32 \<Rightarrow> ('x fs_state_scheme, unit) kernel" where
  "stati ip st =
     kbind (kgets (\<lambda>s. inodes s ! ip)) (\<lambda>x. kseq
      [put_at (st + 4) (bytes_of_word (i_dev x)),
       put_at (st + 8) (bytes_of_word (i_inum x)),
       put_at st (bytes_of_short (i_type x)),
       put_at (st + 12) (bytes_of_short (i_nlink x)),
       put_at (st + 16) (bytes_of_word (i_size x))])"

definition filestat :: "nat \<Rightarrow> u32 \<Rightarrow> ('x file_state_scheme, int) kernel" where
  "filestat f st =
     kbind (kgets (\<lambda>s. files s ! f)) (\<lambda>ff.
     if f_type ff = FD_INODE then
       kbind (ilock (f_ip ff)) (\<lambda>_. kbind (deref (f_ip ff)) (\<lambda>ip.
       kbind (stati ip st) (\<lambda>_. kbind (iunlock (f_ip ff)) (\<lambda>_. kret 0))))
     else kret (-1))"

definition fileread :: "nat \<Rightarrow> u32 \<Rightarrow> u32 \<Rightarrow> ('x file_state_scheme, int) kernel" where
  "fileread f addr n =
     kbind (kgets (\<lambda>s. files s ! f)) (\<lambda>ff.
     if \<not> f_readable ff then kret (-1)
     else case f_type ff of
       FD_PIPE \<Rightarrow> piperead put_mem (f_pipe ff) addr n
     | FD_INODE \<Rightarrow>
         kbind (ilock (f_ip ff)) (\<lambda>_. kbind (deref (f_ip ff)) (\<lambda>ip.
         kbind (kgets (\<lambda>s. f_off (files s ! f))) (\<lambda>off.
         kbind (readi put_mem ip addr off n) (\<lambda>(r, _).
         kbind (kwhen (r > 0) (fset (\<lambda>x. x\<lparr>f_off := f_off x + of_int r\<rparr>) f)) (\<lambda>_.
         kbind (iunlock (f_ip ff)) (\<lambda>_. kret r))))))
     | FD_NONE \<Rightarrow> panic ''fileread'')"

text \<open>\<open>max\<close> is \<open>((MAXOPBLOCKS-1-1-2) / 2) * 512\<close>.\<close>

function filewrite_loop :: "nat \<Rightarrow> nat option \<Rightarrow> u32 \<Rightarrow> nat \<Rightarrow> ('x file_state_scheme, bool) kernel" where
  "filewrite_loop f ipo addr left =
     (if 0 < left then
        let n1 = min left 1536 in
        kbind begin_op (\<lambda>_.
        kbind (ilock ipo) (\<lambda>_. kbind (deref ipo) (\<lambda>ip.
        kbind (kgets (\<lambda>s. f_off (files s ! f))) (\<lambda>off.
        kbind (writei get_mem ip addr off (of_nat n1)) (\<lambda>(r, _).
        kbind (kwhen (r > 0) (fset (\<lambda>x. x\<lparr>f_off := f_off x + of_int r\<rparr>) f)) (\<lambda>_.
        kbind (iunlock ipo) (\<lambda>_.
        kbind end_op (\<lambda>_.
        if r < 0 then kret False
        else if r \<noteq> int n1 then panic ''short filewrite''
        else filewrite_loop f ipo (addr + of_nat n1) (left - n1)))))))))
      else kret True)"
  by auto
termination
  by (relation "measure (\<lambda>(_, _, _, left). left)") auto

declare filewrite_loop.simps [simp del]

definition filewrite :: "nat \<Rightarrow> u32 \<Rightarrow> u32 \<Rightarrow> ('x file_state_scheme, int) kernel" where
  "filewrite f addr n =
     kbind (kgets (\<lambda>s. files s ! f)) (\<lambda>ff.
     if \<not> f_writable ff then kret (-1)
     else case f_type ff of
       FD_PIPE \<Rightarrow> pipewrite get_mem (f_pipe ff) addr n
     | FD_INODE \<Rightarrow>
         kbind (filewrite_loop f (f_ip ff) addr (nat (sint n))) (\<lambda>ok.
         kret (if ok \<and> 0 \<le> sint n then sint n else -1))
     | FD_NONE \<Rightarrow> panic ''filewrite'')"

end
