(* ===== verification/Exec.thy ===== *)
theory Exec
  imports File
begin

unbundle bit_operations_syntax

text \<open>
  The parts of \<open>src/proc.c\<close> that use the file system (\<open>userinit\<close>, \<open>fork\<close>, \<open>exit\<close>, \<open>forkret\<close>), the
  access to system call arguments in \<open>src/syscall.c\<close>, and \<open>src/exec.c\<close>.
\<close>

abbreviation (input) MAXARG :: nat where "MAXARG \<equiv> 32"
abbreviation (input) SEG_UCODE :: u16 where "SEG_UCODE \<equiv> 3"
abbreviation (input) SEG_UDATA :: u16 where "SEG_UDATA \<equiv> 4"
abbreviation (input) DPL_USER :: u16 where "DPL_USER \<equiv> 3"

section \<open>Helpers\<close>

definition kstore16 :: "u32 \<Rightarrow> u16 \<Rightarrow> ('x kmem_state_scheme, unit) kernel" where
  "kstore16 a v = kwrite a [ucast v, ucast (drop_bit 8 v)]"

definition kload16 :: "u32 \<Rightarrow> ('x kmem_state_scheme, u16) kernel" where
  "kload16 a = kgets (\<lambda>s. ucast (mem s a) OR push_bit 8 (ucast (mem s (a + 1))))"

text \<open>
  \<open>safestrcpy(old, src, n)\<close> on the bytes of the destination array: at most \<open>n - 1\<close> bytes of the
  string, then a zero; the rest of the array keeps what it had.
\<close>

definition safestrcpy_bytes :: "u8 list \<Rightarrow> u8 list \<Rightarrow> nat \<Rightarrow> u8 list" where
  "safestrcpy_bytes old src n =
     (let str = take (n - 1) (takeWhile (\<lambda>c. c \<noteq> 0) src) in
      if n = 0 then old else str @ 0 # drop (Suc (length str)) old)"

definition bytes_of :: "string \<Rightarrow> u8 list" where
  "bytes_of str = map of_char str"

section \<open>proc.c\<close>

definition userinit :: "u32 \<Rightarrow> u32 \<Rightarrow> ('x cons_in_state_scheme, unit) kernel" where
  "userinit initcode_start initcode_size =
     kbind allocproc (\<lambda>po.
     kbind (kmodify (\<lambda>s. s\<lparr>initproc := po\<rparr>)) (\<lambda>_.
     kbind setupkvm (\<lambda>pgd. kbind (deref po) (\<lambda>p.
     kbind (pset (\<lambda>q. q\<lparr>pgdir := pgd\<rparr>) p) (\<lambda>_.
     if pgd = 0 then panic ''userinit: out of memory?''
     else
       kbind (inituvm pgd initcode_start initcode_size) (\<lambda>_.
       kbind (pset (\<lambda>q. q\<lparr>sz := PGSIZE\<rparr>) p) (\<lambda>_.
       kbind (pget tf p) (\<lambda>t.
       kbind (kseq
        [kmemset t 0 TF_SIZE,
         kstore16 (t + TF_CS) (push_bit 3 SEG_UCODE OR DPL_USER),
         kstore16 (t + TF_DS) (push_bit 3 SEG_UDATA OR DPL_USER),
         kbind (kload16 (t + TF_DS)) (kstore16 (t + TF_ES)),
         kbind (kload16 (t + TF_DS)) (kstore16 (t + TF_SS)),
         kstore (t + TF_EFLAGS) FL_IF,
         kstore (t + TF_ESP) PGSIZE,
         kstore (t + TF_EIP) 0,
         pset (\<lambda>q. q\<lparr>name := safestrcpy_bytes (name q) (bytes_of ''initcode'') 16\<rparr>) p]) (\<lambda>_.
       kbind (namei (bytes_of ''/'')) (\<lambda>ip. kseq
        [pset (\<lambda>q. q\<lparr>cwd := ip\<rparr>) p,
         acquire Ptable_lock,
         pset (\<lambda>q. q\<lparr>state := RUNNABLE\<rparr>) p,
         release Ptable_lock]))))))))))"

definition fork_file :: "nat \<Rightarrow> nat \<Rightarrow> nat \<Rightarrow> ('x file_state_scheme, unit) kernel" where
  "fork_file curproc np i =
     kbind (pget (\<lambda>q. ofile q ! i) curproc) (\<lambda>fo.
     case fo of None \<Rightarrow> kret ()
     | Some f \<Rightarrow> kbind (filedup f) (\<lambda>g. pset (\<lambda>q. q\<lparr>ofile := (ofile q)[i := Some g]\<rparr>) np))"

definition fork :: "('x file_state_scheme, u32) kernel" where
  "fork =
     kbind myproc (\<lambda>po.
     kbind allocproc (\<lambda>npo.
     case npo of None \<Rightarrow> kret (-1) | Some np \<Rightarrow>
     kbind (deref po) (\<lambda>curproc.
     kbind (kgets (\<lambda>s. procs s ! curproc)) (\<lambda>cur.
     kbind (copyuvm (pgdir cur) (sz cur)) (\<lambda>pgd.
     kbind (pset (\<lambda>q. q\<lparr>pgdir := pgd\<rparr>) np) (\<lambda>_.
     if pgd = 0 then
       kbind (pget kstack np) (\<lambda>ks.
       kbind (kseq
        [kfree ks,
         pset (\<lambda>q. q\<lparr>kstack := 0\<rparr>) np,
         pset (\<lambda>q. q\<lparr>state := UNUSED\<rparr>) np]) (\<lambda>_. kret (-1)))
     else
       kbind (pget tf np) (\<lambda>ntf.
       kbind (kseq
        [pset (\<lambda>q. q\<lparr>sz := sz cur\<rparr>) np,
         pset (\<lambda>q. q\<lparr>parent := Some curproc\<rparr>) np,
         kmemmove ntf (tf cur) TF_SIZE,
         kstore (ntf + TF_EAX) 0,
         kseq (map (fork_file curproc np) [0..<NOFILE]),
         kbind (pget cwd curproc) (\<lambda>co. kbind (deref co) (\<lambda>c.
           kbind (idup c) (\<lambda>d. pset (\<lambda>q. q\<lparr>cwd := Some d\<rparr>) np))),
         kbind (pget name curproc) (\<lambda>nm. pset (\<lambda>q. q\<lparr>name := safestrcpy_bytes (name q) nm 16\<rparr>) np)]) (\<lambda>_.
       kbind (pget pid np) (\<lambda>pd.
       kbind (fork_publish np) (\<lambda>_. kret pd))))))))))"

definition exit_file :: "nat \<Rightarrow> nat \<Rightarrow> ('x file_state_scheme, unit) kernel" where
  "exit_file curproc fd =
     kbind (pget (\<lambda>q. ofile q ! fd) curproc) (\<lambda>fo.
     case fo of None \<Rightarrow> kret ()
     | Some f \<Rightarrow> kseq [fileclose f, pset (\<lambda>q. q\<lparr>ofile := (ofile q)[fd := None]\<rparr>) curproc])"

text \<open>Up to the switch, which never comes back.\<close>

definition exit_enter :: "('x file_state_scheme, u32) kernel" where
  "exit_enter =
     kbind myproc (\<lambda>po.
     kbind (kgets initproc) (\<lambda>ip.
     if po = ip then panic ''init exiting''
     else kbind (deref po) (\<lambda>curproc.
     kbind (kseq
      [kseq (map (exit_file curproc) [0..<NOFILE]),
       begin_op,
       kbind (pget cwd curproc) (\<lambda>co. kbind (deref co) iput),
       end_op,
       pset (\<lambda>q. q\<lparr>cwd := None\<rparr>) curproc]) (\<lambda>_.
     exit_last curproc))))"

definition forkret :: "('x fs_state_scheme, unit) kernel" where
  "forkret =
     kbind (release Ptable_lock) (\<lambda>_.
     kbind (kgets first) (\<lambda>f.
     kwhen f (kseq [kmodify (\<lambda>s. s\<lparr>first := False\<rparr>), iinit ROOTDEV, initlog ROOTDEV])))"

section \<open>syscall.c: arguments\<close>

text \<open>
  The result is \<open>None\<close> where the code returns \<open>-1\<close>, else what it stores through its pointer
  argument.  A string comes with the address where it lies.
\<close>

fun word_of_bytes :: "u8 list \<Rightarrow> u32" where
  "word_of_bytes [] = 0"
| "word_of_bytes (b # bs) = ucast b OR push_bit 8 (word_of_bytes bs)"

definition fetchint :: "u32 \<Rightarrow> ('x proc_state_scheme, u32 option) kernel" where
  "fetchint addr =
     kbind myproc (\<lambda>po. kbind (deref po) (\<lambda>curproc.
     kbind (pget sz curproc) (\<lambda>len.
     if addr \<ge> len \<or> addr + 4 > len then kret None
     else kbind (get_mem 4 addr) (\<lambda>(bs, _). kret (Some (word_of_bytes bs))))))"

text \<open>The scan for the terminating zero, with \<open>n\<close> bytes left before the end of the process.\<close>

fun fetchstr_scan :: "nat \<Rightarrow> u32 \<Rightarrow> ('x kmem_state_scheme, u8 list option) kernel" where
  "fetchstr_scan 0 s = kret None"
| "fetchstr_scan (Suc n) s =
     kbind (get_mem 1 s) (\<lambda>(bs, s').
     if bs ! 0 = 0 then kret (Some [])
     else kbind (fetchstr_scan n s') (\<lambda>r. kret (map_option ((#) (bs ! 0)) r)))"

definition fetchstr :: "u32 \<Rightarrow> ('x proc_state_scheme, (u32 \<times> u8 list) option) kernel" where
  "fetchstr addr =
     kbind myproc (\<lambda>po. kbind (deref po) (\<lambda>curproc.
     kbind (pget sz curproc) (\<lambda>len.
     if addr \<ge> len then kret None
     else kbind (fetchstr_scan (unat len - unat addr) addr) (\<lambda>r. kret (map_option (Pair addr) r)))))"

definition argint :: "u32 \<Rightarrow> ('x proc_state_scheme, u32 option) kernel" where
  "argint n =
     kbind myproc (\<lambda>po. kbind (deref po) (\<lambda>curproc.
     kbind (pget tf curproc) (\<lambda>t.
     kbind (kload (t + TF_ESP)) (\<lambda>esp. fetchint (esp + 4 + 4 * n)))))"

definition argptr :: "u32 \<Rightarrow> u32 \<Rightarrow> ('x proc_state_scheme, u32 option) kernel" where
  "argptr n len =
     kbind myproc (\<lambda>po.
     kbind (argint n) (\<lambda>r.
     case r of None \<Rightarrow> kret None | Some i \<Rightarrow>
     kbind (deref po) (\<lambda>curproc.
     kbind (pget sz curproc) (\<lambda>lim.
     if len <s 0 \<or> i \<ge> lim \<or> i + len > lim then kret None else kret (Some i)))))"

definition argstr :: "u32 \<Rightarrow> ('x proc_state_scheme, (u32 \<times> u8 list) option) kernel" where
  "argstr n =
     kbind (argint n) (\<lambda>r. case r of None \<Rightarrow> kret None | Some addr \<Rightarrow> fetchstr addr)"

section \<open>exec.c\<close>

abbreviation (input) ELF_MAGIC :: u32 where "ELF_MAGIC \<equiv> 0x464C457F"
abbreviation (input) ELF_PROG_LOAD :: u32 where "ELF_PROG_LOAD \<equiv> 1"

record elfhdr =
  e_magic :: u32
  e_entry :: u32
  e_phoff :: u32
  e_phnum :: u16

definition elfhdr_of :: "u8 list \<Rightarrow> elfhdr" where
  "elfhdr_of bs = \<lparr>e_magic = get32 bs 0, e_entry = get32 bs 24, e_phoff = get32 bs 28, e_phnum = get16 bs 44\<rparr>"

record proghdr =
  ph_type :: u32
  ph_off :: u32
  ph_vaddr :: u32
  ph_filesz :: u32
  ph_memsz :: u32

definition proghdr_of :: "u8 list \<Rightarrow> proghdr" where
  "proghdr_of bs = \<lparr>ph_type = get32 bs 0, ph_off = get32 bs 4, ph_vaddr = get32 bs 8,
     ph_filesz = get32 bs 16, ph_memsz = get32 bs 20\<rparr>"

text \<open>\<open>readi\<close> into memory, as \<open>loaduvm\<close> calls it.\<close>

definition readi_mem :: "nat \<Rightarrow> u32 \<Rightarrow> u32 \<Rightarrow> u32 \<Rightarrow> ('x cons_in_state_scheme, u32) kernel" where
  "readi_mem ip dst off n = kbind (readi put_mem ip dst off n) (\<lambda>(r, _). kret (of_int r))"

text \<open>The program headers one by one; \<open>None\<close> is \<open>goto bad\<close>.\<close>

fun exec_load :: "nat \<Rightarrow> u32 \<Rightarrow> nat \<Rightarrow> u32 \<Rightarrow> u32 \<Rightarrow> ('x cons_in_state_scheme, u32 option) kernel" where
  "exec_load ip pgd 0 off newsz = kret (Some newsz)"
| "exec_load ip pgd (Suc k) off newsz =
     kbind (readi put_local ip [] off 32) (\<lambda>(r, bs).
     if r \<noteq> 32 then kret None
     else let ph = proghdr_of bs in
     if ph_type ph \<noteq> ELF_PROG_LOAD then exec_load ip pgd k (off + 32) newsz
     else if ph_memsz ph < ph_filesz ph then kret None
     else if ph_vaddr ph + ph_memsz ph < ph_vaddr ph then kret None
     else kbind (allocuvm pgd newsz (ph_vaddr ph + ph_memsz ph)) (\<lambda>newsz'.
     if newsz' = 0 then kret None
     else if ph_vaddr ph mod PGSIZE \<noteq> 0 then kret None
     else kbind (loaduvm (readi_mem ip) pgd (ph_vaddr ph) (ph_off ph) (ph_filesz ph)) (\<lambda>r.
     if r < 0 then kret None else exec_load ip pgd k (off + 32) newsz')))"

text \<open>
  The argument strings, pushed one by one: the stack pointer after them and their addresses.  The
  strings lie in the old loaded of the process; \<open>argv\<close> gives them with their bytes.
\<close>

fun exec_args ::
  "u32 \<Rightarrow> (u32 \<times> u8 list) list \<Rightarrow> nat \<Rightarrow> u32 \<Rightarrow> u32 list \<Rightarrow> ('x kmem_state_scheme, (u32 \<times> u32 list) option) kernel" where
  "exec_args pgd [] argc sp ustack = kret (Some (sp, ustack))"
| "exec_args pgd ((a, str) # argv) argc sp ustack =
     (if argc \<ge> MAXARG then kret None
      else
        let len = of_nat (length str) + 1; sp' = (sp - len) AND NOT 3 in
        kbind (copyout get_mem pgd sp' a len) (\<lambda>r.
        if r < 0 then kret None else exec_args pgd argv (Suc argc) sp' (ustack @ [sp'])))"



text \<open>The words of \<open>ustack\<close> for arguments at \<open>args\<close>, the last string at \<open>sp\<close>.\<close>

definition exec_ustack :: "u32 \<Rightarrow> u32 list \<Rightarrow> u32 list" where
  "exec_ustack sp args =
     (let argc = of_nat (length args) in
      [0xffffffff, argc, sp - (argc + 1) * 4] @ args @ [0])"

text \<open>The part of the path after its last slash.\<close>

fun exec_last :: "u8 list \<Rightarrow> u8 list \<Rightarrow> u8 list" where
  "exec_last lst [] = lst"
| "exec_last lst (c # s) = exec_last (if c = SLASH then s else lst) s"

definition exec_bad :: "u32 \<Rightarrow> nat option \<Rightarrow> ('x fs_state_scheme, int) kernel" where
  "exec_bad pgd ipo = kbind (kseq
     [kwhen (pgd \<noteq> 0) (freevm pgd),
      (case ipo of None \<Rightarrow> kret () | Some ip \<Rightarrow> kseq [iunlockput (Some ip), end_op])]) (\<lambda>_. kret (-1))"

text \<open>From the commit to the new loaded on.\<close>

definition exec_commit :: "nat \<Rightarrow> u8 list \<Rightarrow> u32 \<Rightarrow> u32 \<Rightarrow> u32 \<Rightarrow> u32 \<Rightarrow> ('x proc_state_scheme, int) kernel" where
  "exec_commit curproc path pgd newsz entry_pt sp =
     kbind (pset (\<lambda>q. q\<lparr>name := safestrcpy_bytes (name q) (exec_last path path) 16\<rparr>) curproc) (\<lambda>_.
     kbind (pget pgdir curproc) (\<lambda>oldpgdir.
     kbind (pget tf curproc) (\<lambda>t.
     kbind (kseq
      [pset (\<lambda>q. q\<lparr>pgdir := pgd\<rparr>) curproc,
       pset (\<lambda>q. q\<lparr>sz := newsz\<rparr>) curproc,
       kstore (t + TF_EIP) entry_pt,
       kstore (t + TF_ESP) sp]) (\<lambda>_.
     kbind (kgets (\<lambda>s. procs s ! curproc)) (\<lambda>pr.
     kbind (switchuvm (Some pr)) (\<lambda>_.
     kbind (freevm oldpgdir) (\<lambda>_. kret 0)))))))"

text \<open>The new stack: two pages, the lower one a guard, with the arguments on it.\<close>

definition exec_stack ::
  "nat \<Rightarrow> u8 list \<Rightarrow> (u32 \<times> u8 list) list \<Rightarrow> u32 \<Rightarrow> u32 \<Rightarrow> u32 \<Rightarrow> ('x fs_state_scheme, int) kernel" where
  "exec_stack curproc path argv pgd loaded entry_pt =
     (let base = PGROUNDUP loaded in
      kbind (allocuvm pgd base (base + 2 * PGSIZE)) (\<lambda>newsz.
      if newsz = 0 then exec_bad pgd None
      else
        kbind (clearpteu pgd (newsz - 2 * PGSIZE)) (\<lambda>_.
        kbind (exec_args pgd argv 0 newsz []) (\<lambda>r.
        case r of None \<Rightarrow> exec_bad pgd None
        | Some (sp, args) \<Rightarrow>
            let words = exec_ustack sp args; sp' = sp - of_nat (length words) * 4 in
            kbind (copyout get_local pgd sp' (concat (map bytes_of_word words)) (of_nat (length words) * 4)) (\<lambda>r.
            if r < 0 then exec_bad pgd None
            else exec_commit curproc path pgd newsz entry_pt sp')))))"

definition exec :: "u8 list \<Rightarrow> (u32 \<times> u8 list) list \<Rightarrow> ('x cons_in_state_scheme, int) kernel" where
  "exec path argv =
     kbind myproc (\<lambda>po.
     kbind begin_op (\<lambda>_.
     kbind (namei path) (\<lambda>ipo.
     case ipo of
       None \<Rightarrow> kbind end_op (\<lambda>_. kbind (cprintf ''exec: fail\<newline>'' []) (\<lambda>_. kret (-1)))
     | Some ip \<Rightarrow>
         kbind (ilock (Some ip)) (\<lambda>_.
         kbind (readi put_local ip [] 0 52) (\<lambda>(r, bs).
         if r \<noteq> 52 then exec_bad 0 (Some ip)
         else let elf = elfhdr_of bs in
         if e_magic elf \<noteq> ELF_MAGIC then exec_bad 0 (Some ip)
         else kbind setupkvm (\<lambda>pgd.
         if pgd = 0 then exec_bad 0 (Some ip)
         else kbind (exec_load ip pgd (unat (e_phnum elf)) (e_phoff elf) 0) (\<lambda>ro.
         case ro of None \<Rightarrow> exec_bad pgd (Some ip)
         | Some newsz \<Rightarrow>
             kbind (iunlockput (Some ip)) (\<lambda>_.
             kbind end_op (\<lambda>_.
             kbind (deref po) (\<lambda>curproc.
             exec_stack curproc path argv pgd newsz (e_entry elf)))))))))))"

end
