(* ===== verification/Sysfile.thy ===== *)
theory Sysfile
  imports Exec
begin

unbundle bit_operations_syntax

text \<open>
  The system calls of \<open>src/sysfile.c\<close>.  Each is the whole handler, from the arguments on the user
  stack to the value returned in \<open>%eax\<close>.
\<close>

abbreviation (input) O_RDONLY :: u32 where "O_RDONLY \<equiv> 0"
abbreviation (input) O_WRONLY :: u32 where "O_WRONLY \<equiv> 1"
abbreviation (input) O_RDWR :: u32 where "O_RDWR \<equiv> 2"
abbreviation (input) O_CREATE :: u32 where "O_CREATE \<equiv> 0x200"

text \<open>\<open>bind_some m f\<close>: return -1 when \<open>m\<close> fails.\<close>

definition bind_some :: "('s, 'a option) kernel \<Rightarrow> ('a \<Rightarrow> ('s, u32) kernel) \<Rightarrow> ('s, u32) kernel" where
  "bind_some m f = kbind m (\<lambda>r. case r of None \<Rightarrow> kret (-1) | Some x \<Rightarrow> f x)"

definition fails :: "('s, unit) kernel list \<Rightarrow> ('s, u32) kernel" where
  "fails ms = kbind (kseq ms) (\<lambda>_. kret (-1))"

definition ret_int :: "('s, int) kernel \<Rightarrow> ('s, u32) kernel" where
  "ret_int m = kbind m (\<lambda>r. kret (of_int r))"

section \<open>Descriptors\<close>

definition argfd :: "u32 \<Rightarrow> ('x proc_state_scheme, (nat \<times> nat) option) kernel" where
  "argfd n =
     kbind (argint n) (\<lambda>r.
     case r of None \<Rightarrow> kret None | Some fd \<Rightarrow>
     if fd <s 0 \<or> 16 \<le>s fd then kret None
     else kbind myproc (\<lambda>po. kbind (deref po) (\<lambda>p.
       kbind (pget (\<lambda>q. ofile q ! unat fd) p) (\<lambda>fo. kret (map_option (Pair (unat fd)) fo)))))"

definition fdalloc :: "nat \<Rightarrow> ('x proc_state_scheme, nat option) kernel" where
  "fdalloc f =
     kbind myproc (\<lambda>po. kbind (deref po) (\<lambda>curproc.
     kbind (pget (\<lambda>q. first_index (\<lambda>x. x = None) (ofile q)) curproc) (\<lambda>fdo.
     case fdo of None \<Rightarrow> kret None
     | Some fd \<Rightarrow> kbind (pset (\<lambda>q. q\<lparr>ofile := (ofile q)[fd := Some f]\<rparr>) curproc) (\<lambda>_. kret (Some fd)))))"

definition clear_fd :: "nat \<Rightarrow> ('x proc_state_scheme, unit) kernel" where
  "clear_fd fd = kbind myproc (\<lambda>po. kbind (deref po) (\<lambda>p. pset (\<lambda>q. q\<lparr>ofile := (ofile q)[fd := None]\<rparr>) p))"

definition sys_dup :: "('x file_state_scheme, u32) kernel" where
  "sys_dup =
     bind_some (argfd 0) (\<lambda>(_, f).
     bind_some (fdalloc f) (\<lambda>fd.
     kbind (filedup f) (\<lambda>_. kret (of_nat fd))))"

definition sys_read :: "('x file_state_scheme, u32) kernel" where
  "sys_read =
     bind_some (argfd 0) (\<lambda>(_, f).
     bind_some (argint 2) (\<lambda>n.
     bind_some (argptr 1 n) (\<lambda>p. ret_int (fileread f p n))))"

definition sys_write :: "('x file_state_scheme, u32) kernel" where
  "sys_write =
     bind_some (argfd 0) (\<lambda>(_, f).
     bind_some (argint 2) (\<lambda>n.
     bind_some (argptr 1 n) (\<lambda>p. ret_int (filewrite f p n))))"

definition sys_close :: "('x file_state_scheme, u32) kernel" where
  "sys_close =
     bind_some (argfd 0) (\<lambda>(fd, f).
     kbind (clear_fd fd) (\<lambda>_.
     kbind (fileclose f) (\<lambda>_. kret 0)))"

definition sys_fstat :: "('x file_state_scheme, u32) kernel" where
  "sys_fstat =
     bind_some (argfd 0) (\<lambda>(_, f).
     bind_some (argptr 1 20) (\<lambda>st. ret_int (filestat f st)))"

section \<open>Links\<close>

definition sys_link_bad :: "nat \<Rightarrow> ('x fs_state_scheme, u32) kernel" where
  "sys_link_bad ip = fails
     [ilock (Some ip),
      iset_field (\<lambda>x. x\<lparr>i_nlink := i_nlink x - 1\<rparr>) ip,
      iupdate ip,
      iunlockput (Some ip),
      end_op]"

definition sys_link :: "('x cons_in_state_scheme, u32) kernel" where
  "sys_link =
     bind_some (argstr 0) (\<lambda>(_, old).
     bind_some (argstr 1) (\<lambda>(_, new).
     kbind begin_op (\<lambda>_.
     kbind (namei old) (\<lambda>ipo.
     case ipo of None \<Rightarrow> fails [end_op] | Some ip \<Rightarrow>
     kbind (ilock (Some ip)) (\<lambda>_.
     kbind (iget_field i_type ip) (\<lambda>ty.
     if ty = T_DIR then fails [iunlockput (Some ip), end_op]
     else
       kbind (kseq
        [iset_field (\<lambda>x. x\<lparr>i_nlink := i_nlink x + 1\<rparr>) ip,
         iupdate ip,
         iunlock (Some ip)]) (\<lambda>_.
       kbind (nameiparent new) (\<lambda>dpo.
       case dpo of None \<Rightarrow> sys_link_bad ip | Some (dp, nm) \<Rightarrow>
       kbind (ilock (Some dp)) (\<lambda>_.
       kbind (kgets (\<lambda>s. (i_dev (inodes s ! dp), i_dev (inodes s ! ip), i_inum (inodes s ! ip)))) (\<lambda>(ddev, idev, inum).
       kbind (if ddev \<noteq> idev then kret (-1) else dirlink dp nm inum) (\<lambda>r.
       if r < 0 then kbind (iunlockput (Some dp)) (\<lambda>_. sys_link_bad ip)
       else kbind (kseq [iunlockput (Some dp), iput ip, end_op]) (\<lambda>_. kret 0))))))))))))"

fun isdirempty_scan :: "nat \<Rightarrow> nat list \<Rightarrow> ('x cons_in_state_scheme, bool) kernel" where
  "isdirempty_scan dp [] = kret True"
| "isdirempty_scan dp (off # offs) =
     kbind (read_dirent ''isdirempty: readi'' dp (of_nat off)) (\<lambda>de.
     if de_inum de \<noteq> 0 then kret False else isdirempty_scan dp offs)"

definition isdirempty :: "nat \<Rightarrow> ('x cons_in_state_scheme, bool) kernel" where
  "isdirempty dp =
     kbind (iget_field i_size dp) (\<lambda>len. isdirempty_scan dp (drop 2 (dirent_offsets len)))"

definition sys_unlink_entry :: "nat \<Rightarrow> nat \<Rightarrow> nat \<Rightarrow> ('x cons_in_state_scheme, u32) kernel" where
  "sys_unlink_entry dp ip off =
     kbind (writei get_local dp (replicate 16 0) (of_nat off) 16) (\<lambda>(r, _).
     if r \<noteq> 16 then panic ''unlink: writei''
     else
       kbind (iget_field i_type ip) (\<lambda>ty.
       kbind (kseq
        [kwhen (ty = T_DIR) (kseq [iset_field (\<lambda>x. x\<lparr>i_nlink := i_nlink x - 1\<rparr>) dp, iupdate dp]),
         iunlockput (Some dp),
         iset_field (\<lambda>x. x\<lparr>i_nlink := i_nlink x - 1\<rparr>) ip,
         iupdate ip,
         iunlockput (Some ip),
         end_op]) (\<lambda>_. kret 0)))"

definition sys_unlink :: "('x cons_in_state_scheme, u32) kernel" where
  "sys_unlink =
     bind_some (argstr 0) (\<lambda>(_, path).
     kbind begin_op (\<lambda>_.
     kbind (nameiparent path) (\<lambda>dpo.
     case dpo of None \<Rightarrow> fails [end_op] | Some (dp, nm) \<Rightarrow>
     kbind (ilock (Some dp)) (\<lambda>_.
     if namecmp nm (bytes_of ''.'') = 0 \<or> namecmp nm (bytes_of ''..'') = 0
     then fails [iunlockput (Some dp), end_op]
     else kbind (dirlookup dp nm) (\<lambda>r.
     case r of None \<Rightarrow> fails [iunlockput (Some dp), end_op] | Some (ip, off) \<Rightarrow>
     kbind (ilock (Some ip)) (\<lambda>_.
     kbind (kgets (\<lambda>s. inodes s ! ip)) (\<lambda>x.
     if sint (i_nlink x) < 1 then panic ''unlink: nlink < 1''
     else kbind (if i_type x = T_DIR then isdirempty ip else kret True) (\<lambda>ok.
     if \<not> ok then fails [iunlockput (Some ip), iunlockput (Some dp), end_op]
     else sys_unlink_entry dp ip off))))))))"

section \<open>Creating and opening\<close>

text \<open>\<open>create\<close> returns the new inode locked.\<close>

definition create_dots :: "nat \<Rightarrow> nat \<Rightarrow> ('x cons_in_state_scheme, unit) kernel" where
  "create_dots dp ip =
     kbind (kseq [iset_field (\<lambda>x. x\<lparr>i_nlink := i_nlink x + 1\<rparr>) dp, iupdate dp]) (\<lambda>_.
     kbind (iget_field i_inum ip) (\<lambda>inum.
     kbind (dirlink ip (bytes_of ''.'') inum) (\<lambda>r.
     if r < 0 then panic ''create dots''
     else kbind (iget_field i_inum dp) (\<lambda>dnum.
     kbind (dirlink ip (bytes_of ''..'') dnum) (\<lambda>r.
     if r < 0 then panic ''create dots'' else kret ())))))"

definition create :: "u8 list \<Rightarrow> u16 \<Rightarrow> u16 \<Rightarrow> u16 \<Rightarrow> ('x cons_in_state_scheme, nat option) kernel" where
  "create path type major minor =
     kbind (nameiparent path) (\<lambda>dpo.
     case dpo of None \<Rightarrow> kret None | Some (dp, nm) \<Rightarrow>
     kbind (ilock (Some dp)) (\<lambda>_.
     kbind (dirlookup dp nm) (\<lambda>r.
     case r of
       Some (ip, _) \<Rightarrow>
         kbind (iunlockput (Some dp)) (\<lambda>_.
         kbind (ilock (Some ip)) (\<lambda>_.
         kbind (iget_field i_type ip) (\<lambda>ty.
         if type = T_FILE \<and> ty = T_FILE then kret (Some ip)
         else kbind (iunlockput (Some ip)) (\<lambda>_. kret None))))
     | None \<Rightarrow>
         kbind (iget_field i_dev dp) (\<lambda>dev.
         kbind (ialloc dev type) (\<lambda>ip.
         kbind (kseq
          [ilock (Some ip),
           iset_field (\<lambda>x. x\<lparr>i_major := major\<rparr>) ip,
           iset_field (\<lambda>x. x\<lparr>i_minor := minor\<rparr>) ip,
           iset_field (\<lambda>x. x\<lparr>i_nlink := 1\<rparr>) ip,
           iupdate ip,
           kwhen (type = T_DIR) (create_dots dp ip)]) (\<lambda>_.
         kbind (iget_field i_inum ip) (\<lambda>inum.
         kbind (dirlink dp nm inum) (\<lambda>r.
         if r < 0 then panic ''create: dirlink''
         else kbind (iunlockput (Some dp)) (\<lambda>_. kret (Some ip))))))))))"

text \<open>The inode of \<open>sys_open\<close>, locked; \<open>None\<close> after the operation has been closed.\<close>

definition sys_open_inode :: "u8 list \<Rightarrow> u32 \<Rightarrow> ('x cons_in_state_scheme, nat option) kernel" where
  "sys_open_inode path omode =
     (if omode AND O_CREATE \<noteq> 0 then
        kbind (create path T_FILE 0 0) (\<lambda>ipo.
        case ipo of None \<Rightarrow> kbind end_op (\<lambda>_. kret None) | Some ip \<Rightarrow> kret (Some ip))
      else
        kbind (namei path) (\<lambda>ipo.
        case ipo of None \<Rightarrow> kbind end_op (\<lambda>_. kret None) | Some ip \<Rightarrow>
        kbind (ilock (Some ip)) (\<lambda>_.
        kbind (iget_field i_type ip) (\<lambda>ty.
        if ty = T_DIR \<and> omode \<noteq> O_RDONLY
        then kbind (kseq [iunlockput (Some ip), end_op]) (\<lambda>_. kret None)
        else kret (Some ip)))))"

definition sys_open :: "('x file_state_scheme, u32) kernel" where
  "sys_open =
     bind_some (argstr 0) (\<lambda>(_, path).
     bind_some (argint 1) (\<lambda>omode.
     kbind begin_op (\<lambda>_.
     bind_some (sys_open_inode path omode) (\<lambda>ip.
     kbind filealloc (\<lambda>fo.
     case fo of None \<Rightarrow> fails [iunlockput (Some ip), end_op] | Some f \<Rightarrow>
     kbind (fdalloc f) (\<lambda>fdo.
     case fdo of None \<Rightarrow> fails [fileclose f, iunlockput (Some ip), end_op] | Some fd \<Rightarrow>
     kbind (kseq
      [iunlock (Some ip),
       end_op,
       fset (\<lambda>x. x\<lparr>f_type := FD_INODE\<rparr>) f,
       fset (\<lambda>x. x\<lparr>f_ip := Some ip\<rparr>) f,
       fset (\<lambda>x. x\<lparr>f_off := 0\<rparr>) f,
       fset (\<lambda>x. x\<lparr>f_readable := omode AND O_WRONLY = 0\<rparr>) f,
       fset (\<lambda>x. x\<lparr>f_writable := omode AND O_WRONLY \<noteq> 0 \<or> omode AND O_RDWR \<noteq> 0\<rparr>) f]) (\<lambda>_.
     kret (of_nat fd))))))))"

definition sys_mkdir :: "('x cons_in_state_scheme, u32) kernel" where
  "sys_mkdir =
     kbind begin_op (\<lambda>_.
     kbind (argstr 0) (\<lambda>r.
     case r of None \<Rightarrow> fails [end_op] | Some (_, path) \<Rightarrow>
     kbind (create path T_DIR 0 0) (\<lambda>ipo.
     case ipo of None \<Rightarrow> fails [end_op] | Some ip \<Rightarrow>
     kbind (kseq [iunlockput (Some ip), end_op]) (\<lambda>_. kret 0))))"

definition sys_mknod :: "('x cons_in_state_scheme, u32) kernel" where
  "sys_mknod =
     kbind begin_op (\<lambda>_.
     kbind (argstr 0) (\<lambda>r.
     case r of None \<Rightarrow> fails [end_op] | Some (_, path) \<Rightarrow>
     kbind (argint 1) (\<lambda>r.
     case r of None \<Rightarrow> fails [end_op] | Some major \<Rightarrow>
     kbind (argint 2) (\<lambda>r.
     case r of None \<Rightarrow> fails [end_op] | Some minor \<Rightarrow>
     kbind (create path T_DEV (ucast major) (ucast minor)) (\<lambda>ipo.
     case ipo of None \<Rightarrow> fails [end_op] | Some ip \<Rightarrow>
     kbind (kseq [iunlockput (Some ip), end_op]) (\<lambda>_. kret 0))))))"

definition sys_chdir :: "('x cons_in_state_scheme, u32) kernel" where
  "sys_chdir =
     kbind myproc (\<lambda>po.
     kbind begin_op (\<lambda>_.
     kbind (argstr 0) (\<lambda>r.
     case r of None \<Rightarrow> fails [end_op] | Some (_, path) \<Rightarrow>
     kbind (namei path) (\<lambda>ipo.
     case ipo of None \<Rightarrow> fails [end_op] | Some ip \<Rightarrow>
     kbind (ilock (Some ip)) (\<lambda>_.
     kbind (iget_field i_type ip) (\<lambda>ty.
     if ty \<noteq> T_DIR then fails [iunlockput (Some ip), end_op]
     else
       kbind (iunlock (Some ip)) (\<lambda>_.
       kbind (deref po) (\<lambda>curproc.
       kbind (kseq
        [kbind (pget cwd curproc) (\<lambda>co. kbind (deref co) iput),
         end_op,
         pset (\<lambda>q. q\<lparr>cwd := Some ip\<rparr>) curproc]) (\<lambda>_. kret 0)))))))))"

section \<open>Programs and pipes\<close>

text \<open>The loop over the user's argument vector; \<open>k\<close> entries of \<open>argv\<close> are left.\<close>

fun fetch_argv :: "nat \<Rightarrow> u32 \<Rightarrow> ('x proc_state_scheme, (u32 \<times> u8 list) list option) kernel" where
  "fetch_argv 0 uargv = kret None"
| "fetch_argv (Suc k) uargv =
     kbind (fetchint uargv) (\<lambda>r.
     case r of None \<Rightarrow> kret None | Some uarg \<Rightarrow>
     if uarg = 0 then kret (Some [])
     else kbind (fetchstr uarg) (\<lambda>r.
     case r of None \<Rightarrow> kret None | Some arg \<Rightarrow>
     kbind (fetch_argv k (uargv + 4)) (\<lambda>r. kret (map_option ((#) arg) r))))"

definition sys_exec :: "('x cons_in_state_scheme, u32) kernel" where
  "sys_exec =
     bind_some (argstr 0) (\<lambda>(_, path).
     bind_some (argint 1) (\<lambda>uargv.
     bind_some (fetch_argv MAXARG uargv) (\<lambda>argv. ret_int (exec path argv))))"

definition sys_pipe :: "('x file_state_scheme, u32) kernel" where
  "sys_pipe =
     bind_some (argptr 0 8) (\<lambda>fd.
     bind_some pipealloc (\<lambda>(rf, wf).
     kbind (fdalloc rf) (\<lambda>r0.
     case r0 of None \<Rightarrow> fails [fileclose rf, fileclose wf] | Some fd0 \<Rightarrow>
     kbind (fdalloc wf) (\<lambda>r1.
     case r1 of None \<Rightarrow> fails [clear_fd fd0, fileclose rf, fileclose wf] | Some fd1 \<Rightarrow>
     kbind (kseq
      [put_at fd (bytes_of_word (of_nat fd0)),
       put_at (fd + 4) (bytes_of_word (of_nat fd1))]) (\<lambda>_. kret 0)))))"

end
