(* ===== verification/Devices.thy ===== *)
theory Devices
  imports Exec
begin

unbundle bit_operations_syntax

text \<open>
  Interrupt controllers and device set-up: \<open>src/lapic.c\<close>, \<open>src/ioapic.c\<close>, \<open>src/picirq.c\<close>, the
  initialisation routines of \<open>src/uart.c\<close> and \<open>src/console.c\<close>, and \<open>panic\<close>.

  \<open>port_out\<close> is the trace of the bytes written to ports, \<open>port_in p\<close> the bytes that the next reads of
  port \<open>p\<close> return; a routine that reads past them ends in \<open>Spin\<close>.
\<close>

abbreviation (input) T_IRQ0 :: u32 where "T_IRQ0 \<equiv> 32"
abbreviation (input) IRQ_TIMER :: u32 where "IRQ_TIMER \<equiv> 0"
abbreviation (input) IRQ_KBD :: u32 where "IRQ_KBD \<equiv> 1"
abbreviation (input) IRQ_COM1 :: u32 where "IRQ_COM1 \<equiv> 4"
abbreviation (input) IRQ_IDE :: u32 where "IRQ_IDE \<equiv> 14"
abbreviation (input) IRQ_ERROR :: u32 where "IRQ_ERROR \<equiv> 19"
abbreviation (input) IRQ_SPURIOUS :: u32 where "IRQ_SPURIOUS \<equiv> 31"

record dev_state = file_state +
  port_out :: "(u16 \<times> u8) list"
  port_in :: "u16 \<Rightarrow> u8 list"
  ioapic_sel :: u32
  ioapic_regs :: "u32 \<Rightarrow> u32"
  ioapicid :: u8
  idequeue :: "nat option"
  havedisk1 :: bool
  idt :: "gatedesc list"
  idtr :: "nat \<Rightarrow> bool"
  vectors :: "nat \<Rightarrow> u32"
  cr2 :: u32

definition outp :: "u16 \<Rightarrow> u8 \<Rightarrow> ('x dev_state_scheme, unit) kernel" where
  "outp port data = kmodify (\<lambda>s. s\<lparr>port_out := port_out s @ [(port, data)]\<rparr>)"

definition inp :: "u16 \<Rightarrow> ('x dev_state_scheme, u8) kernel" where
  "inp port =
     kbind (kgets (\<lambda>s. port_in s port)) (\<lambda>ds.
     case ds of [] \<Rightarrow> kstop Spin
     | d # ds' \<Rightarrow> kbind (kmodify (\<lambda>s. s\<lparr>port_in := (port_in s)(port := ds')\<rparr>)) (\<lambda>_. kret d))"

section \<open>lapic.c\<close>

text \<open>Registers by their index in \<open>uint[]\<close>.\<close>

abbreviation (input) LAPIC_VER :: nat where "LAPIC_VER \<equiv> 0x0C"
abbreviation (input) TPR :: nat where "TPR \<equiv> 0x20"
abbreviation (input) EOI :: nat where "EOI \<equiv> 0x2C"
abbreviation (input) SVR :: nat where "SVR \<equiv> 0x3C"
abbreviation (input) ESR :: nat where "ESR \<equiv> 0xA0"
abbreviation (input) ICRLO :: nat where "ICRLO \<equiv> 0xC0"
abbreviation (input) ICRHI :: nat where "ICRHI \<equiv> 0xC4"
abbreviation (input) TIMER :: nat where "TIMER \<equiv> 0xC8"
abbreviation (input) PCINT :: nat where "PCINT \<equiv> 0xD0"
abbreviation (input) LINT0 :: nat where "LINT0 \<equiv> 0xD4"
abbreviation (input) LINT1 :: nat where "LINT1 \<equiv> 0xD8"
abbreviation (input) ERROR :: nat where "ERROR \<equiv> 0xDC"
abbreviation (input) TICR :: nat where "TICR \<equiv> 0xE0"
abbreviation (input) TDCR :: nat where "TDCR \<equiv> 0xF8"
abbreviation (input) ENABLE :: u32 where "ENABLE \<equiv> 0x100"
abbreviation (input) INIT :: u32 where "INIT \<equiv> 0x500"
abbreviation (input) STARTUP :: u32 where "STARTUP \<equiv> 0x600"
abbreviation (input) DELIVS :: u32 where "DELIVS \<equiv> 0x1000"
abbreviation (input) ASSERT :: u32 where "ASSERT \<equiv> 0x4000"
abbreviation (input) LEVEL :: u32 where "LEVEL \<equiv> 0x8000"
abbreviation (input) BCAST :: u32 where "BCAST \<equiv> 0x80000"
abbreviation (input) X1 :: u32 where "X1 \<equiv> 0xB"
abbreviation (input) PERIODIC :: u32 where "PERIODIC \<equiv> 0x20000"
abbreviation (input) MASKED :: u32 where "MASKED \<equiv> 0x10000"

text \<open>A store to a register; the read that follows it only waits.\<close>

definition lapicw :: "nat \<Rightarrow> u32 \<Rightarrow> ('x mach_scheme, unit) kernel" where
  "lapicw index val = kmodify (upd_hw (\<lambda>h. h\<lparr>lapic_reg := (lapic_reg h)(index := val)\<rparr>))"

definition lapicr :: "nat \<Rightarrow> ('x mach_scheme, u32) kernel" where
  "lapicr index = kgets (\<lambda>s. lapic_reg (hw s (this s)) index)"

definition lapicinit :: "('x mach_scheme, unit) kernel" where
  "lapicinit = kbind (kgets lapic) (\<lambda>l. kwhen (l \<noteq> 0) (kseq
     [lapicw SVR (ENABLE OR (T_IRQ0 + IRQ_SPURIOUS)),
      lapicw TDCR X1,
      lapicw TIMER (PERIODIC OR (T_IRQ0 + IRQ_TIMER)),
      lapicw TICR 10000000,
      lapicw LINT0 MASKED,
      lapicw LINT1 MASKED,
      kbind (lapicr LAPIC_VER) (\<lambda>v. kwhen (drop_bit 16 v AND 0xFF \<ge> 4) (lapicw PCINT MASKED)),
      lapicw ERROR (T_IRQ0 + IRQ_ERROR),
      lapicw ESR 0,
      lapicw ESR 0,
      lapicw EOI 0,
      lapicw ICRHI 0,
      lapicw ICRLO (BCAST OR INIT OR LEVEL),
      kbind (lapicr ICRLO) (\<lambda>v. kwhen (v AND DELIVS \<noteq> 0) (kstop Spin)),
      lapicw TPR 0]))"

definition lapiceoi :: "('x mach_scheme, unit) kernel" where
  "lapiceoi = kbind (kgets lapic) (\<lambda>l. kwhen (l \<noteq> 0) (lapicw EOI 0))"

definition lapicstartap :: "u8 \<Rightarrow> u32 \<Rightarrow> ('x dev_state_scheme, unit) kernel" where
  "lapicstartap apic addr =
     (let wrv = P2V (push_bit 4 0x40 OR 0x67); dest = push_bit 24 (ucast apic);
          startup = kseq [lapicw ICRHI dest, lapicw ICRLO (STARTUP OR drop_bit 12 addr)] in
      kseq
       [outp 0x70 0xF,
        outp 0x71 0x0A,
        kstore16 wrv 0,
        kstore16 (wrv + 2) (ucast (drop_bit 4 addr)),
        lapicw ICRHI dest,
        lapicw ICRLO (INIT OR LEVEL OR ASSERT),
        lapicw ICRLO (INIT OR LEVEL),
        startup,
        startup])"

section \<open>ioapic.c and picirq.c\<close>

abbreviation (input) REG_ID :: u32 where "REG_ID \<equiv> 0"
abbreviation (input) REG_VER :: u32 where "REG_VER \<equiv> 1"
abbreviation (input) REG_TABLE :: u32 where "REG_TABLE \<equiv> 0x10"
abbreviation (input) INT_DISABLED :: u32 where "INT_DISABLED \<equiv> 0x10000"

definition ioapicread :: "u32 \<Rightarrow> ('x dev_state_scheme, u32) kernel" where
  "ioapicread reg =
     kbind (kmodify (\<lambda>s. s\<lparr>ioapic_sel := reg\<rparr>)) (\<lambda>_. kgets (\<lambda>s. ioapic_regs s (ioapic_sel s)))"

definition ioapicwrite :: "u32 \<Rightarrow> u32 \<Rightarrow> ('x dev_state_scheme, unit) kernel" where
  "ioapicwrite reg data = kseq
     [kmodify (\<lambda>s. s\<lparr>ioapic_sel := reg\<rparr>),
      kmodify (\<lambda>s. s\<lparr>ioapic_regs := (ioapic_regs s)(ioapic_sel s := data)\<rparr>)]"

definition ioapicinit :: "('x dev_state_scheme, unit) kernel" where
  "ioapicinit =
     kbind (ioapicread REG_VER) (\<lambda>v.
     kbind (ioapicread REG_ID) (\<lambda>r.
     kbind (kgets ioapicid) (\<lambda>want.
     let maxintr = unat (drop_bit 16 v AND 0xFF) in
     kseq
      [kwhen (drop_bit 24 r \<noteq> ucast want) (cprintf ''ioapicinit: id isn't equal to ioapicid; not a MP\<newline>'' []),
       kseq (map (\<lambda>i. kseq
         [ioapicwrite (REG_TABLE + 2 * of_nat i) (INT_DISABLED OR (T_IRQ0 + of_nat i)),
          ioapicwrite (REG_TABLE + 2 * of_nat i + 1) 0]) [0..<Suc maxintr])])))"

definition ioapicenable :: "u32 \<Rightarrow> u32 \<Rightarrow> ('x dev_state_scheme, unit) kernel" where
  "ioapicenable irqno cpunum = kseq
     [ioapicwrite (REG_TABLE + 2 * irqno) (T_IRQ0 + irqno),
      ioapicwrite (REG_TABLE + 2 * irqno + 1) (push_bit 24 cpunum)]"

definition picinit :: "('x dev_state_scheme, unit) kernel" where
  "picinit = kseq [outp 0x21 0xFF, outp 0xA1 0xFF]"

section \<open>uart.c and console.c: initialisation\<close>

definition uartinit :: "('x dev_state_scheme, unit) kernel" where
  "uartinit =
     kbind (kseq
      [outp (COM1 + 2) 0,
       outp (COM1 + 3) 0x80,
       outp COM1 12,
       outp (COM1 + 1) 0,
       outp (COM1 + 3) 0x03,
       outp (COM1 + 4) 0,
       outp (COM1 + 1) 0x01]) (\<lambda>_.
     kbind (inp (COM1 + 5)) (\<lambda>st.
     kwhen (st \<noteq> 0xFF) (kseq
      [kmodify (\<lambda>s. s\<lparr>uart := 1\<rparr>),
       kbind (inp (COM1 + 2)) (\<lambda>_. kret ()),
       kbind (inp COM1) (\<lambda>_. kret ()),
       ioapicenable IRQ_COM1 0,
       kseq (map (\<lambda>c. uartputc (of_char c)) ''xv6...\<newline>'')])))"

definition consoleinit :: "('x dev_state_scheme, unit) kernel" where
  "consoleinit = kseq
     [initlock Cons_lock ''console'',
      kmodify (\<lambda>s. s\<lparr>devsw_console := True\<rparr>),
      kmodify (\<lambda>s. s\<lparr>cons_locking := 1\<rparr>),
      ioapicenable IRQ_KBD 0]"

text \<open>
  The routine behind \<open>Panic msg\<close>: it prints the message and a call trace and never returns.  \<open>a\<close> is the
  address of its argument.
\<close>

definition panic_report :: "string \<Rightarrow> u32 \<Rightarrow> ('x cons_state_scheme, unit) kernel" where
  "panic_report msg a =
     kbind cli (\<lambda>_.
     kbind (kmodify (\<lambda>s. s\<lparr>cons_locking := 0\<rparr>)) (\<lambda>_.
     kbind lapicid (\<lambda>i.
     kbind (cprintf ''lapicid %d: panic: '' [Word i]) (\<lambda>_.
     kbind (cprintf msg []) (\<lambda>_.
     kbind (cprintf ''\<newline>'' []) (\<lambda>_.
     kbind (kgets (\<lambda>s. getcallerpcs (rd32 (mem s)) a)) (\<lambda>pcs.
     kseq
      [kseq (map (\<lambda>pc. cprintf '' %p'' [Word pc]) pcs),
       kmodify (\<lambda>s. s\<lparr>panicked := 1\<rparr>),
       kstop Spin])))))))"

end
