(* ===== verification/Ide.thy ===== *)
theory Ide
  imports Devices
begin

unbundle bit_operations_syntax

text \<open>
  The disk drivers: \<open>src/ide.c\<close>, and what remains of \<open>src/memide.c\<close>.  A kernel links one of them;
  the buffer cache of theory \<open>Bio\<close> is over the memory disk.  \<open>idequeue\<close> is kept as the code keeps
  it, a list threaded through the \<open>qnext\<close> fields of the buffers.
\<close>

abbreviation (input) IDE_BSY :: u8 where "IDE_BSY \<equiv> 0x80"
abbreviation (input) IDE_DRDY :: u8 where "IDE_DRDY \<equiv> 0x40"
abbreviation (input) IDE_DF :: u8 where "IDE_DF \<equiv> 0x20"
abbreviation (input) IDE_ERR :: u8 where "IDE_ERR \<equiv> 0x01"
abbreviation (input) IDE_CMD_READ :: u8 where "IDE_CMD_READ \<equiv> 0x20"
abbreviation (input) IDE_CMD_WRITE :: u8 where "IDE_CMD_WRITE \<equiv> 0x30"
abbreviation (input) FSSIZE :: u32 where "FSSIZE \<equiv> 2000"

section \<open>memide.c\<close>

text \<open>\<open>img\<close> is the file system image linked into the kernel, as a list of blocks.\<close>

definition memide_init :: "block list \<Rightarrow> ('x bio_state_scheme, unit) kernel" where
  "memide_init img = kmodify (\<lambda>s. s\<lparr>memdisk := (\<lambda>b. img ! b), disksize := length img\<rparr>)"

definition memide_intr :: "('s, unit) kernel" where
  "memide_intr = kret ()"

section \<open>ide.c\<close>

text \<open>The status bytes read until one says that the disk is ready, and the rest.\<close>

fun ide_poll :: "u8 list \<Rightarrow> (u8 \<times> u8 list) option" where
  "ide_poll [] = None"
| "ide_poll (r # rs) = (if r AND (IDE_BSY OR IDE_DRDY) = IDE_DRDY then Some (r, rs) else ide_poll rs)"

definition idewait :: "bool \<Rightarrow> ('x dev_state_scheme, int) kernel" where
  "idewait checkerr =
     kbind (kgets (\<lambda>s. ide_poll (port_in s 0x1f7))) (\<lambda>x.
     case x of None \<Rightarrow> kstop Spin
     | Some (r, rest) \<Rightarrow>
         kbind (kmodify (\<lambda>s. s\<lparr>port_in := (port_in s)(0x1f7 := rest)\<rparr>)) (\<lambda>_.
         kret (if checkerr \<and> r AND (IDE_DF OR IDE_ERR) \<noteq> 0 then -1 else 0)))"

fun ide_probe :: "nat \<Rightarrow> ('x dev_state_scheme, unit) kernel" where
  "ide_probe 0 = kret ()"
| "ide_probe (Suc n) =
     kbind (inp 0x1f7) (\<lambda>r.
     if r \<noteq> 0 then kmodify (\<lambda>s. s\<lparr>havedisk1 := True\<rparr>) else ide_probe n)"

definition ideinit :: "('x dev_state_scheme, unit) kernel" where
  "ideinit =
     kbind (kgets ncpu) (\<lambda>n. kseq
      [initlock Ide_lock ''ide'',
       ioapicenable IRQ_IDE (of_nat n - 1),
       kbind (idewait False) (\<lambda>_. kret ()),
       outp 0x1f6 (0xe0 OR push_bit 4 1),
       ide_probe 1000,
       outp 0x1f6 (0xe0 OR push_bit 4 0)])"

text \<open>\<open>BSIZE\<close> is one sector.\<close>

definition idestart :: "nat option \<Rightarrow> ('x dev_state_scheme, unit) kernel" where
  "idestart bo = (case bo of None \<Rightarrow> panic ''idestart'' | Some b \<Rightarrow>
     kbind (kgets (\<lambda>s. bufs s ! b)) (\<lambda>x.
     if blockno x \<ge> FSSIZE then panic ''incorrect blockno''
     else
       let sector = blockno x in
       kbind (idewait False) (\<lambda>_.
       kbind (kseq
        [outp 0x3f6 0,
         outp 0x1f2 1,
         outp 0x1f3 (ucast (sector AND 0xff)),
         outp 0x1f4 (ucast (drop_bit 8 sector AND 0xff)),
         outp 0x1f5 (ucast (drop_bit 16 sector AND 0xff)),
         outp 0x1f6 (0xe0 OR push_bit 4 (ucast (bdev x AND 1)) OR ucast (drop_bit 24 sector AND 0x0f))]) (\<lambda>_.
       if bflags x AND B_DIRTY \<noteq> 0 then kseq
        [outp 0x1f7 IDE_CMD_WRITE,
         kseq (map (outp 0x1f0) (bdata x))]
       else outp 0x1f7 IDE_CMD_READ))))"

text \<open>\<open>insl\<close> of a block from the data port, a double word being its four bytes in order (as in \<open>outsl\<close>).\<close>

fun insl :: "nat \<Rightarrow> ('x dev_state_scheme, u8 list) kernel" where
  "insl 0 = kret []"
| "insl (Suc n) = kbind (inp 0x1f0) (\<lambda>d. kbind (insl n) (\<lambda>ds. kret (d # ds)))"

definition ideintr :: "('x dev_state_scheme, unit) kernel" where
  "ideintr =
     kbind (acquire Ide_lock) (\<lambda>_.
     kbind (kgets idequeue) (\<lambda>bo.
     case bo of None \<Rightarrow> release Ide_lock
     | Some b \<Rightarrow>
         kbind (kmodify (\<lambda>s. s\<lparr>idequeue := qnext (bufs s ! b)\<rparr>)) (\<lambda>_.
         kbind (bufget bflags b) (\<lambda>fl.
         kbind (kwhen (fl AND B_DIRTY = 0)
            (kbind (idewait True) (\<lambda>r.
             kwhen (r \<ge> 0) (kbind (insl BSIZE) (\<lambda>d. bufset (\<lambda>x. x\<lparr>bdata := d\<rparr>) b))))) (\<lambda>_.
         kbind (kseq
          [bufset (\<lambda>x. x\<lparr>bflags := bflags x OR B_VALID\<rparr>) b,
           bufset (\<lambda>x. x\<lparr>bflags := bflags x AND NOT B_DIRTY\<rparr>) b,
           wakeup (Buf_chan b)]) (\<lambda>_.
         kbind (kgets idequeue) (\<lambda>q.
         kbind (kwhen (q \<noteq> None) (idestart q)) (\<lambda>_.
         release Ide_lock))))))))"

text \<open>
  The last buffer of the queue, followed from \<open>b\<close> for at most \<open>n\<close> steps: a buffer is queued at most
  once, so \<open>NBUF\<close> steps reach the end unless the list has a cycle.
\<close>

fun qlast :: "buf list \<Rightarrow> nat \<Rightarrow> nat \<Rightarrow> nat option" where
  "qlast bs b 0 = None"
| "qlast bs b (Suc n) = (case qnext (bs ! b) of None \<Rightarrow> Some b | Some c \<Rightarrow> qlast bs c n)"

definition ide_append :: "nat \<Rightarrow> ('x dev_state_scheme, unit) kernel" where
  "ide_append b =
     kbind (bufset (\<lambda>x. x\<lparr>qnext := None\<rparr>) b) (\<lambda>_.
     kbind (kgets (\<lambda>s. (idequeue s, bufs s))) (\<lambda>(q, bs).
     case q of None \<Rightarrow> kmodify (\<lambda>s. s\<lparr>idequeue := Some b\<rparr>)
     | Some h \<Rightarrow>
         (case qlast bs h NBUF of None \<Rightarrow> kstop Spin
          | Some l \<Rightarrow> bufset (\<lambda>x. x\<lparr>qnext := Some b\<rparr>) l)))"

text \<open>One test of the wait loop: \<open>None\<close> when the request has finished.\<close>

definition ide_iderw_try :: "nat \<Rightarrow> ('x dev_state_scheme, (nat \<times> u32) option) kernel" where
  "ide_iderw_try b =
     kbind (bufget bflags b) (\<lambda>fl.
     if fl AND (B_VALID OR B_DIRTY) \<noteq> B_VALID
     then kbind (sleep_enter (Buf_chan b) (Some Ide_lock)) (\<lambda>r. kret (Some r))
     else kbind (release Ide_lock) (\<lambda>_. kret None))"

definition ide_iderw_enter :: "nat \<Rightarrow> ('x dev_state_scheme, (nat \<times> u32) option) kernel" where
  "ide_iderw_enter b =
     kbind (holdingsleep (Buf_lk b)) (\<lambda>h.
     if \<not> h then panic ''iderw: buf not locked''
     else kbind (kgets (\<lambda>s. (bufs s ! b, havedisk1 s))) (\<lambda>(x, d1).
     if bflags x AND (B_VALID OR B_DIRTY) = B_VALID then panic ''iderw: nothing to do''
     else if bdev x \<noteq> 0 \<and> \<not> d1 then panic ''iderw: ide disk 1 not present''
     else
       kbind (acquire Ide_lock) (\<lambda>_.
       kbind (ide_append b) (\<lambda>_.
       kbind (kgets idequeue) (\<lambda>q.
       kbind (kwhen (q = Some b) (idestart (Some b))) (\<lambda>_.
       ide_iderw_try b))))))"

definition ide_iderw_resume :: "nat \<Rightarrow> nat \<times> u32 \<Rightarrow> ('x dev_state_scheme, (nat \<times> u32) option) kernel" where
  "ide_iderw_resume b r = kbind (sleep_exit (fst r) Ide_lock (snd r)) (\<lambda>_. ide_iderw_try b)"

end
