(* ===== verification/Trap.thy ===== *)
theory Trap
  imports Sysfile Ide
begin

unbundle bit_operations_syntax

text \<open>
  System calls on processes (\<open>src/sysproc.c\<close>), the dispatch of \<open>src/syscall.c\<close> and the trap handler
  \<open>src/trap.c\<close>.  A call that puts the process to sleep or ends it stops in \<open>Blocked\<close>.
\<close>

section \<open>sysproc.c\<close>

definition sys_fork :: "('x file_state_scheme, u32) kernel" where
  "sys_fork = fork"

definition exit :: "('x file_state_scheme, 'a) kernel" where
  "exit = kbind exit_enter (\<lambda>_. kstop Blocked)"

definition sys_exit :: "('x file_state_scheme, u32) kernel" where
  "sys_exit = exit"

definition sys_wait :: "('x proc_state_scheme, u32) kernel" where
  "sys_wait = kbind wait_enter (\<lambda>(_, r).
     case r of Wait_return pd \<Rightarrow> kret pd | Wait_sleeping _ \<Rightarrow> kstop Blocked)"

definition sys_kill :: "('x proc_state_scheme, u32) kernel" where
  "sys_kill = bind_some (argint 0) (\<lambda>pd. ret_int (kill pd))"

definition sys_getpid :: "('x proc_state_scheme, u32) kernel" where
  "sys_getpid = mypid"

definition sys_getppid :: "('x proc_state_scheme, u32) kernel" where
  "sys_getppid =
     kbind myproc (\<lambda>po. kbind (deref po) (\<lambda>p.
     kbind (pget parent p) (\<lambda>par.
     case par of None \<Rightarrow> kret 1
     | Some _ \<Rightarrow>
         kbind myproc (\<lambda>po'. kbind (deref po') (\<lambda>p'.
         kbind (pget parent p') (\<lambda>par'. kbind (deref par') (pget pid)))))))"

definition sys_sbrk :: "('x proc_state_scheme, u32) kernel" where
  "sys_sbrk =
     bind_some (argint 0) (\<lambda>n.
     kbind myproc (\<lambda>po. kbind (deref po) (\<lambda>p.
     kbind (pget sz p) (\<lambda>addr.
     kbind (growproc n) (\<lambda>r. kret (if r < 0 then -1 else addr))))))"

datatype sleep_result = Slept u32 | Sleeping "nat \<times> u32"

text \<open>One test of the loop; \<open>n\<close> is compared as an unsigned number.\<close>

definition sys_sleep_try :: "u32 \<Rightarrow> u32 \<Rightarrow> ('x proc_state_scheme, sleep_result) kernel" where
  "sys_sleep_try ticks0 n =
     kbind (kgets ticks) (\<lambda>t.
     if t - ticks0 < n then
       kbind my_killed (\<lambda>k.
       if k then kbind (release Ticks_lock) (\<lambda>_. kret (Slept (-1)))
       else kbind (sleep_enter Ticks_chan (Some Ticks_lock)) (\<lambda>r. kret (Sleeping r)))
     else kbind (release Ticks_lock) (\<lambda>_. kret (Slept 0)))"

definition sys_sleep_resume :: "u32 \<Rightarrow> u32 \<Rightarrow> nat \<times> u32 \<Rightarrow> ('x proc_state_scheme, sleep_result) kernel" where
  "sys_sleep_resume ticks0 n r =
     kbind (sleep_exit (fst r) Ticks_lock (snd r)) (\<lambda>_. sys_sleep_try ticks0 n)"

definition sys_sleep :: "('x proc_state_scheme, u32) kernel" where
  "sys_sleep =
     bind_some (argint 0) (\<lambda>n.
     kbind (acquire Ticks_lock) (\<lambda>_.
     kbind (kgets ticks) (\<lambda>ticks0.
     kbind (sys_sleep_try ticks0 n) (\<lambda>r.
     case r of Slept v \<Rightarrow> kret v | Sleeping _ \<Rightarrow> kstop Blocked))))"

definition sys_uptime :: "('x proc_state_scheme, u32) kernel" where
  "sys_uptime =
     kbind (acquire Ticks_lock) (\<lambda>_.
     kbind (kgets ticks) (\<lambda>xticks.
     kbind (release Ticks_lock) (\<lambda>_. kret xticks)))"

definition sys_cps :: "('x proc_state_scheme, u32) kernel" where
  "sys_cps = kbind proc_cps (\<lambda>_. kret 0)"

text \<open>The results of \<open>argint\<close> are not looked at: a variable keeps its initial zero.\<close>

definition sys_renice :: "('x proc_state_scheme, u32) kernel" where
  "sys_renice =
     kbind (argint 0) (\<lambda>a.
     kbind (argint 1) (\<lambda>b.
     ret_int (renice (case a of Some v \<Rightarrow> v | None \<Rightarrow> 0) (case b of Some v \<Rightarrow> v | None \<Rightarrow> 0))))"

section \<open>syscall.c\<close>

definition syscalls :: "(('x file_state_scheme, u32) kernel) list" where
  "syscalls = [sys_fork, sys_exit, sys_wait, sys_pipe, sys_read, sys_kill, sys_exec, sys_fstat, sys_chdir,
     sys_dup, sys_getpid, sys_sbrk, sys_sleep, sys_uptime, sys_open, sys_write, sys_mknod, sys_unlink,
     sys_link, sys_mkdir, sys_close, sys_getppid, sys_cps, sys_renice]"

text \<open>Entry 0 of the table is null.\<close>

definition syscall_of :: "u32 \<Rightarrow> ('x file_state_scheme, u32) kernel option" where
  "syscall_of num = (if 0 <s num \<and> num <s 25 then Some (syscalls ! (unat num - 1)) else None)"

definition syscall :: "('x file_state_scheme, unit) kernel" where
  "syscall =
     kbind myproc (\<lambda>po. kbind (deref po) (\<lambda>curproc.
     kbind (pget tf curproc) (\<lambda>t.
     kbind (kload (t + TF_EAX)) (\<lambda>num.
     case syscall_of num of
       Some f \<Rightarrow>
         kbind f (\<lambda>r. kbind (pget tf curproc) (\<lambda>t'. kstore (t' + TF_EAX) r))
     | None \<Rightarrow>
         kbind (kgets (\<lambda>s. procs s ! curproc)) (\<lambda>p. kseq
          [cprintf ''%d %s: unknown sys call %d\<newline>'' [Word (pid p), Str (name p), Word num],
           kstore (t + TF_EAX) (-1)])))))"

section \<open>trap.c\<close>

abbreviation (input) T_SYSCALL :: u32 where "T_SYSCALL \<equiv> 64"
abbreviation (input) TF_ERR :: u32 where "TF_ERR \<equiv> 52"

definition tvinit :: "('x dev_state_scheme, unit) kernel" where
  "tvinit = kseq
     [kmodify (\<lambda>s. s\<lparr>idt := map (\<lambda>i. SETGATE False 8 (vectors s i) 0) [0..<256]\<rparr>),
      kmodify (\<lambda>s. s\<lparr>idt := (idt s)[64 := SETGATE True 8 (vectors s 64) 3]\<rparr>),
      initlock Ticks_lock ''time'']"

definition idtinit :: "('x dev_state_scheme, unit) kernel" where
  "idtinit = kmodify (\<lambda>s. s\<lparr>idtr := (idtr s)(this s := True)\<rparr>)"

definition kill_check :: "u32 \<Rightarrow> ('x file_state_scheme, unit) kernel" where
  "kill_check tfr =
     kbind myproc (\<lambda>po.
     case po of None \<Rightarrow> kret ()
     | Some p \<Rightarrow>
         kbind (pget killed p) (\<lambda>k.
         kbind (kload16 (tfr + TF_CS)) (\<lambda>cs.
         kwhen (k \<noteq> 0 \<and> cs AND 3 = DPL_USER) exit)))"

definition timer_tick :: "('x proc_state_scheme, unit) kernel" where
  "timer_tick = kseq
     [acquire Ticks_lock,
      kmodify (\<lambda>s. s\<lparr>ticks := ticks s + 1\<rparr>),
      wakeup Ticks_chan,
      release Ticks_lock]"

definition trap_syscall :: "u32 \<Rightarrow> ('x file_state_scheme, unit) kernel" where
  "trap_syscall tfr =
     kbind my_killed (\<lambda>k.
     kbind (kwhen k exit) (\<lambda>_.
     kbind myproc (\<lambda>po. kbind (deref po) (\<lambda>p.
     kbind (pset (\<lambda>q. q\<lparr>tf := tfr\<rparr>) p) (\<lambda>_.
     kbind syscall (\<lambda>_.
     kbind my_killed (\<lambda>k. kwhen k exit)))))))"

definition trap_default :: "u32 \<Rightarrow> u32 \<Rightarrow> ('x dev_state_scheme, unit) kernel" where
  "trap_default tfr no =
     kbind myproc (\<lambda>po.
     kbind (kload16 (tfr + TF_CS)) (\<lambda>cs.
     kbind (kload (tfr + TF_EIP)) (\<lambda>eip.
     kbind (kload (tfr + TF_ERR)) (\<lambda>er.
     kbind (kgets cr2) (\<lambda>c2.
     if po = None \<or> cs AND 3 = 0 then
       kbind cpuid (\<lambda>c. kseq
        [cprintf ''unexpected trap %d from cpu %d eip %x (cr2=0x%x)\<newline>'' [Word no, Word (of_nat c), Word eip, Word c2],
         panic ''trap''])
     else
       kbind (deref po) (\<lambda>p.
       kbind (kgets (\<lambda>s. procs s ! p)) (\<lambda>pr.
       kbind cpuid (\<lambda>c. kseq
        [cprintf (''pid %d %s: trap %d err %d on cpu %d '' @ ''eip 0x%x addr 0x%x--kill proc\<newline>'')
          [Word (pid pr), Str (name pr), Word no, Word er, Word (of_nat c), Word eip, Word c2],
         pset (\<lambda>q. q\<lparr>killed := 1\<rparr>) p]))))))))"

text \<open>The switch on the trap number; \<open>disk_intr\<close> is the interrupt handler of the disk driver.\<close>

definition trap_device :: "('x dev_state_scheme, unit) kernel \<Rightarrow> u32 \<Rightarrow> u32 \<Rightarrow> ('x dev_state_scheme, unit) kernel" where
  "trap_device disk_intr tfr no =
     (if no = T_IRQ0 + IRQ_TIMER then
        kbind cpuid (\<lambda>c. kseq [kwhen (c = 0) timer_tick, lapiceoi])
      else if no = T_IRQ0 + IRQ_IDE then kseq [disk_intr, lapiceoi]
      else if no = T_IRQ0 + IRQ_IDE + 1 then kret ()
      else if no = T_IRQ0 + IRQ_KBD then kseq [kbdintr, lapiceoi]
      else if no = T_IRQ0 + IRQ_COM1 then kseq [uartintr, lapiceoi]
      else if no = T_IRQ0 + 7 \<or> no = T_IRQ0 + IRQ_SPURIOUS then
        kbind cpuid (\<lambda>c.
        kbind (kload16 (tfr + TF_CS)) (\<lambda>cs.
        kbind (kload (tfr + TF_EIP)) (\<lambda>eip. kseq
         [cprintf ''cpu%d: spurious interrupt at %x:%x\<newline>'' [Word (of_nat c), Word (ucast cs), Word eip],
          lapiceoi])))
      else trap_default tfr no)"

text \<open>
  The handler up to the point where the process may be made to yield; the result tells whether it
  has to.  \<open>trap_exit\<close> is what is left after that.
\<close>

definition trap_enter :: "('x dev_state_scheme, unit) kernel \<Rightarrow> u32 \<Rightarrow> ('x dev_state_scheme, bool) kernel" where
  "trap_enter disk_intr tfr =
     kbind (kload (tfr + TF_TRAPNO)) (\<lambda>no.
     kbind (trap_device disk_intr tfr no) (\<lambda>_.
     kbind (kill_check tfr) (\<lambda>_.
     kbind myproc (\<lambda>po.
     case po of None \<Rightarrow> kret False
     | Some p \<Rightarrow> kbind (pget state p) (\<lambda>st. kret (st = RUNNING \<and> no = T_IRQ0 + IRQ_TIMER))))))"

definition trap_exit :: "u32 \<Rightarrow> ('x file_state_scheme, unit) kernel" where
  "trap_exit tfr = kill_check tfr"

definition trap :: "('x dev_state_scheme, unit) kernel \<Rightarrow> u32 \<Rightarrow> ('x dev_state_scheme, unit) kernel" where
  "trap disk_intr tfr =
     kbind (kload (tfr + TF_TRAPNO)) (\<lambda>no.
     if no = T_SYSCALL then trap_syscall tfr
     else kbind (trap_enter disk_intr tfr) (\<lambda>y.
       kbind (kwhen y (kbind yield_enter (\<lambda>_. kstop Blocked))) (\<lambda>_. trap_exit tfr)))"

end
