(* ===== verification/Boot.thy ===== *)
theory Boot
  imports Trap
begin

unbundle bit_operations_syntax

text \<open>
  Start-up: the search for the multiprocessor tables of \<open>src/mp.c\<close> and the sequence of
  \<open>src/main.c\<close>.
\<close>

section \<open>mp.c\<close>

fun mem_sum :: "memory \<Rightarrow> u32 \<Rightarrow> nat \<Rightarrow> u8" where
  "mem_sum m a 0 = 0"
| "mem_sum m a (Suc n) = m a + mem_sum m (a + 1) n"

text \<open>\<open>memcmp(p, str, n) == 0\<close> for a string constant.\<close>

definition mem_is :: "memory \<Rightarrow> u32 \<Rightarrow> string \<Rightarrow> bool" where
  "mem_is m a str \<longleftrightarrow> map (\<lambda>i. m (a + of_nat i)) [0..<length str] = bytes_of str"

text \<open>\<open>struct mp\<close> has 16 bytes, \<open>struct mpconf\<close> 44.\<close>

definition mp_at :: "memory \<Rightarrow> u32 \<Rightarrow> bool" where
  "mp_at m p \<longleftrightarrow> mem_is m p ''_MP_'' \<and> mem_sum m p 16 = 0"

definition mpsearch1 :: "memory \<Rightarrow> u32 \<Rightarrow> nat \<Rightarrow> u32 option" where
  "mpsearch1 m a len = find (mp_at m) (map (\<lambda>i. P2V a + 16 * of_nat i) [0..<(len + 15) div 16])"

definition mem16 :: "memory \<Rightarrow> u32 \<Rightarrow> u32" where
  "mem16 m a = push_bit 8 (ucast (m (a + 1))) OR ucast (m a)"

definition mpsearch :: "memory \<Rightarrow> u32 option" where
  "mpsearch m =
     (let bda = P2V 0x400; p = push_bit 4 (mem16 m (bda + 0x0E));
          r = (if p \<noteq> 0 then mpsearch1 m p 1024
               else mpsearch1 m (mem16 m (bda + 0x13) * 1024 - 1024) 1024) in
      case r of Some mp \<Rightarrow> Some mp | None \<Rightarrow> mpsearch1 m 0xF0000 0x10000)"

text \<open>The configuration table and the floating pointer structure.\<close>

definition mpconfig :: "memory \<Rightarrow> (u32 \<times> u32) option" where
  "mpconfig m =
     (case mpsearch m of None \<Rightarrow> None | Some mp \<Rightarrow>
      if rd32 m (mp + 4) = 0 then None
      else let conf = P2V (rd32 m (mp + 4)) in
      if \<not> mem_is m conf ''PCMP'' then None
      else if m (conf + 6) \<noteq> 1 \<and> m (conf + 6) \<noteq> 4 then None
      else if mem_sum m conf (unat (mem16 m (conf + 4))) \<noteq> 0 then None
      else Some (conf, mp))"

text \<open>
  The loop over the entries of the table: the APIC ids of the processors, at most \<open>NCPU\<close>, and the id
  of the I/O APIC.  An entry of a type that is not known leaves \<open>p\<close> where it is.
\<close>

record mp_found =
  mp_apicids :: "u8 list"
  mp_ioapicid :: u8

partial_function (option) mp_entries :: "memory \<Rightarrow> u32 \<Rightarrow> u32 \<Rightarrow> bool \<Rightarrow> mp_found \<Rightarrow> (bool \<times> mp_found) option" where
  "mp_entries m p e ismp f =
     (if p < e then
        if m p = 0 then
          mp_entries m (p + 20) e ismp
            (if length (mp_apicids f) < 8 then f\<lparr>mp_apicids := mp_apicids f @ [m (p + 1)]\<rparr> else f)
        else if m p = 2 then mp_entries m (p + 8) e ismp (f\<lparr>mp_ioapicid := m (p + 1)\<rparr>)
        else if m p = 1 \<or> m p = 3 \<or> m p = 4 then mp_entries m (p + 8) e ismp f
        else mp_entries m p e False f
      else Some (ismp, f))"

text \<open>\<open>cpus\<close> starts with no processor known (\<open>ncpu\<close> is 0).\<close>

definition set_apicids :: "u8 list \<Rightarrow> cpu list \<Rightarrow> cpu list" where
  "set_apicids ids cs = map2 (\<lambda>a c. c\<lparr>apicid := a\<rparr>) ids cs @ drop (length ids) cs"

definition mpinit :: "('x dev_state_scheme, unit) kernel" where
  "mpinit =
     kbind (kgets mem) (\<lambda>m.
     case mpconfig m of None \<Rightarrow> panic ''Expect to run on an SMP''
     | Some (conf, mp) \<Rightarrow>
         kbind (kmodify (\<lambda>s. s\<lparr>lapic := rd32 m (conf + 36)\<rparr>)) (\<lambda>_.
         kbind (kgets ioapicid) (\<lambda>io.
         case mp_entries m (conf + 44) (conf + mem16 m (conf + 4)) True \<lparr>mp_apicids = [], mp_ioapicid = io\<rparr> of
           None \<Rightarrow> kstop Spin
         | Some (ismp, f) \<Rightarrow>
             kbind (kmodify (\<lambda>s. s\<lparr>cpus := set_apicids (mp_apicids f) (cpus s), ncpu := length (mp_apicids f)\<rparr>)) (\<lambda>_.
             kbind (kmodify (\<lambda>s. s\<lparr>ioapicid := mp_ioapicid f\<rparr>)) (\<lambda>_.
             if \<not> ismp then panic ''Didn't find a suitable machine''
             else kwhen (m (mp + 12) \<noteq> 0) (kseq
              [outp 0x22 0x70,
               kbind (inp 0x23) (\<lambda>v. outp 0x23 (v OR 1))]))))))"

section \<open>main.c\<close>

text \<open>
  What the linker provides: the end of the kernel, and where and how long the images of
  \<open>entryother.S\<close> and \<open>initcode.S\<close> are; and the addresses of \<open>mpenter\<close> and \<open>entrypgdir\<close>.
\<close>

record linkage =
  end_addr :: u32
  entryother_start :: u32
  entryother_size :: u32
  initcode_start :: u32
  initcode_size :: u32
  mpenter_addr :: u32
  entrypgdir_addr :: u32

text \<open>The boot page table: two entries of 4 Mbyte (\<open>PTE_PS\<close> is \<open>0x80\<close>).\<close>

definition entrypgdir :: "nat \<Rightarrow> u32" where
  "entrypgdir = (\<lambda>_. 0)(0 := PTE_P OR PTE_W OR 0x80, 512 := PTE_P OR PTE_W OR 0x80)"

text \<open>
  Starting processor \<open>c\<close>, up to the wait for it; the wait goes on until it has set \<open>started\<close>.
\<close>

definition startother :: "linkage \<Rightarrow> nat \<Rightarrow> ('x dev_state_scheme, unit) kernel" where
  "startother lk c =
     (let code = P2V 0x7000 in
      kbind kalloc (\<lambda>stack.
      kbind (kgets (\<lambda>s. apicid (cpus s ! c))) (\<lambda>a. kseq
       [kstore (code - 4) (stack + KSTACKSIZE),
        kstore (code - 8) (mpenter_addr lk),
        kstore (code - 12) (V2P (entrypgdir_addr lk)),
        lapicstartap a (V2P code)])))"

definition started_wait :: "nat \<Rightarrow> ('x mach_scheme, unit) kernel" where
  "started_wait c = kbind (kgets (\<lambda>s. started (cpus s ! c))) (\<lambda>v. kwhen (v = 0) (kstop Spin))"

text \<open>\<open>ap c\<close> is what the other processors do to the state while this one waits for \<open>c\<close>.\<close>

definition startothers ::
  "linkage \<Rightarrow> (nat \<Rightarrow> ('x dev_state_scheme, unit) kernel) \<Rightarrow> ('x dev_state_scheme, unit) kernel" where
  "startothers lk ap =
     kbind (kmemmove (P2V 0x7000) (entryother_start lk) (entryother_size lk)) (\<lambda>_.
     kbind (kgets ncpu) (\<lambda>n.
     kseq (map (\<lambda>c. kbind mycpu (\<lambda>me.
       kwhen (c \<noteq> me) (kseq [startother lk c, ap c, started_wait c]))) [0..<n])))"

text \<open>Up to the call of \<open>scheduler\<close>, whose loop is in theory \<open>Proc\<close>.\<close>

definition mpmain :: "('x dev_state_scheme, nat) kernel" where
  "mpmain =
     kbind cpuid (\<lambda>c.
     kbind (cprintf ''cpu%d: starting %d\<newline>'' [Word (of_nat c), Word (of_nat c)]) (\<lambda>_.
     kbind idtinit (\<lambda>_.
     kbind (mycpu_upd (\<lambda>x. x\<lparr>started := 1\<rparr>)) (\<lambda>_. scheduler_start))))"

definition mpenter :: "('x dev_state_scheme, nat) kernel" where
  "mpenter = kbind (kseq [switchkvm, seginit, lapicinit]) (\<lambda>_. mpmain)"

definition main ::
  "linkage \<Rightarrow> ('x dev_state_scheme, unit) kernel \<Rightarrow> (nat \<Rightarrow> ('x dev_state_scheme, unit) kernel) \<Rightarrow>
    ('x dev_state_scheme, nat) kernel" where
  "main lk disk_init ap = kbind (kseq
     [kinit1 (end_addr lk) (P2V (4 * 1024 * 1024)),
      kvmalloc,
      mpinit,
      lapicinit,
      seginit,
      picinit,
      ioapicinit,
      consoleinit,
      uartinit,
      pinit,
      tvinit,
      binit,
      fileinit,
      disk_init,
      startothers lk ap,
      kinit2 (P2V (4 * 1024 * 1024)) (P2V PHYSTOP),
      userinit (initcode_start lk) (initcode_size lk)]) (\<lambda>_. mpmain)"

end
