(* ===== verification/Bcache.thy ===== *)
theory Bcache
  imports Bio Lottery
begin

unbundle bit_operations_syntax

text \<open>
  Correctness of the buffer cache of theory \<open>Bio\<close>: the circular list through the buffers, the
  uniqueness of a cached block, and what \<open>bread\<close>, \<open>bwrite\<close> and \<open>brelse\<close> do to the cache and the disk as a
  reader of blocks sees them.
\<close>

section \<open>The list of buffers\<close>

text \<open>
  \<open>linked bs a xs c\<close>: from \<open>a\<close> the \<open>next\<close> fields lead through \<open>xs\<close> to \<open>c\<close>, and the \<open>prev\<close> fields lead back.
  \<open>ring bs xs\<close>: the list of the cache runs through all buffers, in the order \<open>xs\<close> from the most
  recently used one.
\<close>

fun linked :: "buf list \<Rightarrow> nat \<Rightarrow> nat list \<Rightarrow> nat \<Rightarrow> bool" where
  "linked bs a [] c \<longleftrightarrow> bnext (bs ! a) = c \<and> bprev (bs ! c) = a"
| "linked bs a (x # xs) c \<longleftrightarrow> bnext (bs ! a) = x \<and> bprev (bs ! x) = a \<and> linked bs x xs c"

definition ring :: "buf list \<Rightarrow> nat list \<Rightarrow> bool" where
  "ring bs xs \<longleftrightarrow> length bs = Suc NBUF \<and> distinct xs \<and> set xs = {..<NBUF} \<and> linked bs bhead xs bhead"

lemma linked_append: "linked bs a (xs @ b # ys) c \<longleftrightarrow> linked bs a xs b \<and> linked bs b ys c"
  by (induction xs arbitrary: a) auto

lemma linked_cong:
  "(\<And>i. i \<in> insert a (set xs) \<Longrightarrow> bnext (bs ! i) = bnext (bs' ! i)) \<Longrightarrow>
    (\<And>i. i \<in> insert c (set xs) \<Longrightarrow> bprev (bs ! i) = bprev (bs' ! i)) \<Longrightarrow>
    linked bs a xs c = linked bs' a xs c"
  by (induction xs arbitrary: a) auto

lemma walk_next:
  "linked bs a xs bhead \<Longrightarrow> bhead \<notin> set xs \<Longrightarrow> length xs \<le> n \<Longrightarrow>
    walk bnext P bs (bnext (bs ! a)) n = Some (find (\<lambda>i. P (bs ! i)) xs)"
proof (induction xs arbitrary: a n)
  case Nil
  then show ?case by (cases n) auto
next
  case (Cons x xs)
  then obtain k where "n = Suc k" by (cases n) auto
  with Cons show ?case by auto
qed

lemma walk_prev:
  "linked bs bhead xs c \<Longrightarrow> bhead \<notin> set xs \<Longrightarrow> length xs \<le> n \<Longrightarrow>
    walk bprev P bs (bprev (bs ! c)) n = Some (find (\<lambda>i. P (bs ! i)) (rev xs))"
proof (induction xs arbitrary: c n rule: rev_induct)
  case Nil
  then show ?case by (cases n) auto
next
  case (snoc x xs)
  then obtain k where "n = Suc k" by (cases n) auto
  with snoc show ?case
    using linked_append[of bs bhead xs x "[]" c] by auto
qed

text \<open>Insertion behind the head and removal, on the table of buffers.\<close>

definition ring_insert :: "nat \<Rightarrow> buf list \<Rightarrow> buf list" where
  "ring_insert b bs =
     (let bs1 = bs[b := (bs ! b)\<lparr>bnext := bnext (bs ! bhead)\<rparr>];
          bs2 = bs1[b := (bs1 ! b)\<lparr>bprev := bhead\<rparr>];
          f = bnext (bs2 ! bhead);
          bs3 = bs2[f := (bs2 ! f)\<lparr>bprev := b\<rparr>]
      in bs3[bhead := (bs3 ! bhead)\<lparr>bnext := b\<rparr>])"

definition ring_remove :: "nat \<Rightarrow> buf list \<Rightarrow> buf list" where
  "ring_remove b bs =
     (let f = bnext (bs ! b); bs1 = bs[f := (bs ! f)\<lparr>bprev := bprev (bs ! b)\<rparr>]; p = bprev (bs1 ! b)
      in bs1[p := (bs1 ! p)\<lparr>bnext := bnext (bs1 ! b)\<rparr>])"

lemma length_ring [simp]: "length (ring_insert b bs) = length bs" "length (ring_remove b bs) = length bs"
  by (simp_all add: ring_insert_def ring_remove_def Let_def)

lemma linked_insert:
  assumes "linked bs bhead xs bhead" "b \<noteq> bhead" "b \<notin> set xs" "bhead \<notin> set xs" "distinct xs"
    "set xs \<subseteq> {..<NBUF}" "b < NBUF" "length bs = Suc NBUF"
  shows "linked (ring_insert b bs) bhead (b # xs) bhead"
proof (cases xs)
  case Nil
  then show ?thesis
    using assms by (simp add: ring_insert_def Let_def nth_list_update)
next
  case (Cons x ys)
  have "linked (ring_insert b bs) x ys bhead = linked bs x ys bhead"
    using assms Cons by (intro linked_cong) (auto simp: ring_insert_def Let_def nth_list_update)
  then show ?thesis
    using assms Cons by (simp add: ring_insert_def Let_def nth_list_update)
qed

lemma ring_remove_nth:
  assumes "bnext (bs ! b) = f" "bprev (bs ! b) = p" "f \<noteq> b" "p \<noteq> b" "f < length bs" "p < length bs"
  shows "\<forall>i < length bs. bnext (ring_remove b bs ! i) = (if i = p then f else bnext (bs ! i)) \<and>
    bprev (ring_remove b bs ! i) = (if i = f then p else bprev (bs ! i))"
  unfolding ring_remove_def Let_def assms(1,2) using assms by (simp add: nth_list_update)

lemma linked_remove:
  assumes "linked bs bhead (xs @ b # ys) bhead" "distinct (xs @ b # ys)" "set (xs @ b # ys) \<subseteq> {..<NBUF}"
    "length bs = Suc NBUF"
  shows "linked (ring_remove b bs) bhead (xs @ ys) bhead"
proof -
  let ?R = "ring_remove b bs"
  have l: "linked bs bhead xs b" "linked bs b ys bhead"
    using assms(1) by (simp_all add: linked_append)
  have dom: "\<And>i. i \<in> insert bhead (set xs \<union> set ys) \<Longrightarrow> i < length bs"
    using assms(3,4) by auto
  define f where "f = bnext (bs ! b)"
  define p where "p = bprev (bs ! b)"
  have f: "f = (case ys of [] \<Rightarrow> bhead | y # _ \<Rightarrow> y)"
    using l(2) by (cases ys) (simp_all add: f_def)
  have p: "p = (if xs = [] then bhead else last xs)"
    using l(1) by (cases xs rule: rev_cases) (simp_all add: p_def linked_append)
  have fp: "f \<in> insert bhead (set xs \<union> set ys)" "p \<in> insert bhead (set xs \<union> set ys)"
    by (simp_all add: f p split: list.split)
  then have ne: "f \<noteq> b" "p \<noteq> b"
    using assms(2,3) by auto
  have N: "\<forall>i < length bs. bnext (?R ! i) = (if i = p then f else bnext (bs ! i)) \<and>
      bprev (?R ! i) = (if i = f then p else bprev (bs ! i))"
    using ne dom fp by (intro ring_remove_nth) (simp_all add: f_def p_def)
  have hd: "bhead \<notin> set xs" "bhead \<notin> set ys"
    using assms(3) by auto
  have pre: "linked ?R bhead us u" if "linked bs bhead us u" "xs = us @ [u]" for us u
  proof -
    have "p = u" "u \<notin> set us" "u \<noteq> bhead" "bhead \<notin> set us" "f \<in> insert bhead (set ys)"
      using that p f assms(2) hd by (auto split: list.splits)
    moreover have "set ys \<inter> set xs = {}"
      using assms(2) by auto
    ultimately have "\<And>i. i \<in> insert bhead (set us) \<Longrightarrow> i \<noteq> p \<and> i < length bs"
        "\<And>i. i \<in> insert u (set us) \<Longrightarrow> i \<noteq> f \<and> i < length bs"
      using that(2) dom by auto
    then have "linked ?R bhead us u = linked bs bhead us u"
      using N by (intro linked_cong) metis+
    then show ?thesis
      using that(1) by simp
  qed
  have post: "linked ?R v vs bhead" if "linked bs v vs bhead" "ys = v # vs" for v vs
  proof -
    have "f = v" "v \<notin> set vs" "v \<noteq> bhead" "bhead \<notin> set vs" "p \<in> insert bhead (set xs)"
      using that p f assms(2) hd by auto
    moreover have "set ys \<inter> set xs = {}"
      using assms(2) by auto
    ultimately have "\<And>i. i \<in> insert bhead (set vs) \<Longrightarrow> i \<noteq> f \<and> i < length bs"
        "\<And>i. i \<in> insert v (set vs) \<Longrightarrow> i \<noteq> p \<and> i < length bs"
      using that(2) dom by auto
    then have "linked ?R v vs bhead = linked bs v vs bhead"
      using N by (intro linked_cong) metis+
    then show ?thesis
      using that(1) by simp
  qed
  have mid: "bnext (?R ! p) = f" "bprev (?R ! f) = p"
    using N dom fp by simp_all
  show ?thesis
  proof (cases xs rule: rev_cases; cases ys)
    fix us u v vs assume "xs = us @ [u]" "ys = v # vs"
    then show ?thesis
      using pre post mid l f p by (simp add: linked_append)
  next
    fix v vs assume "xs = []" "ys = v # vs"
    then show ?thesis
      using post mid l f p by simp
  next
    fix us u assume "xs = us @ [u]" "ys = []"
    then show ?thesis
      using pre mid l f p by (simp add: linked_append)
  next
    assume "xs = []" "ys = []"
    then show ?thesis
      using mid f p by simp
  qed
qed

lemma ring_to_front:
  assumes "ring bs xs" "b < NBUF"
  shows "ring (ring_insert b (ring_remove b bs)) (b # remove1 b xs)"
proof -
  obtain us vs where xs: "xs = us @ b # vs"
    using assms split_list[of b xs] by (auto simp: ring_def)
  then have b: "b \<notin> set us" "b \<notin> set vs" "set us \<inter> set vs = {}" "remove1 b xs = us @ vs"
    using assms by (auto simp: ring_def remove1_append)
  have "linked (ring_remove b bs) bhead (us @ vs) bhead"
    using assms xs by (intro linked_remove) (auto simp: ring_def)
  then have "linked (ring_insert b (ring_remove b bs)) bhead (b # us @ vs) bhead"
    using assms xs b by (intro linked_insert) (auto simp: ring_def)
  moreover have "distinct (b # us @ vs)" "set (b # us @ vs) = {..<NBUF}"
    using assms xs b by (auto simp: ring_def)
  ultimately show ?thesis
    using assms b by (simp add: ring_def)
qed

lemma ring_walk:
  assumes "ring bs xs"
  shows "walk bnext P bs (bnext (bs ! bhead)) NBUF = Some (find (\<lambda>i. P (bs ! i)) xs)"
    and "walk bprev P bs (bprev (bs ! bhead)) NBUF = Some (find (\<lambda>i. P (bs ! i)) (rev xs))"
proof -
  have "length xs = NBUF" "bhead \<notin> set xs"
    using assms distinct_card[of xs] by (auto simp: ring_def)
  then show "walk bnext P bs (bnext (bs ! bhead)) NBUF = Some (find (\<lambda>i. P (bs ! i)) xs)"
    and "walk bprev P bs (bprev (bs ! bhead)) NBUF = Some (find (\<lambda>i. P (bs ! i)) (rev xs))"
    using assms by (simp_all add: ring_def walk_next walk_prev)
qed

text \<open>Neither changes anything but the links.\<close>

definition payload :: "buf \<Rightarrow> u32 \<times> u32 \<times> u32 \<times> u32 \<times> nat option \<times> block" where
  "payload x = (bflags x, bdev x, blockno x, refcnt x, qnext x, bdata x)"

lemma payload_update: "payload x = payload (bs ! j) \<Longrightarrow> map payload (bs[j := x]) = map payload bs"
  by (cases "j < length bs") (auto simp: map_update list_update_same_conv list_update_beyond)

lemma payload_links:
  "payload (x\<lparr>bnext := v\<rparr>) = payload x" "payload (x\<lparr>bprev := v\<rparr>) = payload x"
  by (simp_all add: payload_def)

lemma payload_ring:
  "map payload (ring_insert b bs) = map payload bs" "map payload (ring_remove b bs) = map payload bs"
  unfolding ring_insert_def ring_remove_def Let_def by (simp_all only: payload_update payload_links)

lemma ring_update:
  assumes "ring bs xs" "bnext y = bnext (bs ! i)" "bprev y = bprev (bs ! i)"
  shows "ring (bs[i := y]) xs"
proof (cases "i < length bs")
  case True
  have "linked (bs[i := y]) bhead xs bhead = linked bs bhead xs bhead"
    using assms(2,3) True by (intro linked_cong) (auto simp: nth_list_update)
  then show ?thesis
    using assms(1) by (simp add: ring_def)
qed (use assms in \<open>simp add: list_update_beyond\<close>)

section \<open>Frames\<close>

text \<open>\<open>disk_view s\<close>: the cache, the disk and everything above them; taking and releasing locks leaves it alone.\<close>

definition disk_view ::
  "'x bio_state_scheme \<Rightarrow> buf list \<times> (nat \<Rightarrow> block) \<times> nat \<times> (nat \<times> block) list \<times> 'x" where
  "disk_view s = (bufs s, memdisk s, disksize s, writes s, bio_state.more s)"

lemma disk_view_core: "core t = core s \<Longrightarrow> disk_view t = disk_view s"
  by (cases s; cases t) (simp add: core_def disk_view_def)

lemma keeps_disk_core: "keeps core m \<Longrightarrow> keeps disk_view m"
  by (meson disk_view_core keepsD keepsI)

lemmas disk_locks [keeps_intros, intro] =
  core_acquire[THEN keeps_disk_core] core_release[THEN keeps_disk_core] core_myproc[THEN keeps_disk_core]
  core_holding[THEN keeps_disk_core]

lemma disk_upd [simp]:
  "disk_view (upd_proc i f s) = disk_view s" "disk_view (upd_sl l g s) = disk_view s"
  "disk_view (s\<lparr>procs := ps\<rparr>) = disk_view s" "disk_view (upd_lock l h s) = disk_view s"
  by (simp_all add: disk_view_def upd_proc_def upd_sl_def upd_lock_def)

lemma disk_deref [keeps_intros, intro]: "keeps f (deref r)"
  by (cases r) (auto simp: deref_def intro: keeps_intros)

lemma disk_pset [keeps_intros, intro]: "keeps disk_view (pset f i)" "keeps g (pget h i)"
  unfolding pset_def pget_def by (intro keeps_intros, simp)+ (intro keeps_intros)

lemma disk_sched_enter [keeps_intros, intro]: "keeps disk_view sched_enter"
  unfolding sched_enter_def mycpu_get_def mycpu_def lapicid_def readeflags_def
  by (auto intro!: keeps_intros split: option.splits)

lemma disk_sleep_enter [keeps_intros, intro]: "keeps disk_view (sleep_enter ch lk)"
  unfolding sleep_enter_def by (auto intro!: keeps_intros split: option.splits)

lemma disk_wakeup [keeps_intros, intro]: "keeps disk_view (wakeup ch)"
  unfolding wakeup_def wakeup1_def by (auto intro!: keeps_intros)

lemma disk_mypid [keeps_intros, intro]: "keeps disk_view mypid"
  unfolding mypid_def by (intro keeps_intros)

lemma disk_acquiresleep [keeps_intros, intro]: "keeps disk_view (acquiresleep l)"
  unfolding acquiresleep_def acquiresleep_enter_def acquiresleep_try_def take_sleeplock_def
  by (auto intro!: keeps_intros split: option.splits)

lemma disk_releasesleep [keeps_intros, intro]: "keeps disk_view (releasesleep l)"
  unfolding releasesleep_def by (auto intro!: keeps_intros)

lemma disk_holdingsleep [keeps_intros, intro]: "keeps disk_view (holdingsleep l)"
  unfolding holdingsleep_def by (auto intro!: keeps_intros)

lemma disk_initsleeplock [keeps_intros, intro]: "keeps disk_view (initsleeplock l nm)" "keeps disk_view (initlock l nm)"
  unfolding initsleeplock_def initlock_def by (auto intro!: keeps_intros)

lemmas kpost_disk = kpost_keeps[where f = disk_view]

lemma disk_viewD:
  "disk_view t = disk_view s \<Longrightarrow> bufs t = bufs s \<and> memdisk t = memdisk s \<and> disksize t = disksize s \<and>
    writes t = writes s \<and> bio_state.more t = bio_state.more s"
  by (simp add: disk_view_def)

section \<open>What the cache holds\<close>

text \<open>
  \<open>cache_ok\<close>: the list is a ring, and no two buffers stand for the same block.  \<open>coherent\<close>: a buffer of
  the disk that is dirty is valid, and one that is valid and not dirty has the content of its block.
  \<open>content\<close> is a block as a reader sees it.
\<close>

definition unique_blocks :: "buf list \<Rightarrow> bool" where
  "unique_blocks bs \<longleftrightarrow> (\<forall>i<NBUF. \<forall>j<NBUF. i \<noteq> j \<longrightarrow> bdev (bs ! i) \<noteq> 0 \<longrightarrow>
     bdev (bs ! i) = bdev (bs ! j) \<longrightarrow> blockno (bs ! i) \<noteq> blockno (bs ! j))"

definition cache_ok :: "buf list \<Rightarrow> bool" where
  "cache_ok bs \<longleftrightarrow> (\<exists>xs. ring bs xs) \<and> unique_blocks bs"

definition dirty :: "buf \<Rightarrow> bool" where
  "dirty x \<longleftrightarrow> bflags x AND B_DIRTY \<noteq> 0"

definition valid :: "buf \<Rightarrow> bool" where
  "valid x \<longleftrightarrow> bflags x AND B_VALID \<noteq> 0"

definition holds :: "buf list \<Rightarrow> u32 \<Rightarrow> nat \<Rightarrow> bool" where
  "holds bs b i \<longleftrightarrow> bdev (bs ! i) = 1 \<and> blockno (bs ! i) = b \<and> valid (bs ! i)"

definition cached_content :: "buf list \<Rightarrow> (nat \<Rightarrow> block) \<Rightarrow> u32 \<Rightarrow> block" where
  "cached_content bs dsk b =
     (case find (holds bs b) [0..<NBUF] of Some i \<Rightarrow> bdata (bs ! i) | None \<Rightarrow> dsk (unat b))"

abbreviation (input) content :: "'x bio_state_scheme \<Rightarrow> u32 \<Rightarrow> block" where
  "content s \<equiv> cached_content (bufs s) (memdisk s)"

definition coherent :: "buf list \<Rightarrow> (nat \<Rightarrow> block) \<Rightarrow> bool" where
  "coherent bs dsk \<longleftrightarrow> (\<forall>i<NBUF. bdev (bs ! i) = 1 \<longrightarrow>
     (dirty (bs ! i) \<longrightarrow> valid (bs ! i)) \<and>
     (valid (bs ! i) \<and> \<not> dirty (bs ! i) \<longrightarrow> bdata (bs ! i) = dsk (unat (blockno (bs ! i)))))"

definition cache_inv :: "'x bio_state_scheme \<Rightarrow> bool" where
  "cache_inv s \<longleftrightarrow> cache_ok (bufs s) \<and> coherent (bufs s) (memdisk s)"

lemma cache_ok_length: "cache_ok bs \<Longrightarrow> length bs = Suc NBUF"
  by (auto simp: cache_ok_def ring_def)

lemma unique_blocksD:
  "unique_blocks bs \<Longrightarrow> i < NBUF \<Longrightarrow> j < NBUF \<Longrightarrow> bdev (bs ! i) \<noteq> 0 \<Longrightarrow> bdev (bs ! i) = bdev (bs ! j) \<Longrightarrow>
    blockno (bs ! i) = blockno (bs ! j) \<Longrightarrow> i = j"
  unfolding unique_blocks_def by blast

lemma content_holds:
  assumes "unique_blocks bs" "i < NBUF" "holds bs b i"
  shows "cached_content bs dsk b = bdata (bs ! i)"
proof -
  have "find (holds bs b) [0..<NBUF] \<noteq> None"
    using assms by (auto simp: find_None_iff)
  then obtain j where j: "find (holds bs b) [0..<NBUF] = Some j"
    by blast
  then have "j < NBUF" "holds bs b j"
    by (auto simp: find_Some_iff)
  then have "j = i"
    using assms by (intro unique_blocksD) (auto simp: holds_def)
  then show ?thesis
    using j by (simp add: cached_content_def)
qed

lemma content_none: "(\<And>i. i < NBUF \<Longrightarrow> \<not> holds bs b i) \<Longrightarrow> cached_content bs dsk b = dsk (unat b)"
proof -
  assume "\<And>i. i < NBUF \<Longrightarrow> \<not> holds bs b i"
  then have "find (holds bs b) [0..<NBUF] = None"
    by (auto simp: find_None_iff)
  then show ?thesis
    by (simp add: cached_content_def)
qed

lemma payload_nth: "map payload bs = map payload bs' \<Longrightarrow> i < length bs \<Longrightarrow> payload (bs ! i) = payload (bs' ! i)"
  by (metis length_map nth_map)

lemma unique_payload:
  assumes "map payload bs = map payload bs'" "NBUF < length bs"
  shows "unique_blocks bs = unique_blocks bs'"
proof -
  have "payload (bs ! i) = payload (bs' ! i)" if "i < NBUF" for i
    using assms that by (intro payload_nth) simp_all
  then have "i < NBUF \<Longrightarrow> bdev (bs ! i) = bdev (bs' ! i) \<and> blockno (bs ! i) = blockno (bs' ! i)" for i
    by (simp add: payload_def)
  then show ?thesis
    by (simp add: unique_blocks_def)
qed

lemma unique_blocksI:
  "(\<And>i j. i < NBUF \<Longrightarrow> j < NBUF \<Longrightarrow> i < j \<Longrightarrow> bdev (bs ! i) \<noteq> 0 \<Longrightarrow> bdev (bs ! i) = bdev (bs ! j) \<Longrightarrow>
    blockno (bs ! i) \<noteq> blockno (bs ! j)) \<Longrightarrow> unique_blocks bs"
  unfolding unique_blocks_def by (metis linorder_neqE_nat)

lemma unique_update:
  assumes "unique_blocks bs" "i < length bs"
    "\<And>j. j < NBUF \<Longrightarrow> j \<noteq> i \<Longrightarrow> bdev (bs ! j) = bdev y \<Longrightarrow> bdev y \<noteq> 0 \<Longrightarrow> blockno (bs ! j) \<noteq> blockno y"
  shows "unique_blocks (bs[i := y])"
proof (rule unique_blocksI, goal_cases)
  case (1 a b)
  consider "a = i" "b \<noteq> i" | "a \<noteq> i" "b = i" | "a \<noteq> i" "b \<noteq> i"
    using 1 by linarith
  then show ?case
  proof cases
    case 1
    then show ?thesis
      using assms(2) assms(3)[of b] \<open>b < NBUF\<close> \<open>bdev (bs[i := y] ! a) \<noteq> 0\<close> \<open>bdev (bs[i := y] ! a) = bdev (bs[i := y] ! b)\<close>
      by simp
  next
    case 2
    then show ?thesis
      using assms(2) assms(3)[of a] \<open>a < NBUF\<close> \<open>bdev (bs[i := y] ! a) \<noteq> 0\<close> \<open>bdev (bs[i := y] ! a) = bdev (bs[i := y] ! b)\<close>
      by simp
  next
    case 3
    then show ?thesis
      using 1 unique_blocksD[OF assms(1), of a b] by auto
  qed
qed

lemma cache_ok_update:
  assumes "cache_ok bs" "i < length bs" "bnext y = bnext (bs ! i)" "bprev y = bprev (bs ! i)"
    "\<And>j. j < NBUF \<Longrightarrow> j \<noteq> i \<Longrightarrow> bdev (bs ! j) = bdev y \<Longrightarrow> bdev y \<noteq> 0 \<Longrightarrow> blockno (bs ! j) \<noteq> blockno y"
  shows "cache_ok (bs[i := y])"
proof -
  obtain xs where "ring bs xs" "unique_blocks bs"
    using assms(1) by (auto simp: cache_ok_def)
  then have "ring (bs[i := y]) xs" "unique_blocks (bs[i := y])"
    using assms(2-) by (blast intro: ring_update unique_update)+
  then show ?thesis
    by (auto simp: cache_ok_def)
qed

lemma cache_ok_data:
  assumes "cache_ok bs" "i < NBUF" "bnext y = bnext (bs ! i)" "bprev y = bprev (bs ! i)"
    "bdev y = bdev (bs ! i)" "blockno y = blockno (bs ! i)"
  shows "cache_ok (bs[i := y])"
proof (rule cache_ok_update)
  show "blockno (bs ! j) \<noteq> blockno y" if "j < NBUF" "j \<noteq> i" "bdev (bs ! j) = bdev y" "bdev y \<noteq> 0" for j
    using assms that unique_blocksD[of bs j i] by (auto simp: cache_ok_def)
qed (use assms cache_ok_length[of bs] in simp_all)

lemma find_in: "find P ys = Some j \<Longrightarrow> j \<in> set ys \<and> P j"
  by (induction ys) (auto split: if_splits)

lemma find_holds:
  assumes "ring bs xs"
  shows "find (\<lambda>i. P (bs ! i)) xs = None \<longleftrightarrow> (\<forall>i<NBUF. \<not> P (bs ! i))"
    and "find (\<lambda>i. P (bs ! i)) (rev xs) = None \<longleftrightarrow> (\<forall>i<NBUF. \<not> P (bs ! i))"
    and "find (\<lambda>i. P (bs ! i)) xs = Some j \<Longrightarrow> j < NBUF \<and> P (bs ! j)"
    and "find (\<lambda>i. P (bs ! i)) (rev xs) = Some j \<Longrightarrow> j < NBUF \<and> P (bs ! j)"
proof -
  have "set xs = {..<NBUF}"
    using assms by (simp add: ring_def)
  then have *: "i \<in> set xs \<longleftrightarrow> i < NBUF" "i \<in> set (rev xs) \<longleftrightarrow> i < NBUF" for i
    by simp_all
  show "find (\<lambda>i. P (bs ! i)) xs = None \<longleftrightarrow> (\<forall>i<NBUF. \<not> P (bs ! i))"
    "find (\<lambda>i. P (bs ! i)) (rev xs) = None \<longleftrightarrow> (\<forall>i<NBUF. \<not> P (bs ! i))"
    unfolding find_None_iff * by blast+
  show "find (\<lambda>i. P (bs ! i)) xs = Some j \<Longrightarrow> j < NBUF \<and> P (bs ! j)"
    "find (\<lambda>i. P (bs ! i)) (rev xs) = Some j \<Longrightarrow> j < NBUF \<and> P (bs ! j)"
    by (drule find_in, simp only: *)+
qed


section \<open>Operations of the cache\<close>

lemma bfind_run:
  assumes "ring (bufs s) xs"
  shows "bfind bnext P s = Inr (find (\<lambda>i. P (bufs s ! i)) xs, s)"
    and "bfind bprev P s = Inr (find (\<lambda>i. P (bufs s ! i)) (rev xs), s)"
  using ring_walk[OF assms, of P] by (simp_all add: bfind_def)

text \<open>Buffer \<open>i\<close>, which \<open>bget\<close> returns, has become \<open>y\<close>: the cached one, or a recycled one.\<close>

definition bget_rel :: "u32 \<Rightarrow> u32 \<Rightarrow> buf list \<Rightarrow> nat \<Rightarrow> buf \<Rightarrow> bool" where
  "bget_rel dev b bs i y \<longleftrightarrow> i < NBUF \<and>
     (bdev (bs ! i) = dev \<and> blockno (bs ! i) = b \<and> y = (bs ! i)\<lparr>refcnt := refcnt (bs ! i) + 1\<rparr> \<or>
      (\<forall>j<NBUF. \<not> (bdev (bs ! j) = dev \<and> blockno (bs ! j) = b)) \<and> refcnt (bs ! i) = 0 \<and> \<not> dirty (bs ! i) \<and>
        y = (bs ! i)\<lparr>bdev := dev, blockno := b, bflags := 0, refcnt := 1\<rparr>)"

lemma disk_bufset: "disk_view (upd_buf i f s) =
    ((bufs s)[i := f (bufs s ! i)], memdisk s, disksize s, writes s, bio_state.more s)"
  by (simp add: upd_buf_def disk_view_def)

lemma upd_buf_upd_buf [simp]: "i < length (bufs s) \<Longrightarrow> upd_buf i f (upd_buf i g s) = upd_buf i (\<lambda>x. f (g x)) s"
  by (simp add: upd_buf_def)

lemma bfind_kpost:
  assumes "ring (bufs s) xs"
  shows "kpost (bfind bnext P) s Q = Q (find (\<lambda>i. P (bufs s ! i)) xs) s"
    and "kpost (bfind bprev P) s Q = Q (find (\<lambda>i. P (bufs s ! i)) (rev xs)) s"
  by (simp_all add: kpost_def bfind_run[OF assms])

lemma kpost_bufset [kpost_simps]: "kpost (bufset f i) s Q = Q () (upd_buf i f s)"
  by (simp add: bufset_def kpost_simps)

lemma bget_spec:
  assumes "cache_ok (bufs s)"
  shows "kpost (bget dev b) s (\<lambda>i t. \<exists>y. bget_rel dev b (bufs s) i y \<and>
    disk_view t = ((bufs s)[i := y], memdisk s, disksize s, writes s, bio_state.more s))"
  unfolding bget_def kpost_simps
proof (rule kpost_disk[OF disk_locks(1)])
  fix x u assume "disk_view u = disk_view s"
  then have v: "bufs u = bufs s" "memdisk u = memdisk s" "disksize u = disksize s" "writes u = writes s"
      "bio_state.more u = bio_state.more s"
    by (simp_all add: disk_view_def)
  let ?Q = "\<lambda>i t. \<exists>y. bget_rel dev b (bufs s) i y \<and>
    disk_view t = ((bufs s)[i := y], memdisk s, disksize s, writes s, bio_state.more s)"
  obtain xs where xs: "ring (bufs u) xs"
    using assms v by (auto simp: cache_ok_def)
  have len: "length (bufs u) = Suc NBUF"
    using xs by (simp add: ring_def)
  have fin: "kpost (release Bcache_lock) t (\<lambda>_ t. kpost (acquiresleep (Buf_lk i)) t (\<lambda>_ t. ?Q i t))"
    if "bget_rel dev b (bufs s) i y" "disk_view t = ((bufs s)[i := y], memdisk s, disksize s, writes s, bio_state.more s)"
    for i y t
    by (rule kpost_disk[OF disk_locks(2)], rule kpost_disk[OF disk_acquiresleep]) (use that in auto)
  show "kpost (bfind bnext (\<lambda>b'. bdev b' = dev \<and> blockno b' = b)) u (\<lambda>x t. kpost (case x of
      None \<Rightarrow> kbind (bfind bprev (\<lambda>b. refcnt b = 0 \<and> bflags b AND 4 = 0)) (case_option (panic ''bget: no buffers'')
        (\<lambda>i. kbind (kseq [bufset (bdev_update (\<lambda>_. dev)) i, bufset (blockno_update (\<lambda>_. b)) i,
            bufset (bflags_update (\<lambda>_. 0)) i, bufset (refcnt_update (\<lambda>_. 1)) i, release Bcache_lock,
            acquiresleep (Buf_lk i)]) (\<lambda>_. kret i)))
    | Some i \<Rightarrow> kbind (kseq [bufset (\<lambda>x. x\<lparr>refcnt := refcnt x + 1\<rparr>) i, release Bcache_lock, acquiresleep (Buf_lk i)])
        (\<lambda>_. kret i)) t ?Q)"
  proof (cases "find (\<lambda>i. bdev (bufs u ! i) = dev \<and> blockno (bufs u ! i) = b) xs")
    case (Some i)
    then have "i < NBUF" "bdev (bufs u ! i) = dev" "blockno (bufs u ! i) = b"
      using find_holds(3)[OF xs, of "\<lambda>x. bdev x = dev \<and> blockno x = b" i] by auto
    then have "bget_rel dev b (bufs s) i ((bufs s ! i)\<lparr>refcnt := refcnt (bufs s ! i) + 1\<rparr>)"
      by (simp add: bget_rel_def v)
    then show ?thesis
      unfolding bfind_kpost(1)[OF xs] Some option.case kpost_simps by (rule fin) (simp add: disk_bufset v)
  next
    case None
    then have none: "\<forall>j<NBUF. \<not> (bdev (bufs s ! j) = dev \<and> blockno (bufs s ! j) = b)"
      using find_holds(1)[OF xs, of "\<lambda>x. bdev x = dev \<and> blockno x = b"] v by auto
    show ?thesis
    proof (cases "find (\<lambda>i. refcnt (bufs u ! i) = 0 \<and> bflags (bufs u ! i) AND B_DIRTY = 0) (rev xs)")
      case (Some i)
      then have i: "i < NBUF" "refcnt (bufs u ! i) = 0" "\<not> dirty (bufs u ! i)"
        using find_holds(4)[OF xs, of "\<lambda>x. refcnt x = 0 \<and> bflags x AND B_DIRTY = 0" i] by (auto simp: dirty_def)
      then have "bget_rel dev b (bufs s) i ((bufs s ! i)\<lparr>bdev := dev, blockno := b, bflags := 0, refcnt := 1\<rparr>)"
        using none by (simp add: bget_rel_def v)
      then show ?thesis
        unfolding bfind_kpost[OF xs] None Some option.case kpost_simps using i len by (intro fin) (simp_all add: disk_bufset v)
    next
      case none': None
      show ?thesis
        unfolding bfind_kpost[OF xs] None none' option.case kpost_simps ..
    qed
  qed
qed


lemma iderw_spec:
  fixes s :: "'x bio_state_scheme"
  assumes "i < length (bufs s)"
  defines "x \<equiv> bufs s ! i"
  shows "kpost (iderw i) s (\<lambda>_ t. bdev x = 1 \<and>
    disk_view t = (if dirty x
      then ((bufs s)[i := x\<lparr>bflags := bflags x AND NOT B_DIRTY OR B_VALID\<rparr>], (memdisk s)(unat (blockno x) := bdata x),
        disksize s, writes s @ [(unat (blockno x), bdata x)], bio_state.more s)
      else ((bufs s)[i := x\<lparr>bdata := memdisk s (unat (blockno x)), bflags := bflags x OR B_VALID\<rparr>], memdisk s,
        disksize s, writes s, bio_state.more s)))"
  unfolding iderw_def kpost_simps
proof (rule kpost_disk[OF disk_holdingsleep], goal_cases)
  case (1 h u)
  then have v: "bufs u = bufs s" "memdisk u = memdisk s" "disksize u = disksize s" "writes u = writes s"
      "bio_state.more u = bio_state.more s"
    by (simp_all add: disk_view_def)
  show ?case
    using assms(1) by (auto simp: kpost_simps v x_def dirty_def upd_buf_def disk_view_def)
qed

text \<open>What \<open>bread\<close> makes of buffer \<open>i\<close>, over the buffers \<open>bs\<close> and the disk \<open>dsk\<close>.\<close>

definition bread_rel :: "buf list \<Rightarrow> (nat \<Rightarrow> block) \<Rightarrow> u32 \<Rightarrow> nat \<Rightarrow> buf \<Rightarrow> bool" where
  "bread_rel bs dsk b i y \<longleftrightarrow> i < NBUF \<and> bdev y = 1 \<and> blockno y = b \<and> valid y \<and> bdata y = cached_content bs dsk b \<and>
     refcnt y = refcnt (bs ! i) + 1 \<and> bnext y = bnext (bs ! i) \<and> bprev y = bprev (bs ! i) \<and>
     (dirty y \<longleftrightarrow> dirty (bs ! i)) \<and>
     (bdev (bs ! i) = 1 \<and> blockno (bs ! i) = b \<or>
      (\<forall>j<NBUF. \<not> (bdev (bs ! j) = 1 \<and> blockno (bs ! j) = b)) \<and> refcnt (bs ! i) = 0 \<and> \<not> dirty (bs ! i))"

lemma flag_bits:
  "(f OR B_VALID) AND B_VALID \<noteq> 0" "(f OR B_VALID) AND B_DIRTY = f AND B_DIRTY"
  "(f AND NOT B_DIRTY OR B_VALID) AND B_DIRTY = (0 :: u32)" "(f AND NOT B_DIRTY OR B_VALID) AND B_VALID \<noteq> 0"
  "(f OR B_DIRTY) AND B_DIRTY \<noteq> 0" "(f OR B_DIRTY) AND B_VALID = f AND B_VALID"
proof -
  have v: "bit (B_VALID :: u32) n \<longleftrightarrow> n = 1" and d: "bit (B_DIRTY :: u32) n \<longleftrightarrow> n = 2" for n
    using bit_exp_iff[where 'a = "32 word", of 1 n] bit_exp_iff[where 'a = "32 word", of 2 n] by auto
  show "(f OR B_VALID) AND B_DIRTY = f AND B_DIRTY" "(f AND NOT B_DIRTY OR B_VALID) AND B_DIRTY = 0"
    "(f OR B_DIRTY) AND B_VALID = f AND B_VALID"
    by (rule bit_word_eqI; auto simp: bit_simps v d)+
  have "bit ((f OR B_VALID) AND B_VALID) 1" "bit ((f AND NOT B_DIRTY OR B_VALID) AND B_VALID) 1"
      "bit ((f OR B_DIRTY) AND B_DIRTY) 2"
    by (simp_all add: bit_simps v d)
  then show "(f OR B_VALID) AND B_VALID \<noteq> 0" "(f AND NOT B_DIRTY OR B_VALID) AND B_VALID \<noteq> 0"
    "(f OR B_DIRTY) AND B_DIRTY \<noteq> 0"
    by (metis bit_0_eq bot_apply bot_bool_def)+
qed

lemma content_invalid:
  assumes "unique_blocks bs" "i < NBUF" "bdev (bs ! i) = 1" "blockno (bs ! i) = b" "\<not> valid (bs ! i)"
  shows "cached_content bs dsk b = dsk (unat b)"
proof (rule content_none, rule notI)
  fix j assume j: "j < NBUF" "holds bs b j"
  then have "i = j"
    using assms by (intro unique_blocksD[of bs i j]) (simp_all add: holds_def)
  then show False
    using assms(5) j(2) by (simp add: holds_def)
qed

lemma bread_spec:
  assumes "cache_inv s"
  shows "kpost (bread 1 b) s (\<lambda>i t. \<exists>y. bread_rel (bufs s) (memdisk s) b i y \<and>
    disk_view t = ((bufs s)[i := y], memdisk s, disksize s, writes s, bio_state.more s))"
  unfolding bread_def kpost_simps
proof (rule kpost_mono[OF bget_spec], goal_cases)
  case 1
  then show ?case
    using assms by (simp add: cache_inv_def)
next
  case (2 i u)
  then obtain y where y: "bget_rel 1 b (bufs s) i y"
    and u: "disk_view u = ((bufs s)[i := y], memdisk s, disksize s, writes s, bio_state.more s)"
    by blast
  then have v: "bufs u = (bufs s)[i := y]" "memdisk u = memdisk s" "disksize u = disksize s" "writes u = writes s"
      "bio_state.more u = bio_state.more s"
    by (simp_all add: disk_view_def)
  have ok: "cache_ok (bufs s)" "unique_blocks (bufs s)" "coherent (bufs s) (memdisk s)" "length (bufs s) = Suc NBUF"
    using assms cache_ok_length by (auto simp: cache_inv_def cache_ok_def)
  then have i: "i < NBUF" "bufs u ! i = y"
    using y v by (auto simp: bget_rel_def)
  show ?case
  proof (cases "valid y")
    case True
    then have *: "bdev (bufs s ! i) = 1" "blockno (bufs s ! i) = b" "y = (bufs s ! i)\<lparr>refcnt := refcnt (bufs s ! i) + 1\<rparr>"
      using y by (auto simp: bget_rel_def valid_def)
    then have "cached_content (bufs s) (memdisk s) b = bdata (bufs s ! i)"
      using True ok i by (intro content_holds) (auto simp: holds_def valid_def)
    then have "bread_rel (bufs s) (memdisk s) b i y"
      using True * i by (simp add: bread_rel_def valid_def dirty_def)
    then show ?thesis
      using True i u by (auto simp: kpost_simps bufget_def valid_def)
  next
    case False
    have "\<not> dirty y"
      using y False ok(3) by (auto simp: bget_rel_def coherent_def valid_def dirty_def)
    moreover have "cached_content (bufs s) (memdisk s) b = memdisk s (unat b)"
    proof (cases "bdev (bufs s ! i) = 1 \<and> blockno (bufs s ! i) = b")
      case True
      then show ?thesis
        using y False ok i by (intro content_invalid) (auto simp: bget_rel_def valid_def)
    next
      case False
      then have "\<forall>j<NBUF. \<not> (bdev (bufs s ! j) = 1 \<and> blockno (bufs s ! j) = b)"
        using y by (auto simp: bget_rel_def)
      then show ?thesis
        by (intro content_none) (auto simp: holds_def)
    qed
    ultimately have "bread_rel (bufs s) (memdisk s) b i (y\<lparr>bdata := memdisk s (unat (blockno y)), bflags := bflags y OR B_VALID\<rparr>)"
      using y by (auto simp: bread_rel_def bget_rel_def valid_def dirty_def flag_bits)
    moreover have "i < length (bufs u)"
      using i ok v by simp
    ultimately show ?thesis
      using False i v \<open>\<not> dirty y\<close>
      by (auto simp: kpost_simps bufget_def valid_def intro!: kpost_mono[OF iderw_spec])
  qed
qed


lemma content_eqI:
  assumes "unique_blocks bs" "\<And>i. i < NBUF \<Longrightarrow> holds bs b i \<Longrightarrow> bdata (bs ! i) = v"
    "(\<And>i. i < NBUF \<Longrightarrow> \<not> holds bs b i) \<Longrightarrow> dsk (unat b) = v"
  shows "cached_content bs dsk b = v"
proof (cases "\<exists>i<NBUF. holds bs b i")
  case True
  then show ?thesis
    using assms(1,2) content_holds by metis
next
  case False
  then show ?thesis
    using assms(3) content_none[of bs b dsk] by simp
qed

text \<open>The cache after \<open>bread\<close>, and after a buffer has been written through.\<close>

lemma bread_rel_inv:
  assumes "cache_ok bs" "coherent bs dsk" "bread_rel bs dsk b i y"
  shows "cache_ok (bs[i := y])" "coherent (bs[i := y]) dsk"
    "cached_content (bs[i := y]) dsk = cached_content bs dsk"
proof -
  have len: "length bs = Suc NBUF" and u: "unique_blocks bs"
    using assms(1) cache_ok_length by (auto simp: cache_ok_def)
  have y: "i < NBUF" "bdev y = 1" "blockno y = b" "valid y" "bdata y = cached_content bs dsk b"
      "bnext y = bnext (bs ! i)" "bprev y = bprev (bs ! i)" "dirty y \<longleftrightarrow> dirty (bs ! i)"
    using assms(3) by (auto simp: bread_rel_def)
  have other: "blockno (bs ! j) \<noteq> b" if "j < NBUF" "j \<noteq> i" "bdev (bs ! j) = 1" for j
    using assms(3) that u unique_blocksD[of bs i j] by (auto simp: bread_rel_def)
  show ok: "cache_ok (bs[i := y])"
    using assms(1) y len other by (intro cache_ok_update) auto
  have clean: "bdata y = dsk (unat b)" if "\<not> dirty y"
  proof -
    have "cached_content bs dsk b = dsk (unat b)"
    proof (rule content_eqI[OF u])
      fix j assume j: "j < NBUF" "holds bs b j"
      then have "j = i"
        using other by (auto simp: holds_def)
      then show "bdata (bs ! j) = dsk (unat b)"
        using j that y(8) assms(2) by (auto simp: coherent_def holds_def)
    qed simp
    then show ?thesis
      using y(5) by simp
  qed
  show "coherent (bs[i := y]) dsk"
    using assms(2) y len clean by (auto simp: coherent_def nth_list_update)
  show "cached_content (bs[i := y]) dsk = cached_content bs dsk"
  proof (rule ext, rule content_eqI)
    show "unique_blocks (bs[i := y])"
      using ok by (simp add: cache_ok_def)
  next
    fix b' j assume j: "j < NBUF" "holds (bs[i := y]) b' j"
    show "bdata (bs[i := y] ! j) = cached_content bs dsk b'"
    proof (cases "j = i")
      case True
      then show ?thesis
        using j y len by (simp add: holds_def)
    next
      case False
      then show ?thesis
        using j u len content_holds[of bs j b' dsk] by (simp add: holds_def)
    qed
  next
    fix b' assume none: "\<And>j. j < NBUF \<Longrightarrow> \<not> holds (bs[i := y]) b' j"
    have "b' \<noteq> b"
      using none[of i] y len by (auto simp: holds_def)
    have "cached_content bs dsk b' = dsk (unat b')"
    proof (rule content_eqI[OF u])
      fix j assume j: "j < NBUF" "holds bs b' j"
      then have "j = i"
        using none[of j] len by (cases "j = i") (auto simp: holds_def)
      moreover from this have "\<not> dirty (bs ! i)"
        using j \<open>b' \<noteq> b\<close> assms(3) by (auto simp: bread_rel_def holds_def)
      ultimately show "bdata (bs ! j) = dsk (unat b')"
        using j assms(2) by (auto simp: coherent_def holds_def)
    qed simp
    then show "dsk (unat b') = cached_content bs dsk b'" ..
  qed
qed

lemma write_through_inv:
  assumes "cache_ok bs" "coherent bs dsk" "i < NBUF" "bdev (bs ! i) = 1" "blockno (bs ! i) = b"
    "bdev y = 1" "blockno y = b" "valid y" "\<not> dirty y" "bnext y = bnext (bs ! i)" "bprev y = bprev (bs ! i)"
  shows "cache_ok (bs[i := y])" "coherent (bs[i := y]) (dsk(unat b := bdata y))"
    "cached_content (bs[i := y]) (dsk(unat b := bdata y)) = (cached_content bs dsk)(b := bdata y)"
proof -
  have len: "length bs = Suc NBUF" and u: "unique_blocks bs"
    using assms(1) cache_ok_length by (auto simp: cache_ok_def)
  show ok: "cache_ok (bs[i := y])"
    using assms by (intro cache_ok_data) simp_all
  have other: "blockno (bs ! j) \<noteq> b" if "j < NBUF" "j \<noteq> i" "bdev (bs ! j) = 1" for j
    using assms that unique_blocksD[OF u, of i j] by auto
  show "coherent (bs[i := y]) (dsk(unat b := bdata y))"
    using assms len other by (auto simp: coherent_def nth_list_update simp flip: word_unat_eq_iff)
  have u': "unique_blocks (bs[i := y])"
    using ok by (simp add: cache_ok_def)
  have hb: "holds (bs[i := y]) b i"
    using assms len by (simp add: holds_def)
  have "cached_content (bs[i := y]) (dsk(unat b := bdata y)) b' = cached_content bs dsk b'" if "b' \<noteq> b" for b'
  proof (rule content_eqI[OF u'])
    fix j assume j: "j < NBUF" "holds (bs[i := y]) b' j"
    then have "j \<noteq> i"
      using assms len that by (auto simp: holds_def)
    then show "bdata (bs[i := y] ! j) = cached_content bs dsk b'"
      using j u content_holds[of bs j b' dsk] by (simp add: holds_def)
  next
    assume none: "\<And>j. j < NBUF \<Longrightarrow> \<not> holds (bs[i := y]) b' j"
    have "cached_content bs dsk b' = dsk (unat b')"
    proof (rule content_none)
      fix j assume "j < NBUF"
      then show "\<not> holds bs b' j"
        using none[of j] assms(5) that by (cases "j = i") (simp_all add: holds_def)
    qed
    then show "(dsk(unat b := bdata y)) (unat b') = cached_content bs dsk b'"
      using that by (simp add: word_unat_eq_iff)
  qed
  moreover have "cached_content (bs[i := y]) (dsk(unat b := bdata y)) b = bdata y"
    using content_holds[OF u' assms(3) hb] assms(3) len by simp
  ultimately show "cached_content (bs[i := y]) (dsk(unat b := bdata y)) = (cached_content bs dsk)(b := bdata y)"
    by auto
qed

text \<open>Reference counts and links do not matter to the content.\<close>

definition image_of :: "buf \<Rightarrow> u32 \<times> u32 \<times> u32 \<times> block" where
  "image_of x = (bflags x, bdev x, blockno x, bdata x)"

lemma image_content:
  assumes "\<And>i. i < NBUF \<Longrightarrow> image_of (bs ! i) = image_of (bs' ! i)"
  shows "cached_content bs dsk = cached_content bs' dsk" "coherent bs dsk = coherent bs' dsk"
    "unique_blocks bs = unique_blocks bs'"
proof -
  have h: "i < NBUF \<Longrightarrow> holds bs b i = holds bs' b i" for i b
    using assms[of i] by (simp add: image_of_def holds_def valid_def)
  have "find (holds bs b) [0..<NBUF] = find (holds bs' b) [0..<NBUF]" for b
    using h by (intro find_cong) auto
  then show "cached_content bs dsk = cached_content bs' dsk"
    using assms by (auto simp: cached_content_def image_of_def fun_eq_iff split: option.split dest!: find_in)
  show "coherent bs dsk = coherent bs' dsk"
    using assms by (simp add: coherent_def image_of_def dirty_def valid_def cong: conj_cong)
  show "unique_blocks bs = unique_blocks bs'"
    using assms by (simp add: unique_blocks_def image_of_def)
qed


lemma bwrite_spec:
  fixes s :: "'x bio_state_scheme"
  assumes "i < length (bufs s)"
  defines "x \<equiv> bufs s ! i"
  shows "kpost (bwrite i) s (\<lambda>_ t. bdev x = 1 \<and>
    disk_view t = ((bufs s)[i := x\<lparr>bflags := (bflags x OR B_DIRTY) AND NOT B_DIRTY OR B_VALID\<rparr>],
      (memdisk s)(unat (blockno x) := bdata x), disksize s, writes s @ [(unat (blockno x), bdata x)], bio_state.more s))"
  unfolding bwrite_def kpost_simps
proof (rule kpost_disk[OF disk_holdingsleep], goal_cases)
  case (1 h u)
  then have v: "bufs u = bufs s" "memdisk u = memdisk s" "disksize u = disksize s" "writes u = writes s"
      "bio_state.more u = bio_state.more s"
    by (simp_all add: disk_view_def)
  let ?u = "upd_buf i (\<lambda>x. x\<lparr>bflags := bflags x OR B_DIRTY\<rparr>) u"
  have u': "bufs ?u = (bufs s)[i := x\<lparr>bflags := bflags x OR B_DIRTY\<rparr>]" "memdisk ?u = memdisk s" "disksize ?u = disksize s"
      "writes ?u = writes s" "bio_state.more ?u = bio_state.more s"
    by (simp_all add: upd_buf_def v x_def)
  have "dirty (bufs ?u ! i)"
    using assms(1) by (simp add: u' dirty_def flag_bits)
  moreover have "i < length (bufs ?u)"
    using assms(1) by (simp add: u')
  ultimately have "kpost (iderw i) ?u (\<lambda>_ t. bdev x = 1 \<and>
    disk_view t = ((bufs s)[i := x\<lparr>bflags := (bflags x OR B_DIRTY) AND NOT B_DIRTY OR B_VALID\<rparr>],
      (memdisk s)(unat (blockno x) := bdata x), disksize s, writes s @ [(unat (blockno x), bdata x)], bio_state.more s))"
    using assms(1) by (intro kpost_mono[OF iderw_spec]) (simp_all add: u')
  then show ?case
    by (simp add: kpost_simps)
qed

lemma kpost_links [kpost_simps]:
  "kpost (unlink i) s Q = Q () (s\<lparr>bufs := ring_remove i (bufs s)\<rparr>)"
  "kpost (link_first i) s Q = Q () (s\<lparr>bufs := ring_insert i (bufs s)\<rparr>)"
  by (simp_all add: unlink_def link_first_def kpost_simps upd_buf_def ring_remove_def ring_insert_def Let_def)

lemma brelse_spec:
  fixes s :: "'x bio_state_scheme"
  assumes "cache_ok (bufs s)" "i < NBUF"
  defines "x \<equiv> bufs s ! i"
  shows "kpost (brelse i) s (\<lambda>_ t. \<exists>bs'. cache_ok bs' \<and>
    map payload bs' = map payload ((bufs s)[i := x\<lparr>refcnt := refcnt x - 1\<rparr>]) \<and>
    disk_view t = (bs', memdisk s, disksize s, writes s, bio_state.more s))"
  unfolding brelse_def kpost_simps
proof (rule kpost_disk[OF disk_holdingsleep], goal_cases)
  case (1 h u)
  let ?Q = "\<lambda>_ t. \<exists>bs'. cache_ok bs' \<and>
    map payload bs' = map payload ((bufs s)[i := x\<lparr>refcnt := refcnt x - 1\<rparr>]) \<and>
    disk_view t = (bs', memdisk s, disksize s, writes s, bio_state.more s)"
  have "kpost (releasesleep (Buf_lk i)) u (\<lambda>_ t. kpost (acquire Bcache_lock) t (\<lambda>_ t.
     if refcnt (bufs (upd_buf i (\<lambda>x. x\<lparr>refcnt := refcnt x - 1\<rparr>) t) ! i) = 0
     then kpost (unlink i) (upd_buf i (\<lambda>x. x\<lparr>refcnt := refcnt x - 1\<rparr>) t) (\<lambda>_ t. kpost (link_first i) t (\<lambda>_ t. kpost (release Bcache_lock) t ?Q))
     else kpost (release Bcache_lock) (upd_buf i (\<lambda>x. x\<lparr>refcnt := refcnt x - 1\<rparr>) t) ?Q))"
  proof (rule kpost_disk[OF disk_releasesleep], rule kpost_disk[OF disk_locks(1)], goal_cases)
    case (1 a u1 b u2)
    let ?w = "upd_buf i (\<lambda>x. x\<lparr>refcnt := refcnt x - 1\<rparr>) u2"
    let ?bs = "(bufs s)[i := x\<lparr>refcnt := refcnt x - 1\<rparr>]"
    have w: "bufs ?w = ?bs" "memdisk ?w = memdisk s" "disksize ?w = disksize s" "writes ?w = writes s"
      "bio_state.more ?w = bio_state.more s"
      using 1 \<open>disk_view u = disk_view s\<close> by (simp_all add: disk_view_def upd_buf_def x_def)
    have ok: "cache_ok ?bs"
      using assms by (intro cache_ok_data) (simp_all add: x_def)
    then obtain xs where xs: "ring ?bs xs" and un: "unique_blocks ?bs"
      by (auto simp: cache_ok_def)
    have rel: "kpost (release Bcache_lock) t ?Q"
      if "cache_ok bs'" "map payload bs' = map payload ?bs"
        "disk_view t = (bs', memdisk s, disksize s, writes s, bio_state.more s)" for t bs'
      by (rule kpost_disk[OF disk_locks(2)]) (use that in auto)
    let ?bs' = "ring_insert i (ring_remove i ?bs)"
    have "kpost (release Bcache_lock) (?w\<lparr>bufs := ?bs'\<rparr>) ?Q"
    proof (rule rel)
      have "ring ?bs' (i # remove1 i xs)"
        using xs assms(2) by (rule ring_to_front)
      moreover have p: "map payload ?bs' = map payload ?bs"
        by (simp only: payload_ring)
      moreover have "unique_blocks ?bs'"
        using unique_payload[OF p] un xs by (simp add: ring_def)
      ultimately show "cache_ok ?bs'" "map payload ?bs' = map payload ?bs"
        by (auto simp: cache_ok_def)
    qed (use w in \<open>simp add: disk_view_def\<close>)
    moreover have "kpost (release Bcache_lock) ?w ?Q"
      using ok w by (intro rel[of ?bs]) (simp_all add: disk_view_def)
    ultimately show ?case
      by (simp add: kpost_simps w(1))
  qed
  then show ?case
    unfolding bufget_def kpost_simps by simp
qed

section \<open>Set-up\<close>

lemma kseq_append: "kseq (ms @ ns) s = kbind (kseq ms) (\<lambda>_. kseq ns) s"
  by (induction ms arbitrary: s) (auto simp: kbind_def split: sum.splits prod.splits)

lemma binit_buf_run: "\<exists>t. binit_buf b s = Inr ((), t) \<and> bufs t = ring_insert b (bufs s) \<and> memdisk t = memdisk s"
  by (simp add: binit_buf_def initsleeplock_def initlock_def bufset_def upd_buf_def upd_sl_def upd_lock_def kbind_assoc
      ring_insert_def Let_def)

lemma binit_loop:
  assumes "length (bufs s) = Suc NBUF" "linked (bufs s) bhead [] bhead" "k \<le> NBUF"
  shows "\<exists>t. kseq (map binit_buf [0..<k]) s = Inr ((), t) \<and> linked (bufs t) bhead (rev [0..<k]) bhead \<and>
    map payload (bufs t) = map payload (bufs s) \<and> memdisk t = memdisk s"
  using assms(3)
proof (induction k)
  case 0
  then show ?case
    using assms by simp
next
  case (Suc k)
  then obtain t where t: "kseq (map binit_buf [0..<k]) s = Inr ((), t)" "linked (bufs t) bhead (rev [0..<k]) bhead"
      "map payload (bufs t) = map payload (bufs s)" "memdisk t = memdisk s"
    by auto
  then have len: "length (bufs t) = Suc NBUF"
    using assms(1) by (metis length_map)
  obtain u where u: "binit_buf k t = Inr ((), u)" "bufs u = ring_insert k (bufs t)" "memdisk u = memdisk t"
    using binit_buf_run by blast
  have "linked (bufs u) bhead (k # rev [0..<k]) bhead"
    unfolding u(2) using t(2) len Suc.prems by (intro linked_insert) auto
  then show ?case
    using t u by (intro exI[of _ u]) (simp add: kseq_append kbind_Inr payload_ring)
qed

lemma binit_run:
  assumes "length (bufs s) = Suc NBUF"
  shows "\<exists>t. binit s = Inr ((), t) \<and> ring (bufs t) (rev [0..<NBUF]) \<and> map payload (bufs t) = map payload (bufs s) \<and>
    memdisk t = memdisk s"
proof -
  let ?s = "upd_buf bhead (\<lambda>x. x\<lparr>bnext := bhead\<rparr>) (upd_buf bhead (\<lambda>x. x\<lparr>bprev := bhead\<rparr>)
    (upd_lock Bcache_lock (\<lambda>k. k\<lparr>lk_name := ''bcache'', locked := 0, lk_cpu := None\<rparr>) s))"
  have s: "length (bufs ?s) = Suc NBUF" "linked (bufs ?s) bhead [] bhead" "memdisk ?s = memdisk s"
      "map payload (bufs ?s) = map payload (bufs s)"
    using assms by (simp_all add: upd_buf_def upd_lock_def payload_update payload_links)
  obtain t where t: "kseq (map binit_buf [0..<NBUF]) ?s = Inr ((), t)" "linked (bufs t) bhead (rev [0..<NBUF]) bhead"
      "map payload (bufs t) = map payload (bufs ?s)" "memdisk t = memdisk ?s"
    using binit_loop[OF s(1,2), of NBUF] by auto
  then have "length (bufs t) = Suc NBUF"
    using s(1) by (metis length_map)
  then have "ring (bufs t) (rev [0..<NBUF])"
    using t(2) by (auto simp: ring_def)
  moreover have "binit s = Inr ((), t)"
    using t(1) by (simp add: binit_def initlock_def bufset_def kbind_Inr)
  ultimately show ?thesis
    using t s by auto
qed

section \<open>The invariant\<close>

lemma image_payload: "payload x = payload y \<Longrightarrow> image_of x = image_of y"
  by (simp add: payload_def image_of_def)

lemma image_relse:
  assumes "map payload bs' = map payload (bs[i := (bs ! i)\<lparr>refcnt := r\<rparr>])" "length bs = Suc NBUF" "j < NBUF"
  shows "image_of (bs' ! j) = image_of (bs ! j)"
proof -
  have "length bs' = Suc NBUF"
    using map_eq_imp_length_eq[OF assms(1)] assms(2) by simp
  then have "payload (bs' ! j) = payload (bs[i := (bs ! i)\<lparr>refcnt := r\<rparr>] ! j)"
    using assms by (intro payload_nth) simp_all
  then have "image_of (bs' ! j) = image_of (bs[i := (bs ! i)\<lparr>refcnt := r\<rparr>] ! j)"
    by (rule image_payload)
  then show ?thesis
    using assms(2,3) by (cases "i = j") (simp_all add: image_of_def)
qed

lemma binit_inv:
  assumes "length (bufs s) = Suc NBUF" "\<forall>i<NBUF. bdev (bufs s ! i) = 0"
  shows "\<exists>t. binit s = Inr ((), t) \<and> cache_inv t \<and> memdisk t = memdisk s"
proof -
  obtain t where t: "binit s = Inr ((), t)" "ring (bufs t) (rev [0..<NBUF])" "map payload (bufs t) = map payload (bufs s)"
      "memdisk t = memdisk s"
    using binit_run[OF assms(1)] by blast
  have "payload (bufs t ! i) = payload (bufs s ! i)" if "i < NBUF" for i
    using t(2,3) that by (intro payload_nth) (auto simp: ring_def)
  then have z: "bdev (bufs t ! i) = 0" if "i < NBUF" for i
    using assms(2) that by (simp add: payload_def)
  then have "unique_blocks (bufs t)"
    by (auto simp: unique_blocks_def)
  moreover have "coherent (bufs t) (memdisk t)"
    using z by (auto simp: coherent_def)
  ultimately show ?thesis
    using t by (auto simp: cache_inv_def cache_ok_def)
qed

lemma bread_inv:
  assumes "cache_inv s" "bread 1 b s = Inr (i, t)"
  shows "cache_inv t \<and> i < NBUF \<and> holds (bufs t) b i \<and> bdata (bufs t ! i) = content s b \<and> content t = content s \<and>
    memdisk t = memdisk s \<and> writes t = writes s"
proof -
  obtain y where y: "bread_rel (bufs s) (memdisk s) b i y"
    and d: "disk_view t = ((bufs s)[i := y], memdisk s, disksize s, writes s, bio_state.more s)"
    using kpostD[OF bread_spec[OF assms(1)] assms(2)] by blast
  have t: "bufs t = (bufs s)[i := y]" "memdisk t = memdisk s" "writes t = writes s"
    using d by (simp_all add: disk_view_def)
  have "length (bufs s) = Suc NBUF"
    using assms(1) cache_ok_length by (auto simp: cache_inv_def)
  moreover have "i < NBUF" "bdev y = 1" "blockno y = b" "valid y" "bdata y = content s b"
    using y by (auto simp: bread_rel_def)
  ultimately show ?thesis
    using bread_rel_inv[of "bufs s" "memdisk s" b i y] assms(1) y by (simp add: t cache_inv_def holds_def)
qed

lemma brelse_inv:
  assumes "cache_inv s" "i < NBUF" "brelse i s = Inr (x, t)"
  shows "cache_inv t \<and> content t = content s \<and> memdisk t = memdisk s \<and> writes t = writes s"
proof -
  have ok: "cache_ok (bufs s)" and co: "coherent (bufs s) (memdisk s)" and len: "length (bufs s) = Suc NBUF"
    using assms(1) cache_ok_length by (auto simp: cache_inv_def)
  obtain bs' where bs': "cache_ok bs'"
      "map payload bs' = map payload ((bufs s)[i := (bufs s ! i)\<lparr>refcnt := refcnt (bufs s ! i) - 1\<rparr>])"
    and d: "disk_view t = (bs', memdisk s, disksize s, writes s, bio_state.more s)"
    using kpostD[OF brelse_spec[OF ok assms(2)] assms(3)] by blast
  have "image_of (bs' ! j) = image_of (bufs s ! j)" if "j < NBUF" for j
    using bs'(2) len that by (rule image_relse)
  then have "cached_content bs' (memdisk s) = content s" "coherent bs' (memdisk s) = coherent (bufs s) (memdisk s)"
    using image_content(1,2)[of bs' "bufs s" "memdisk s"] by blast+
  then show ?thesis
    using d bs'(1) co by (simp add: cache_inv_def disk_view_def)
qed

lemma bwrite_inv:
  assumes "cache_inv s" "i < NBUF" "holds (bufs s) b i"
    "bwrite i (upd_buf i (\<lambda>x. x\<lparr>bdata := v\<rparr>) s) = Inr (x, t)"
  shows "cache_inv t \<and> content t = (content s)(b := v) \<and> memdisk t = (memdisk s)(unat b := v) \<and>
    writes t = writes s @ [(unat b, v)]"
proof -
  have ok: "cache_ok (bufs s)" and co: "coherent (bufs s) (memdisk s)" and len: "length (bufs s) = Suc NBUF"
    using assms(1) cache_ok_length by (auto simp: cache_inv_def)
  let ?s = "upd_buf i (\<lambda>x. x\<lparr>bdata := v\<rparr>) s"
  let ?y = "(bufs s ! i)\<lparr>bdata := v, bflags := (bflags (bufs s ! i) OR B_DIRTY) AND NOT B_DIRTY OR B_VALID\<rparr>"
  have b: "bdev (bufs s ! i) = 1" "blockno (bufs s ! i) = b"
    using assms(3) by (simp_all add: holds_def)
  have "i < length (bufs ?s)"
    using assms(2) len by (simp add: upd_buf_def)
  from kpostD[OF bwrite_spec[OF this] assms(4)] have
    "disk_view t = ((bufs s)[i := ?y], (memdisk s)(unat b := v), disksize s, writes s @ [(unat b, v)], bio_state.more s)"
    using assms(2) len b by (simp add: upd_buf_def)
  then have t: "bufs t = (bufs s)[i := ?y]" "memdisk t = (memdisk s)(unat b := bdata ?y)" "writes t = writes s @ [(unat b, v)]"
    by (simp_all add: disk_view_def)
  have "valid ?y" "\<not> dirty ?y"
    using flag_bits(3,4)[of "bflags (bufs s ! i) OR B_DIRTY"] by (simp_all add: valid_def dirty_def)
  then show ?thesis
    using write_through_inv[OF ok co assms(2) b, of ?y] b by (simp add: t cache_inv_def)
qed

text \<open>
  C16: The buffer cache is a transparent view of the disk.  \<open>binit\<close> returns with the invariant: the buffers
  form one ring, no block is cached twice, a clean buffer equals its block.  \<open>bread\<close> returns a buffer with
  the current content of the block, and it and \<open>brelse\<close> change the content of no block; writing a
  buffer through changes that one block, in the cache and on the disk.  All keep the invariant.
\<close>

theorem buffer_cache_invariant:
  "(length (bufs s) = Suc NBUF \<and> (\<forall>i<NBUF. bdev (bufs s ! i) = 0) \<longrightarrow>
      (\<exists>t. binit s = Inr ((), t) \<and> cache_inv t \<and> memdisk t = memdisk s)) \<and>
   (cache_inv s \<longrightarrow> (\<forall>b i t. bread 1 b s = Inr (i, t) \<longrightarrow>
      cache_inv t \<and> i < NBUF \<and> holds (bufs t) b i \<and> bdata (bufs t ! i) = content s b \<and> content t = content s \<and>
      memdisk t = memdisk s \<and> writes t = writes s)) \<and>
   (cache_inv s \<longrightarrow> (\<forall>i<NBUF. \<forall>x t. brelse i s = Inr (x, t) \<longrightarrow>
      cache_inv t \<and> content t = content s \<and> memdisk t = memdisk s \<and> writes t = writes s)) \<and>
   (cache_inv s \<longrightarrow> (\<forall>i<NBUF. \<forall>b v x t. holds (bufs s) b i \<longrightarrow>
      bwrite i (upd_buf i (\<lambda>x. x\<lparr>bdata := v\<rparr>) s) = Inr (x, t) \<longrightarrow>
      cache_inv t \<and> content t = (content s)(b := v) \<and> memdisk t = (memdisk s)(unat b := v) \<and>
      writes t = writes s @ [(unat b, v)]))"
  using binit_inv[of s] bread_inv[of s] brelse_inv[of s] bwrite_inv[of s] by blast


text \<open>A cache at boot: a processor runs the first process, and the buffers are zero.\<close>

definition buf0 :: buf where
  "buf0 = \<lparr>bflags = 0, bdev = 0, blockno = 0, refcnt = 0, bprev = 0, bnext = 0, qnext = None, bdata = replicate 512 0\<rparr>"

definition bio2 :: "'x \<Rightarrow> 'x bio_state_scheme" where
  "bio2 x = (proc2 \<lparr>sleeplocks = (\<lambda>_. \<lparr>sl_locked = 0, sl_name = [], sl_pid = 0\<rparr>), bufs = replicate 31 buf0,
     memdisk = (\<lambda>b. replicate 512 (of_nat b)), disksize = 1000, writes = [], \<dots> = x\<rparr>)
     \<lparr>cpus := [cpu0\<lparr>cpu_proc := Some 0\<rparr>, cpu0\<lparr>apicid := 1\<rparr>]\<rparr>"

lemma bio2_bufs: "bufs (bio2 x) = replicate 31 buf0" "memdisk (bio2 x) = (\<lambda>b. replicate 512 (of_nat b))"
  by (simp_all add: bio2_def proc2_def cons1_def kmem3_def mach2_def)

theorem buffer_cache_invariant_witness:
  "\<exists>t. binit (bio2 ()) = Inr ((), t) \<and> cache_inv t \<and> memdisk t 5 = replicate 512 5 \<and>
     (\<forall>i u. bread 1 5 t = Inr (i, u) \<longrightarrow> cache_inv u \<and> bdata (bufs u ! i) = content t 5)"
proof -
  have z: "length (bufs (bio2 ())) = Suc NBUF \<and> (\<forall>i<NBUF. bdev (bufs (bio2 ()) ! i) = 0)"
    by (simp add: bio2_bufs buf0_def)
  obtain t where "binit (bio2 ()) = Inr ((), t)" "cache_inv t" "memdisk t = memdisk (bio2 ())"
    using buffer_cache_invariant[of "bio2 ()"] z by blast
  moreover from this(2) have "\<forall>i u. bread 1 5 t = Inr (i, u) \<longrightarrow> cache_inv u \<and> bdata (bufs u ! i) = content t 5"
    using buffer_cache_invariant[of t] by blast
  ultimately show ?thesis
    by (simp add: bio2_bufs)
qed

text \<open>Storing a sequence of blocks, in order.\<close>

definition store_all :: "('b \<Rightarrow> 'v) \<Rightarrow> ('b \<times> 'v) list \<Rightarrow> 'b \<Rightarrow> 'v" where
  "store_all f ws = fold (\<lambda>(b, v) f. f(b := v)) ws f"

lemma store_all_simps [simp]: "store_all f [] = f" "store_all f ((b, v) # ws) = store_all (f(b := v)) ws"
  by (simp_all add: store_all_def)

lemma store_all_append: "store_all f (ws @ vs) = store_all (store_all f ws) vs"
  by (simp add: store_all_def)

lemma store_all_other: "b \<notin> fst ` set ws \<Longrightarrow> store_all f ws b = f b"
  by (induction ws arbitrary: f) auto

lemma store_all_fun:
  "\<forall>(b, v) \<in> set ws. v = g b \<Longrightarrow> store_all f ws b = (if b \<in> fst ` set ws then g b else f b)"
proof (induction ws arbitrary: f)
  case (Cons w ws)
  obtain c where "w = (c, g c)"
    using Cons.prems by (cases w) auto
  then show ?case
    using Cons.IH[of "f(c := g c)"] Cons.prems by (auto simp del: fun_upd_apply) (simp_all split: if_splits)
qed simp

lemma kpost_append: "kpost (kseq (ms @ ns)) s Q = kpost (kseq ms) s (\<lambda>_ t. kpost (kseq ns) t Q)"
  by (simp add: kpost_def kseq_append kbind_Inr_iff) blast

section \<open>What the log relies on\<close>

text \<open>
  The interface of the buffer cache to its clients: \<open>con\<close> is the content of the blocks as a reader sees
  it, \<open>dsk\<close> the disk and \<open>tr\<close> the writes that reached it; \<open>held s b i\<close> says that buffer \<open>i\<close> holds
  block \<open>b\<close> and is referenced, \<open>pins\<close> counts the references, and \<open>rest\<close> is the state of the client.
\<close>

locale write_through_cache =
  fixes rd :: "u32 \<Rightarrow> ('s, nat) kernel"
    and wr rel :: "nat \<Rightarrow> ('s, unit) kernel"
    and dat :: "'s \<Rightarrow> nat \<Rightarrow> block"
    and put :: "nat \<Rightarrow> block \<Rightarrow> 's \<Rightarrow> 's"
    and inv :: "'s \<Rightarrow> bool"
    and con :: "'s \<Rightarrow> u32 \<Rightarrow> block"
    and dsk :: "'s \<Rightarrow> nat \<Rightarrow> block"
    and tr :: "'s \<Rightarrow> (nat \<times> block) list"
    and held :: "'s \<Rightarrow> u32 \<Rightarrow> nat \<Rightarrow> bool"
    and pins :: "'s \<Rightarrow> nat \<Rightarrow> u32"
    and rest :: "'s \<Rightarrow> 'm"
  assumes held_inj: "held s b i \<Longrightarrow> held s c i \<Longrightarrow> b = c"
    and held_dat: "inv s \<Longrightarrow> held s b i \<Longrightarrow> dat s i = con s b"
    and rd_spec: "inv s \<Longrightarrow> kpost (rd b) s (\<lambda>i t. inv t \<and> con t = con s \<and> dsk t = dsk s \<and> tr t = tr s \<and>
      rest t = rest s \<and> pins t = (pins s)(i := pins s i + 1) \<and> (pins s i \<noteq> - 1 \<longrightarrow> held t b i) \<and>
      (\<forall>c j. held s c j \<longrightarrow> c \<noteq> b \<longrightarrow> j \<noteq> i \<and> held t c j))"
    and wr_spec: "inv s \<Longrightarrow> held s b i \<Longrightarrow> kpost (wr i) (put i v s) (\<lambda>_ t. inv t \<and> con t = (con s)(b := v) \<and>
      dsk t = (dsk s)(unat b := v) \<and> tr t = tr s @ [(unat b, v)] \<and> rest t = rest s \<and> pins t = pins s \<and>
      (\<forall>c j. held s c j \<longrightarrow> held t c j))"
    and rel_spec: "inv s \<Longrightarrow> held s b i \<Longrightarrow> kpost (rel i) s (\<lambda>_ t. inv t \<and> con t = con s \<and> dsk t = dsk s \<and>
      tr t = tr s \<and> rest t = rest s \<and> pins t = (pins s)(i := pins s i - 1) \<and>
      (\<forall>c j. held s c j \<longrightarrow> j \<noteq> i \<longrightarrow> held t c j))"
begin

text \<open>From a state where no reference count is about to wrap, block \<open>b\<close> has been overwritten with \<open>v\<close>.\<close>

definition quiet :: "'s \<Rightarrow> bool" where
  "quiet s \<longleftrightarrow> inv s \<and> (\<forall>i. pins s i \<noteq> - 1)"

definition wrote :: "'s \<Rightarrow> (nat \<Rightarrow> block) \<Rightarrow> (u32 \<Rightarrow> block) \<Rightarrow> (nat \<times> block) list \<Rightarrow> 'm \<Rightarrow>
    (nat \<Rightarrow> u32) \<Rightarrow> bool" where
  "wrote t d c w m p \<longleftrightarrow> quiet t \<and> dsk t = d \<and> con t = c \<and> tr t = w \<and> rest t = m \<and> pins t = p"

lemma two_reads:
  assumes "quiet s" "a \<noteq> b"
  shows "kpost (rd a) s (\<lambda>i t. kpost (rd b) t (\<lambda>j u. inv u \<and> i \<noteq> j \<and> held u a i \<and> held u b j \<and> con u = con s \<and>
    dsk u = dsk s \<and> tr u = tr s \<and> rest u = rest s \<and> pins u = (pins s)(i := pins s i + 1, j := pins s j + 1)))"
proof (rule kpost_mono[OF rd_spec], goal_cases)
  case 1
  then show ?case
    using assms by (simp add: quiet_def)
next
  case (2 i t)
  then have i: "held t a i"
    using assms by (simp add: quiet_def)
  show ?case
  proof (rule kpost_mono[OF rd_spec], goal_cases)
    case (2 j u)
    with i assms(2) have "j \<noteq> i" "held u a i"
      by blast+
    then show ?case
      using 2 \<open>inv t \<and> _\<close> assms(1) by (auto simp: quiet_def)
  qed (use 2 in simp)
qed

lemma copy_to_second:
  assumes "quiet s" "a \<noteq> b"
  shows "kpost (kbind (rd a) (\<lambda>i. kbind (rd b) (\<lambda>j. kseq [kmodify (\<lambda>s. put j (dat s i) s), wr j, rel i, rel j]))) s
    (\<lambda>_ t. wrote t ((dsk s)(unat b := con s a)) ((con s)(b := con s a)) (tr s @ [(unat b, con s a)]) (rest s) (pins s))"
  unfolding kpost_simps
proof (rule kpost_mono, rule kpost_mono[OF two_reads[OF assms]], assumption, rule kpost_mono, assumption, goal_cases)
  case (1 i t j u)
  then have 1: "inv u" "i \<noteq> j" "held u a i" "held u b j" "con u = con s" "dsk u = dsk s" "tr u = tr s" "rest u = rest s"
      "pins u = (pins s)(i := pins s i + 1, j := pins s j + 1)"
    by blast+
  have "dat u i = con s a"
    using 1 held_dat by metis
  show ?case
    unfolding kpost_simps \<open>dat u i = con s a\<close>
  proof (rule kpost_mono[OF wr_spec[OF 1(1,4)]], rule kpost_mono[OF rel_spec], goal_cases)
    case (3 x v y w)
    show ?case
      by (rule kpost_mono[OF rel_spec[where b = b]]) (use 1 3 assms(1) in \<open>auto simp: wrote_def quiet_def\<close>)
  qed (use 1 in blast)+
qed

lemma copy_to_first:
  assumes "quiet s" "a \<noteq> b"
  shows "kpost (kbind (rd a) (\<lambda>i. kbind (rd b) (\<lambda>j. kseq [kmodify (\<lambda>s. put i (dat s j) s), wr i, rel j, rel i]))) s
    (\<lambda>_ t. wrote t ((dsk s)(unat a := con s b)) ((con s)(a := con s b)) (tr s @ [(unat a, con s b)]) (rest s) (pins s))"
  unfolding kpost_simps
proof (rule kpost_mono, rule kpost_mono[OF two_reads[OF assms]], assumption, rule kpost_mono, assumption, goal_cases)
  case (1 i t j u)
  then have 1: "inv u" "i \<noteq> j" "held u a i" "held u b j" "con u = con s" "dsk u = dsk s" "tr u = tr s" "rest u = rest s"
      "pins u = (pins s)(i := pins s i + 1, j := pins s j + 1)"
    by blast+
  have "dat u j = con s b"
    using 1 held_dat by metis
  show ?case
    unfolding kpost_simps \<open>dat u j = con s b\<close>
  proof (rule kpost_mono[OF wr_spec[OF 1(1,3)]], rule kpost_mono[OF rel_spec], goal_cases)
    case (3 x v y w)
    show ?case
      by (rule kpost_mono[OF rel_spec[where b = a]]) (use 1 3 assms(1) in \<open>auto simp: wrote_def quiet_def\<close>)
  qed (use 1 in blast)+
qed

lemma read_modify_write:
  assumes "quiet s"
  shows "kpost (kbind (rd a) (\<lambda>i. kseq [kmodify (\<lambda>s. put i (g (dat s i)) s), wr i, rel i])) s
    (\<lambda>_ t. wrote t ((dsk s)(unat a := g (con s a))) ((con s)(a := g (con s a))) (tr s @ [(unat a, g (con s a))]) (rest s) (pins s))"
  unfolding kpost_simps
proof (rule kpost_mono[OF rd_spec], goal_cases)
  case (2 i u)
  then have 1: "inv u" "held u a i" "dat u i = con s a"
    using assms held_dat[of u a i] by (auto simp: quiet_def)
  show ?case
    unfolding 1(3)
  proof (rule kpost_mono[OF wr_spec[OF 1(1,2)]], goal_cases)
    case (1 x v)
    show ?case
      by (rule kpost_mono[OF rel_spec[where b = a]]) (use 1 2 assms \<open>held u a i\<close> in \<open>auto simp: wrote_def quiet_def\<close>)
  qed
qed (use assms in \<open>simp add: quiet_def\<close>)

lemma read_only:
  assumes "quiet s"
  shows "kpost (kbind (rd a) (\<lambda>i. kbind (kgets (\<lambda>s. dat s i)) (\<lambda>d. kbind (rel i) (\<lambda>_. kret d)))) s
    (\<lambda>d t. d = con s a \<and> wrote t (dsk s) (con s) (tr s) (rest s) (pins s))"
  unfolding kpost_simps
proof (rule kpost_mono[OF rd_spec], goal_cases)
  case (2 i u)
  then have 1: "inv u" "held u a i" "dat u i = con s a"
    using assms held_dat[of u a i] by (auto simp: quiet_def)
  show ?case
    unfolding 1(3) by (rule kpost_mono[OF rel_spec[OF 1(1,2)]]) (use 2 assms in \<open>auto simp: wrote_def quiet_def\<close>)
qed (use assms in \<open>simp add: quiet_def\<close>)

lemma copy_loop:
  assumes "\<And>i s'. i < k \<Longrightarrow> quiet s' \<Longrightarrow> rest s' = rest s \<Longrightarrow> kpost (copy i) s'
      (\<lambda>_ t. wrote t ((dsk s')(unat (to i) := con s' (from i))) ((con s')(to i := con s' (from i)))
        (tr s' @ [(unat (to i), con s' (from i))]) (rest s') (pins s'))"
    and "\<And>i j. i < k \<Longrightarrow> j < k \<Longrightarrow> to i \<noteq> from j" and "quiet s"
  shows "kpost (kseq (map copy [0..<k])) s
    (\<lambda>_ t. wrote t (store_all (dsk s) (map (\<lambda>i. (unat (to i), con s (from i))) [0..<k]))
      (store_all (con s) (map (\<lambda>i. (to i, con s (from i))) [0..<k]))
      (tr s @ map (\<lambda>i. (unat (to i), con s (from i))) [0..<k]) (rest s) (pins s))"
  using assms
proof (induction k)
  case 0
  then show ?case
    by (simp add: kpost_def wrote_def)
next
  case (Suc k)
  let ?c = "store_all (con s) (map (\<lambda>i. (to i, con s (from i))) [0..<k])"
  have c: "?c (from k) = con s (from k)"
  proof (rule store_all_other)
    have "to i \<noteq> from k" if "i < k" for i
      using Suc.prems(2)[of i k] that by simp
    then show "from k \<notin> fst ` set (map (\<lambda>i. (to i, con s (from i))) [0..<k])"
      by force
  qed
  have upt: "[0..<Suc k] = [0..<k] @ [k]"
    by simp
  have "kpost (kseq (map copy [0..<k])) s (\<lambda>_ t. wrote t (store_all (dsk s) (map (\<lambda>i. (unat (to i), con s (from i))) [0..<k]))
      ?c (tr s @ map (\<lambda>i. (unat (to i), con s (from i))) [0..<k]) (rest s) (pins s))"
    using Suc.prems by (intro Suc.IH) simp_all
  then show ?case
    unfolding upt map_append list.map kpost_append kpost_simps
  proof (rule kpost_mono, goal_cases)
    case (1 x t)
    show ?case
      by (rule kpost_mono[OF Suc.prems(1)]) (use 1 c in \<open>auto simp: wrote_def store_all_append\<close>)
  qed
qed

end

text \<open>The buffer cache over the memory disk keeps these promises.\<close>

definition held :: "'x bio_state_scheme \<Rightarrow> u32 \<Rightarrow> nat \<Rightarrow> bool" where
  "held s b i \<longleftrightarrow> i < NBUF \<and> holds (bufs s) b i \<and> refcnt (bufs s ! i) \<noteq> 0"

definition pins :: "'x bio_state_scheme \<Rightarrow> nat \<Rightarrow> u32" where
  "pins s i = (if i < NBUF then refcnt (bufs s ! i) else 0)"

definition put_buf :: "nat \<Rightarrow> block \<Rightarrow> 'x bio_state_scheme \<Rightarrow> 'x bio_state_scheme" where
  "put_buf i v = upd_buf i (\<lambda>x. x\<lparr>bdata := v\<rparr>)"

definition contents :: "'x bio_state_scheme \<Rightarrow> u32 \<Rightarrow> block" where
  "contents s = content s"

lemma cache_inv_parts:
  "cache_inv s \<Longrightarrow> cache_ok (bufs s) \<and> coherent (bufs s) (memdisk s) \<and> length (bufs s) = Suc NBUF \<and> unique_blocks (bufs s)"
  using cache_ok_length by (auto simp: cache_inv_def cache_ok_def)

lemma bread_held:
  assumes "cache_inv s"
  shows "kpost (bread 1 b) s (\<lambda>i t. cache_inv t \<and> contents t = contents s \<and> memdisk t = memdisk s \<and>
    writes t = writes s \<and> bio_state.more t = bio_state.more s \<and> pins t = (pins s)(i := pins s i + 1) \<and>
    (pins s i \<noteq> - 1 \<longrightarrow> held t b i) \<and> (\<forall>c j. held s c j \<longrightarrow> c \<noteq> b \<longrightarrow> j \<noteq> i \<and> held t c j))"
proof (rule kpostI)
  fix i t assume run: "bread 1 b s = Inr (i, t)"
  obtain y where y: "bread_rel (bufs s) (memdisk s) b i y"
    and d: "disk_view t = ((bufs s)[i := y], memdisk s, disksize s, writes s, bio_state.more s)"
    using kpostD[OF bread_spec[OF assms] run] by blast
  have t: "bufs t = (bufs s)[i := y]" "bio_state.more t = bio_state.more s" "i < length (bufs s)"
    using d y cache_inv_parts[OF assms] by (simp_all add: disk_view_def bread_rel_def)
  have i: "i < NBUF" "refcnt y = refcnt (bufs s ! i) + 1"
    "bdev (bufs s ! i) = 1 \<and> blockno (bufs s ! i) = b \<or> refcnt (bufs s ! i) = 0"
    using y by (auto simp: bread_rel_def)
  have p: "pins t = (pins s)(i := pins s i + 1)"
    using i t by (auto simp: pins_def fun_eq_iff nth_list_update)
  have h: "pins s i \<noteq> - 1 \<longrightarrow> held t b i"
    using bread_inv[OF assms run] i t(1,3) by (simp add: held_def pins_def) (metis add_eq_0_iff minus_minus)
  have "\<forall>c j. held s c j \<longrightarrow> c \<noteq> b \<longrightarrow> j \<noteq> i"
    using i(3) by (auto simp: held_def holds_def)
  moreover have "j \<noteq> i \<Longrightarrow> held t c j = held s c j" for c j
    using t(1) by (simp add: held_def holds_def)
  ultimately show "cache_inv t \<and> contents t = contents s \<and> memdisk t = memdisk s \<and>
    writes t = writes s \<and> bio_state.more t = bio_state.more s \<and> pins t = (pins s)(i := pins s i + 1) \<and>
    (pins s i \<noteq> - 1 \<longrightarrow> held t b i) \<and> (\<forall>c j. held s c j \<longrightarrow> c \<noteq> b \<longrightarrow> j \<noteq> i \<and> held t c j)"
    unfolding contents_def using bread_inv[OF assms run] t(2) p h by blast
qed

lemma bwrite_held:
  assumes "cache_inv s" "held s b i"
  shows "kpost (bwrite i) (put_buf i v s) (\<lambda>_ t. cache_inv t \<and> contents t = (contents s)(b := v) \<and>
    memdisk t = (memdisk s)(unat b := v) \<and> writes t = writes s @ [(unat b, v)] \<and>
    bio_state.more t = bio_state.more s \<and> pins t = pins s \<and> (\<forall>c j. held s c j \<longrightarrow> held t c j))"
proof (rule kpostI)
  fix x t assume run: "bwrite i (put_buf i v s) = Inr (x, t)"
  have i: "i < NBUF" "holds (bufs s) b i" "i < length (bufs s)"
    using assms(2) cache_inv_parts[OF assms(1)] by (auto simp: held_def)
  let ?y = "(bufs s ! i)\<lparr>bdata := v, bflags := (bflags (bufs s ! i) OR B_DIRTY) AND NOT B_DIRTY OR B_VALID\<rparr>"
  have "i < length (bufs (put_buf i v s))"
    using i by (simp add: put_buf_def upd_buf_def)
  from kpostD[OF bwrite_spec[OF this] run] have t: "bufs t = (bufs s)[i := ?y]" "bio_state.more t = bio_state.more s"
    using i by (simp_all add: put_buf_def upd_buf_def disk_view_def)
  have y: "valid ?y" "refcnt ?y = refcnt (bufs s ! i)" "blockno ?y = blockno (bufs s ! i)" "bdev ?y = bdev (bufs s ! i)"
    using flag_bits(4)[of "bflags (bufs s ! i) OR B_DIRTY"] by (simp_all add: valid_def)
  have p: "pins t = pins s"
    using t(1) i(3) y by (auto simp: pins_def fun_eq_iff nth_list_update)
  have h: "held s c j \<longrightarrow> held t c j" for c j
    using t(1) i(3) y by (cases "j = i") (simp_all add: held_def holds_def)
  show "cache_inv t \<and> contents t = (contents s)(b := v) \<and> memdisk t = (memdisk s)(unat b := v) \<and>
    writes t = writes s @ [(unat b, v)] \<and> bio_state.more t = bio_state.more s \<and> pins t = pins s \<and>
    (\<forall>c j. held s c j \<longrightarrow> held t c j)"
    unfolding contents_def using bwrite_inv[OF assms(1) i(1,2) run[unfolded put_buf_def]] t(2) p h by blast
qed

lemma brelse_held:
  assumes "cache_inv s" "held s b i"
  shows "kpost (brelse i) s (\<lambda>_ t. cache_inv t \<and> contents t = contents s \<and> memdisk t = memdisk s \<and>
    writes t = writes s \<and> bio_state.more t = bio_state.more s \<and> pins t = (pins s)(i := pins s i - 1) \<and>
    (\<forall>c j. held s c j \<longrightarrow> j \<noteq> i \<longrightarrow> held t c j))"
proof (rule kpostI)
  fix x t assume run: "brelse i s = Inr (x, t)"
  have i: "i < NBUF" and ok: "cache_ok (bufs s)" and len: "length (bufs s) = Suc NBUF"
    using assms(2) cache_inv_parts[OF assms(1)] by (auto simp: held_def)
  let ?y = "(bufs s ! i)\<lparr>refcnt := refcnt (bufs s ! i) - 1\<rparr>"
  obtain bs' where bs': "map payload bs' = map payload ((bufs s)[i := ?y])"
    and d: "disk_view t = (bs', memdisk s, disksize s, writes s, bio_state.more s)"
    using kpostD[OF brelse_spec[OF ok i] run] by blast
  have t: "bufs t = bs'" "bio_state.more t = bio_state.more s"
    using d by (simp_all add: disk_view_def)
  have "length bs' = Suc NBUF"
    using map_eq_imp_length_eq[OF bs'] len by simp
  then have "payload (bs' ! j) = payload (if j = i then ?y else bufs s ! j)" if "j < NBUF" for j
    using payload_nth[OF bs', of j] that len i by (simp add: nth_list_update)
  then have q: "refcnt (bs' ! j) = (if j = i then refcnt (bufs s ! i) - 1 else refcnt (bufs s ! j))"
      "holds bs' c j = holds (bufs s) c j" if "j < NBUF" for j c
    using that by (auto simp: payload_def holds_def valid_def split: if_splits)
  have "pins t = (pins s)(i := pins s i - 1)"
    using q i by (auto simp: pins_def t fun_eq_iff)
  moreover have "held s c j \<longrightarrow> j \<noteq> i \<longrightarrow> held t c j" for c j
    using q by (simp add: held_def t)
  ultimately show "cache_inv t \<and> contents t = contents s \<and> memdisk t = memdisk s \<and>
    writes t = writes s \<and> bio_state.more t = bio_state.more s \<and> pins t = (pins s)(i := pins s i - 1) \<and>
    (\<forall>c j. held s c j \<longrightarrow> j \<noteq> i \<longrightarrow> held t c j)"
    unfolding contents_def using brelse_inv[OF assms(1) i run] t(2) by blast
qed

interpretation cache: write_through_cache "bread 1" bwrite brelse "\<lambda>s i. bdata (bufs s ! i)" put_buf cache_inv
    contents memdisk writes held pins bio_state.more
proof (unfold_locales, goal_cases)
  case 1
  then show ?case
    by (simp add: held_def holds_def)
next
  case (2 s b i)
  then show ?case
    using cache_inv_parts[of s] content_holds[of "bufs s" i b "memdisk s"] by (simp add: held_def contents_def)
next
  case 3
  then show ?case
    by (rule bread_held)
next
  case 4
  then show ?case
    by (rule bwrite_held)
next
  case 5
  then show ?case
    by (rule brelse_held)
qed

end
