(* ===== verification/Crash.thy ===== *)
theory Crash
  imports Log Bcache
begin

unbundle bit_operations_syntax

text \<open>
  The redo log makes a transaction atomic.  The routines of \<open>src/log.c\<close> are specified over the interface
  of the buffer cache; a commit is a fixed sequence of block writes; whatever prefix of it reached the disk,
  recovery yields the disk before the transaction or the disk after it.
\<close>

section \<open>The routines of the log over the cache\<close>

abbreviation (input) quiet :: "'x bio_state_scheme \<Rightarrow> bool" where
  "quiet \<equiv> cache.quiet"

definition log_block :: "'x log_state_scheme \<Rightarrow> nat \<Rightarrow> u32" where
  "log_block s i = log_start s + of_nat i + 1"

definition homes :: "'x log_state_scheme \<Rightarrow> u32 list" where
  "homes s = take (nat (lh_n s)) (lh_block s)"

text \<open>
  A log ready for a commit or an installation: the header fits, and no home block is one of the blocks
  of the log, the header at \<open>log_start\<close> included.
\<close>

definition in_log :: "'x log_state_scheme \<Rightarrow> nat \<Rightarrow> bool" where
  "in_log s b \<longleftrightarrow> unat (log_start s) \<le> b \<and> b \<le> unat (log_start s) + 30"

definition log_ok :: "'x log_state_scheme \<Rightarrow> bool" where
  "log_ok s \<longleftrightarrow> log_dev s = 1 \<and> 0 \<le> lh_n s \<and> lh_n s \<le> LOGSIZE \<and> length (lh_block s) = nat LOGSIZE \<and>
     unat (log_start s) + 30 < 2 ^ 32 \<and> list_all (\<lambda>h. \<not> in_log s (unat h)) (homes s)"

lemma same_log:
  assumes "bio_state.more t = bio_state.more s"
  shows "log_start t = log_start s" "log_dev t = log_dev s" "lh_n t = lh_n s" "lh_block t = lh_block s"
    "log_block t i = log_block s i" "homes t = homes s" "in_log t b = in_log s b" "log_ok t = log_ok s"
proof -
  show *: "log_start t = log_start s" "log_dev t = log_dev s" "lh_n t = lh_n s" "lh_block t = lh_block s"
    using assms by (cases s; cases t; simp)+
  then show "log_block t i = log_block s i" "homes t = homes s"
    by (simp_all add: log_block_def homes_def)
  with * show "in_log t b = in_log s b" "log_ok t = log_ok s"
    by (simp_all add: in_log_def log_ok_def)
qed

lemma unat_log_block: "log_ok s \<Longrightarrow> i < 30 \<Longrightarrow> unat (log_block s i) = unat (log_start s) + i + 1"
  by (simp add: log_ok_def log_block_def unat_word_ariths unat_of_nat)

lemma homes_nth: "log_ok s \<Longrightarrow> length (homes s) = nat (lh_n s)"
    "log_ok s \<Longrightarrow> i < nat (lh_n s) \<Longrightarrow> homes s ! i = lh_block s ! i \<and> \<not> in_log s (unat (homes s ! i))"
  by (auto simp: log_ok_def homes_def list_all_length)

lemma home_apart:
  assumes "log_ok s" "i < 30" "j < nat (lh_n s)"
  shows "log_block s i \<noteq> homes s ! j" "log_start s \<noteq> homes s ! j"
  using homes_nth(2)[OF assms(1,3)] unat_log_block[OF assms(1,2)] assms(2) by (auto simp: in_log_def)

lemma install_block_spec:
  assumes "quiet s" "log_ok s" "i < nat (lh_n s)"
  shows "kpost (install_block i) s (\<lambda>_ t. cache.wrote t
    ((memdisk s)(unat (homes s ! i) := contents s (log_block s i))) ((contents s)(homes s ! i := contents s (log_block s i)))
    (writes s @ [(unat (homes s ! i), contents s (log_block s i))]) (bio_state.more s) (pins s))"
proof -
  have "i < 30" "log_dev s = 1" "lh_block s ! i = homes s ! i"
    using assms(2,3) homes_nth(2)[of s i] by (auto simp: log_ok_def)
  then show ?thesis
    using cache.copy_to_second[OF assms(1), of "log_block s i" "homes s ! i"] home_apart(1)[OF assms(2) _ assms(3), of i]
    by (simp add: install_block_def kpost_simp log_block_def put_buf_def)
qed

lemma write_log_block_spec:
  assumes "quiet s" "log_ok s" "i < nat (lh_n s)"
  shows "kpost (write_log_block i) s (\<lambda>_ t. cache.wrote t
    ((memdisk s)(unat (log_block s i) := contents s (homes s ! i))) ((contents s)(log_block s i := contents s (homes s ! i)))
    (writes s @ [(unat (log_block s i), contents s (homes s ! i))]) (bio_state.more s) (pins s))"
proof -
  have "i < 30" "log_dev s = 1" "lh_block s ! i = homes s ! i"
    using assms(2,3) homes_nth(2)[of s i] by (auto simp: log_ok_def)
  then show ?thesis
    using cache.copy_to_first[OF assms(1), of "log_block s i" "homes s ! i"] home_apart(1)[OF assms(2) _ assms(3), of i]
    by (simp add: write_log_block_def kpost_simp log_block_def put_buf_def)
qed

definition head_with :: "block \<Rightarrow> int \<Rightarrow> u32 list \<Rightarrow> block" where
  "head_with d n bs = put_head (put32 d 0 (of_int n)) bs 4"

lemma write_head_spec:
  fixes s :: "'x log_state_scheme"
  assumes "quiet s" "log_dev s = 1"
  defines "h \<equiv> head_with (contents s (log_start s)) (lh_n s) (homes s)"
  shows "kpost write_head s (\<lambda>_ t. cache.wrote t ((memdisk s)(unat (log_start s) := h)) ((contents s)(log_start s := h))
    (writes s @ [(unat (log_start s), h)]) (bio_state.more s) (pins s))"
proof -
  let ?g = "\<lambda>d. head_with d (lh_n s) (homes s)"
  have "bufset (\<lambda>x. x\<lparr>bdata := ?g (bdata x)\<rparr>) i =
      (kmodify (\<lambda>s. put_buf i (?g (bdata (bufs s ! i))) s) :: ('x log_state_scheme, unit) kernel)" for i
    by (rule ext) (simp add: bufset_def put_buf_def upd_buf_def)
  then have "write_head s = kbind (bread 1 (log_start s)) (\<lambda>i. kseq
      [kmodify (\<lambda>s. put_buf i (?g (bdata (bufs s ! i))) s), bwrite i, brelse i]) s"
    using assms(2) by (simp only: write_head_def kbind_run kgets_run prod.case homes_def head_with_def)
  then show ?thesis
    using cache.read_modify_write[OF assms(1), of "log_start s" ?g] by (simp only: kpost_def h_def)
qed

lemma log_ok_less: "log_ok s \<Longrightarrow> i < nat (lh_n s) \<Longrightarrow> i < 30"
  by (auto simp: log_ok_def)

lemma write_log_spec:
  fixes s :: "'x log_state_scheme"
  assumes "quiet s" "log_ok s"
  defines "n \<equiv> nat (lh_n s)"
  shows "kpost write_log s (\<lambda>_ t. cache.wrote t
    (store_all (memdisk s) (map (\<lambda>i. (unat (log_block s i), contents s (homes s ! i))) [0..<n]))
    (store_all (contents s) (map (\<lambda>i. (log_block s i, contents s (homes s ! i))) [0..<n]))
    (writes s @ map (\<lambda>i. (unat (log_block s i), contents s (homes s ! i))) [0..<n]) (bio_state.more s) (pins s))"
  unfolding write_log_def kpost_simps n_def
proof (rule cache.copy_loop)
  fix i :: nat and u :: "'x log_state_scheme"
  assume "i < nat (lh_n s)" "quiet u" and m: "bio_state.more u = bio_state.more s"
  then have "i < nat (lh_n u)" "log_ok u"
    using assms(2) same_log[OF m] by simp_all
  from write_log_block_spec[OF \<open>quiet u\<close> this(2,1)]
  show "kpost (write_log_block i) u (\<lambda>_ t. cache.wrote t
      ((memdisk u)(unat (log_block s i) := contents u (homes s ! i))) ((contents u)(log_block s i := contents u (homes s ! i)))
      (writes u @ [(unat (log_block s i), contents u (homes s ! i))]) (bio_state.more u) (pins u))"
    unfolding same_log[OF m] .
next
  fix i j assume "i < nat (lh_n s)" "j < nat (lh_n s)"
  then show "log_block s i \<noteq> homes s ! j"
    using home_apart(1)[OF assms(2)] log_ok_less[OF assms(2)] by blast
qed (rule assms(1))

lemma install_trans_spec:
  fixes s :: "'x log_state_scheme"
  assumes "quiet s" "log_ok s"
  defines "n \<equiv> nat (lh_n s)"
  shows "kpost install_trans s (\<lambda>_ t. cache.wrote t
    (store_all (memdisk s) (map (\<lambda>i. (unat (homes s ! i), contents s (log_block s i))) [0..<n]))
    (store_all (contents s) (map (\<lambda>i. (homes s ! i, contents s (log_block s i))) [0..<n]))
    (writes s @ map (\<lambda>i. (unat (homes s ! i), contents s (log_block s i))) [0..<n]) (bio_state.more s) (pins s))"
  unfolding install_trans_def kpost_simps n_def
proof (rule cache.copy_loop)
  fix i :: nat and u :: "'x log_state_scheme"
  assume "i < nat (lh_n s)" "quiet u" and m: "bio_state.more u = bio_state.more s"
  then have "i < nat (lh_n u)" "log_ok u"
    using assms(2) same_log[OF m] by simp_all
  from install_block_spec[OF \<open>quiet u\<close> this(2,1)]
  show "kpost (install_block i) u (\<lambda>_ t. cache.wrote t
      ((memdisk u)(unat (homes s ! i) := contents u (log_block s i))) ((contents u)(homes s ! i := contents u (log_block s i)))
      (writes u @ [(unat (homes s ! i), contents u (log_block s i))]) (bio_state.more u) (pins u))"
    unfolding same_log[OF m] .
next
  fix i j assume "i < nat (lh_n s)" "j < nat (lh_n s)"
  then show "homes s ! i \<noteq> log_block s j"
    using home_apart(1)[OF assms(2)] log_ok_less[OF assms(2)] by metis
qed (rule assms(1))

text \<open>The blocks a commit writes: the log, the header, the home blocks, the empty header.\<close>

definition log_part :: "'x log_state_scheme \<Rightarrow> (nat \<times> block) list" where
  "log_part s = map (\<lambda>i. (unat (log_block s i), contents s (homes s ! i))) [0..<nat (lh_n s)]"

definition home_part :: "'x log_state_scheme \<Rightarrow> (nat \<times> block) list" where
  "home_part s = map (\<lambda>i. (unat (homes s ! i), contents s (homes s ! i))) [0..<nat (lh_n s)]"

definition full_head :: "'x log_state_scheme \<Rightarrow> block" where
  "full_head s = head_with (contents s (log_start s)) (lh_n s) (homes s)"

definition commit_trace :: "'x log_state_scheme \<Rightarrow> (nat \<times> block) list" where
  "commit_trace s = (if lh_n s > 0 then log_part s @ (unat (log_start s), full_head s) #
     home_part s @ [(unat (log_start s), head_with (full_head s) 0 [])] else [])"

lemma log_contents:
  assumes "log_ok s"
  defines "c \<equiv> store_all (contents s) (map (\<lambda>i. (log_block s i, contents s (homes s ! i))) [0..<nat (lh_n s)])"
  shows "c (log_start s) = contents s (log_start s)"
    and "i < nat (lh_n s) \<Longrightarrow> c (log_block s i) = contents s (homes s ! i)"
proof -
  have b: "unat (log_block s j) = unat (log_start s) + j + 1" if "j < nat (lh_n s)" for j
    using that log_ok_less[OF assms(1)] unat_log_block[OF assms(1)] by blast
  then have "log_block s j \<noteq> log_start s" if "j < nat (lh_n s)" for j
    using that by (metis add_Suc_right add_0_right less_add_same_cancel1 less_irrefl zero_less_Suc Suc_eq_plus1)
  then show "c (log_start s) = contents s (log_start s)"
    unfolding c_def by (intro store_all_other) force
  let ?g = "\<lambda>x. contents s (homes s ! (unat x - unat (log_start s) - 1))"
  have "\<forall>(x, v) \<in> set (map (\<lambda>i. (log_block s i, contents s (homes s ! i))) [0..<nat (lh_n s)]). v = ?g x"
    using b by auto
  from store_all_fun[OF this] show "c (log_block s i) = contents s (homes s ! i)" if "i < nat (lh_n s)"
    using that b[OF that] unfolding c_def by (auto simp: image_iff)
qed

lemma quiet_update: "quiet (s\<lparr>lh_n := n\<rparr>) = quiet s" "quiet (s\<lparr>lh_block := bs\<rparr>) = quiet s"
  for s :: "'x log_state_scheme"
  by (simp_all add: cache.quiet_def cache_inv_def pins_def)

lemma contents_update: "contents (s\<lparr>lh_n := n\<rparr>) = contents s" "contents (s\<lparr>lh_block := bs\<rparr>) = contents s"
  for s :: "'x log_state_scheme"
  by (simp_all add: contents_def)

lemma more_lh_n: "bio_state.more t = bio_state.more s \<Longrightarrow> bio_state.more (t\<lparr>lh_n := n\<rparr>) = bio_state.more (s\<lparr>lh_n := n\<rparr>)"
  for s t :: "'x log_state_scheme"
  by (cases s; cases t) simp

lemma wroteD:
  "cache.wrote t d c w m p \<Longrightarrow> quiet t \<and> memdisk t = d \<and> contents t = c \<and> writes t = w \<and> bio_state.more t = m \<and> pins t = p"
  by (simp add: cache.wrote_def)

lemma commit_spec:
  fixes s :: "'x log_state_scheme"
  assumes "quiet s" "log_ok s"
  shows "kpost commit s (\<lambda>_ t. quiet t \<and> memdisk t = store_all (memdisk s) (commit_trace s) \<and>
    writes t = writes s @ commit_trace s \<and> bio_state.more t = bio_state.more (s\<lparr>lh_n := 0\<rparr>))"
proof (cases "lh_n s > 0")
  case False
  then have "s\<lparr>lh_n := 0\<rparr> = s"
    using assms(2) by (simp add: log_ok_def)
  then show ?thesis
    using False assms(1) by (simp add: commit_def kpost_simps commit_trace_def)
next
  case True
  have dev: "log_dev s = 1"
    using assms(2) by (simp add: log_ok_def)
  have st: "log_start s \<noteq> homes s ! i" if "i < nat (lh_n s)" for i
    using home_apart(2)[OF assms(2) _ that, of 0] by simp
  show ?thesis
    unfolding commit_def kpost_simps if_P[OF True]
  proof (rule kpost_mono[OF write_log_spec[OF assms]], goal_cases)
    case (1 x1 u1)
    note u1 = wroteD[OF 1, folded log_part_def] and m1 = same_log[of u1 s]
    show ?case
    proof (rule kpost_mono[OF write_head_spec], goal_cases)
      case (3 x2 u2)
      have c1: "contents u1 (log_start u1) = contents s (log_start s)"
          "i < nat (lh_n s) \<Longrightarrow> contents u1 (log_block s i) = contents s (homes s ! i)" for i
        using log_contents[OF assms(2)] u1 m1 by simp_all
      have h: "head_with (contents u1 (log_start u1)) (lh_n u1) (homes u1) = full_head s"
        using c1 u1 m1 by (simp add: full_head_def)
      note u2 = wroteD[OF 3[unfolded h]] and m2 = same_log[of u2 s]
      have more2: "bio_state.more u2 = bio_state.more s"
        using u1 u2 by simp
      then have c2: "i < nat (lh_n s) \<Longrightarrow> contents u2 (log_block s i) = contents s (homes s ! i)" for i
        using u2 c1 u1 m1 log_ok_less[OF assms(2), of i] unat_log_block[OF assms(2), of i] by auto
      show ?case
      proof (rule kpost_mono[OF install_trans_spec], goal_cases)
        case (3 x3 u3)
        have "map (\<lambda>i. (unat (homes u2 ! i), contents u2 (log_block u2 i))) [0..<nat (lh_n u2)] = home_part s"
          using c2 more2 m2 by (auto simp: home_part_def)
        note u3 = wroteD[OF 3[unfolded this]]
        have more3: "bio_state.more u3 = bio_state.more s"
          using more2 u3 by simp
        have "contents u3 (log_start s) = contents u2 (log_start s)"
          using u3 more2 m2 st by (force intro!: store_all_other)
        then have c3: "contents u3 (log_start s) = full_head s"
          using u2 u1 m1 by simp
        let ?u = "u3\<lparr>lh_n := 0\<rparr>"
        have "log_start ?u = log_start s" "lh_n ?u = 0" "homes ?u = []" "log_dev ?u = 1"
          using same_log[OF more3] dev by (simp_all add: homes_def)
        then show ?case
          using write_head_spec[of ?u] u3 u2 u1 c3 more_lh_n[OF more3, of 0] same_log(1)[of u1 s] True
          by (auto simp: quiet_update contents_update commit_trace_def store_all_append elim!: kpost_mono dest!: wroteD)
      qed (use u2 more2 m2 assms(2) in auto)
    qed (use u1 m1 dev in auto)
  qed
qed

section \<open>Recovery\<close>

text \<open>The header of the log as \<open>read_head\<close> understands it.\<close>

definition head_count :: "block \<Rightarrow> int" where
  "head_count d = sint (get32 d 0)"

definition head_homes :: "block \<Rightarrow> u32 list" where
  "head_homes d = map (\<lambda>i. get32 d (4 + 4 * i)) [0..<nat (head_count d)]"

definition with_head :: "block \<Rightarrow> 'x log_state_scheme \<Rightarrow> 'x log_state_scheme" where
  "with_head d s = s\<lparr>lh_n := head_count d, lh_block := head_homes d @ drop (nat (head_count d)) (lh_block s)\<rparr>"

lemma with_head_view [simp]:
  "cache_inv (with_head d s) = cache_inv s" "contents (with_head d s) = contents s" "memdisk (with_head d s) = memdisk s"
  "writes (with_head d s) = writes s" "pins (with_head d s) = pins s" "held (with_head d s) = held s"
  "log_start (with_head d s) = log_start s" "log_dev (with_head d s) = log_dev s"
  by (simp_all add: with_head_def cache_inv_def contents_def pins_def held_def fun_eq_iff)

lemma with_head_more: "bio_state.more t = bio_state.more s \<Longrightarrow> bio_state.more (with_head d t) = bio_state.more (with_head d s)"
  by (cases s; cases t) (simp add: with_head_def)

lemma with_head_homes:
  "0 \<le> head_count d \<Longrightarrow> head_count d \<le> 30 \<Longrightarrow> length (lh_block s) = 30 \<Longrightarrow>
    lh_n (with_head d s) = head_count d \<and> homes (with_head d s) = head_homes d \<and> length (lh_block (with_head d s)) = 30"
  by (simp add: with_head_def homes_def head_homes_def)

lemma kbind_kret: "kbind m kret = m"
  by (rule ext) (simp add: kbind_def split: sum.split)

lemma read_head_run:
  fixes s :: "'x log_state_scheme"
  assumes "log_dev s = 1"
  shows "read_head s = kbind (bread 1 (log_start s)) (\<lambda>i. \<lambda>u. let d = bdata (bufs u ! i) in
    (if head_count d > LOGSIZE then kstop Fault else kbind (kmodify (with_head d)) (\<lambda>_. brelse i)) u) s"
proof -
  have *: "kbind (bufget bdata i) (\<lambda>d. let n = sint (get32 d 0) in kbind (kmodify (\<lambda>s. s\<lparr>lh_n := n\<rparr>)) (\<lambda>_.
     if n > LOGSIZE then kstop Fault
     else kseq
      [kmodify (\<lambda>s. s\<lparr>lh_block := map (\<lambda>i. get32 d (4 + 4 * i)) [0..<nat n] @ drop (nat n) (lh_block s)\<rparr>),
       brelse i])) u = (let d = bdata (bufs u ! i) in
      (if head_count d > LOGSIZE then kstop Fault else kbind (kmodify (with_head d)) (\<lambda>_. brelse i)) u)"
    for i and u :: "'x log_state_scheme"
    by (simp add: bufget_def with_head_def head_count_def head_homes_def Let_def kbind_kret)
  show ?thesis
    unfolding read_head_def kbind_run(3) prod.case assms by (intro arg_cong[where f = "\<lambda>f. kbind (bread 1 (log_start s)) f s"] ext *)
qed

lemma read_head_spec:
  fixes s :: "'x log_state_scheme"
  assumes "quiet s" "log_dev s = 1"
  defines "d \<equiv> contents s (log_start s)"
  shows "kpost read_head s (\<lambda>_ t. cache.wrote t (memdisk s) (contents s) (writes s) (bio_state.more (with_head d s)) (pins s))"
proof -
  let ?m = "\<lambda>i u. let d = bdata (bufs u ! i) in
    (if head_count d > LOGSIZE then kstop Fault else kbind (kmodify (with_head d)) (\<lambda>_. brelse i)) u"
  note read_head_run[OF assms(2)]
  moreover have "kpost (kbind (bread 1 (log_start s)) ?m) s
      (\<lambda>_ t. cache.wrote t (memdisk s) (contents s) (writes s) (bio_state.more (with_head d s)) (pins s))"
    unfolding kpost_simp(5)
  proof (rule kpost_mono[OF cache.rd_spec], goal_cases)
    case (2 i u)
    then have h: "cache_inv u" "held u (log_start s) i"
      using assms(1) by (auto simp: cache.quiet_def)
    then have "bdata (bufs u ! i) = d"
      using 2 cache.held_dat[OF h] by (simp add: d_def)
    moreover have "kpost (brelse i) (with_head d u)
        (\<lambda>_ t. cache.wrote t (memdisk s) (contents s) (writes s) (bio_state.more (with_head d s)) (pins s))"
      by (rule kpost_mono[OF cache.rel_spec[where b = "log_start s"]])
        (use 2 h assms(1) with_head_more[of u s d] in \<open>auto simp: cache.wrote_def cache.quiet_def\<close>)
    ultimately show ?case
      by (simp add: kpost_def)
  qed (use assms(1) in \<open>simp add: cache.quiet_def\<close>)
  ultimately show ?thesis
    by (simp only: kpost_def)
qed

text \<open>What recovery makes of a disk: the blocks the header names are overwritten with their copies in the log.\<close>

definition recovered :: "nat \<Rightarrow> (nat \<Rightarrow> block) \<Rightarrow> nat \<Rightarrow> block" where
  "recovered st d = (let h = head_homes (d st) in
     (store_all d (map (\<lambda>i. (unat (h ! i), d (st + i + 1))) [0..<length h]))(st := head_with (d st) 0 []))"

text \<open>A machine just started on a disk: nothing is cached.\<close>

definition booted :: "(nat \<Rightarrow> block) \<Rightarrow> u32 \<Rightarrow> 'x log_state_scheme \<Rightarrow> bool" where
  "booted d st r \<longleftrightarrow> quiet r \<and> (\<forall>i<NBUF. bdev (bufs r ! i) = 0) \<and> memdisk r = d \<and> log_start r = st \<and>
     log_dev r = 1 \<and> length (lh_block r) = 30"

lemma booted_contents: "booted d st r \<Longrightarrow> contents r b = d (unat b)"
  unfolding contents_def booted_def by (subst content_none) (auto simp: holds_def)

lemma recover_spec:
  fixes r :: "'x log_state_scheme"
  assumes "booted d st r" "unat st + 30 < 2 ^ 32" "0 \<le> head_count (d (unat st))" "head_count (d (unat st)) \<le> 30"
    and "list_all (\<lambda>h. unat h < unat st \<or> unat st + 30 < unat h) (head_homes (d (unat st)))"
  shows "kpost recover_from_log r (\<lambda>_ t. quiet t \<and> memdisk t = recovered (unat st) d \<and> lh_n t = 0)"
proof -
  let ?h = "d (unat st)" and ?r = "with_head (d (unat st)) r"
  have r: "quiet r" "log_dev r = 1" "log_start r = st" "length (lh_block r) = 30" "memdisk r = d"
    using assms(1) by (simp_all add: booted_def)
  have con: "contents r = (\<lambda>b. d (unat b))"
    using booted_contents[OF assms(1)] by blast
  have wh: "lh_n ?r = head_count ?h" "homes ?r = head_homes ?h" "length (lh_block ?r) = 30"
    using with_head_homes[OF assms(3,4) r(4)] by simp_all
  have ok: "log_ok ?r"
    using assms(2-5) wh r by (auto simp: log_ok_def in_log_def list_all_iff)
  have len: "length (head_homes ?h) = nat (head_count ?h)"
    by (simp add: head_homes_def)
  have blk: "unat (log_block ?r i) = unat st + i + 1" if "i < nat (head_count ?h)" for i
    using unat_log_block[OF ok, of i] log_ok_less[OF ok, of i] that wh r by simp
  have st: "st \<noteq> head_homes ?h ! i" if "i < nat (head_count ?h)" for i
    using home_apart(2)[OF ok, of 0 i] that wh r by simp
  have part: "map (\<lambda>i. (unat (homes ?r ! i), contents r (log_block ?r i))) [0..<nat (lh_n ?r)] =
      map (\<lambda>i. (unat (head_homes ?h ! i), d (unat st + i + 1))) [0..<length (head_homes ?h)]"
    using blk by (simp add: wh con len)
  show ?thesis
    unfolding recover_from_log_def kpost_simps
  proof (rule kpost_mono[OF read_head_spec[OF r(1,2)]], goal_cases)
    case (1 x1 u1)
    note u1 = wroteD[OF 1, unfolded con r] and m1 = same_log[of u1 ?r]
    show ?case
    proof (rule kpost_mono[OF install_trans_spec], goal_cases)
      case (3 x2 u2)
      have more: "bio_state.more u1 = bio_state.more ?r"
        using u1 by simp
      note u2 = wroteD[OF 3[unfolded m1[OF more]]]
      have u2': "quiet u2" "memdisk u2 = store_all d (map (\<lambda>i. (unat (head_homes ?h ! i), d (unat st + i + 1))) [0..<length (head_homes ?h)])"
          "bio_state.more u2 = bio_state.more ?r"
        using u2 u1 part more con by simp_all
      have c2: "contents u2 st = ?h"
      proof -
        have "contents u2 st = contents u1 st"
          using u2 st wh by (force intro!: store_all_other)
        then show ?thesis
          using u1 by simp
      qed
      let ?u = "u2\<lparr>lh_n := 0\<rparr>"
      have u: "log_start ?u = st" "homes ?u = []" "log_dev ?u = 1"
        using same_log[OF u2'(3)] r by (simp_all add: homes_def)
      show ?case
        by (rule kpost_mono[OF write_head_spec[of ?u]])
          (use u u2'(1,2) c2 in \<open>auto simp: quiet_update contents_update recovered_def Let_def dest!: wroteD same_log(3)\<close>)
    qed (use u1 m1 ok in auto)
  qed
qed

section \<open>A crash during a commit\<close>

text \<open>The disk after the transaction: the home blocks have their cached contents.\<close>

definition committed :: "'x log_state_scheme \<Rightarrow> nat \<Rightarrow> block" where
  "committed s b = (if b \<in> unat ` set (homes s) then contents s (of_nat b) else memdisk s b)"

lemma full_head:
  assumes "log_ok s" "length (contents s (log_start s)) = BSIZE"
  shows "head_count (full_head s) = lh_n s" "head_homes (full_head s) = homes s" "length (full_head s) = BSIZE"
proof -
  have n: "lh_n s = int (length (homes s))" "length (homes s) \<le> 30"
    using homes_nth(1)[OF assms(1)] assms(1) by (auto simp: log_ok_def)
  have *: "full_head s = put_head (put32 (contents s (log_start s)) 0 (of_nat (length (homes s)))) (homes s) 4"
    by (simp add: full_head_def head_with_def n(1))
  have "get32 (full_head s) 0 = of_nat (length (homes s))"
    unfolding * by (rule head_roundtrip(1)[OF assms(2) n(2)])
  moreover have u: "unat (of_nat (length (homes s)) :: u32) = length (homes s)"
    using n(2) by (simp add: unat_of_nat)
  moreover from this have "sint (of_nat (length (homes s)) :: u32) = uint (of_nat (length (homes s)) :: u32)"
    using n(2) by (intro sint_small(1)) simp
  ultimately show c: "head_count (full_head s) = lh_n s"
    using n(1) by (simp add: head_count_def uint_nat)
  show "head_homes (full_head s) = homes s"
    unfolding head_homes_def c using head_roundtrip(2)[OF assms(2) n(2), folded *] n(1) by simp
  show "length (full_head s) = BSIZE"
    using assms(2) by (simp add: * put_head_seq rec32.length_put_seq)
qed

lemma empty_head: "length h = BSIZE \<Longrightarrow> head_count (head_with h 0 []) = 0"
  by (simp add: head_count_def head_with_def rec32.get_put)

lemma recovered_empty: "head_count (d st) = 0 \<Longrightarrow> b \<noteq> st \<Longrightarrow> recovered st d b = d b"
  by (simp add: recovered_def head_homes_def)

lemma log_part_in_log:
  assumes "log_ok s" "(b, v) \<in> set (log_part s)"
  shows "in_log s b" "b \<noteq> unat (log_start s)"
proof -
  obtain i where "i < nat (lh_n s)" "b = unat (log_block s i)"
    using assms(2) by (auto simp: log_part_def)
  then have "i < 30" "b = unat (log_start s) + i + 1"
    using unat_log_block[OF assms(1)] log_ok_less[OF assms(1)] by auto
  then show "in_log s b" "b \<noteq> unat (log_start s)"
    by (simp_all add: in_log_def)
qed

lemma home_part_out:
  assumes "log_ok s"
  shows "(b, v) \<in> set (home_part s) \<Longrightarrow> \<not> in_log s b \<and> v = contents s (of_nat b)"
    "fst ` set (home_part s) = unat ` set (homes s)"
proof -
  show "(b, v) \<in> set (home_part s) \<Longrightarrow> \<not> in_log s b \<and> v = contents s (of_nat b)"
    using homes_nth(2)[OF assms] unfolding home_part_def by fastforce
  show "fst ` set (home_part s) = unat ` set (homes s)"
    using homes_nth(1)[OF assms] by (force simp: home_part_def in_set_conv_nth image_iff)
qed

lemma start_in_log: "in_log s (unat (log_start s))"
  by (simp add: in_log_def)

lemma home_part_take:
  assumes "log_ok s"
  shows "store_all f (take k (home_part s)) b =
    (if b \<in> fst ` set (take k (home_part s)) then contents s (of_nat b) else f b)"
  using home_part_out(1)[OF assms] by (intro store_all_fun) (auto dest!: in_set_takeD)

lemma log_part_store:
  assumes "log_ok s"
  shows "store_all f (log_part s) (unat (log_start s)) = f (unat (log_start s))"
    "i < nat (lh_n s) \<Longrightarrow> store_all f (log_part s) (unat (log_start s) + i + 1) = contents s (homes s ! i)"
    "\<not> in_log s b \<Longrightarrow> store_all f (log_part s) b = f b"
proof -
  let ?st = "unat (log_start s)"
  show "store_all f (log_part s) ?st = f ?st"
    using log_part_in_log(2)[OF assms] by (intro store_all_other) fastforce
  show "\<not> in_log s b \<Longrightarrow> store_all f (log_part s) b = f b"
    using log_part_in_log(1)[OF assms] by (intro store_all_other) auto
  have "\<forall>(b, v) \<in> set (log_part s). v = contents s (homes s ! (b - ?st - 1))"
    using unat_log_block[OF assms] log_ok_less[OF assms] by (auto simp: log_part_def)
  note * = store_all_fun[OF this, of f]
  assume i: "i < nat (lh_n s)"
  then have "unat (log_block s i) = ?st + i + 1"
    using unat_log_block[OF assms] log_ok_less[OF assms] by blast
  then have "?st + i + 1 \<in> fst ` set (log_part s)"
    using i by (force simp: log_part_def image_iff)
  then show "store_all f (log_part s) (?st + i + 1) = contents s (homes s ! i)"
    by (simp add: *)
qed


text \<open>The disk after the first \<open>k\<close> writes of a commit.\<close>

definition crash_disk :: "nat \<Rightarrow> 'x log_state_scheme \<Rightarrow> nat \<Rightarrow> block" where
  "crash_disk k s = store_all (memdisk s) (take k (commit_trace s))"

text \<open>Before a commit the header on disk is empty; it is a block, in the cache too.\<close>

definition log_clean :: "'x log_state_scheme \<Rightarrow> bool" where
  "log_clean s \<longleftrightarrow> log_ok s \<and> head_count (memdisk s (unat (log_start s))) = 0 \<and>
     length (contents s (log_start s)) = BSIZE"

lemma crash_early:
  assumes "log_clean s" "k \<le> nat (lh_n s)"
  shows "head_count (crash_disk k s (unat (log_start s))) = 0" "\<not> in_log s b \<Longrightarrow> crash_disk k s b = memdisk s b"
proof -
  have ok: "log_ok s"
    using assms(1) by (simp add: log_clean_def)
  have sub: "set (take k (commit_trace s)) \<subseteq> set (log_part s)"
    using assms(2) set_take_subset[of k "log_part s"] by (auto simp: commit_trace_def log_part_def)
  have "crash_disk k s x = memdisk s x" if "\<not> in_log s x \<or> x = unat (log_start s)" for x
  proof -
    have "x \<notin> fst ` set (log_part s)"
      using that log_part_in_log[OF ok] by auto
    then show ?thesis
      unfolding crash_disk_def using sub by (intro store_all_other) blast
  qed
  then show "head_count (crash_disk k s (unat (log_start s))) = 0" "\<not> in_log s b \<Longrightarrow> crash_disk k s b = memdisk s b"
    using assms(1) by (simp_all add: log_clean_def)
qed

lemma crash_middle:
  assumes "log_clean s" "nat (lh_n s) < k" "k \<le> 2 * nat (lh_n s) + 1" "lh_n s > 0"
  defines "d \<equiv> crash_disk k s" and "st \<equiv> unat (log_start s)"
  shows "d st = full_head s" "i < nat (lh_n s) \<Longrightarrow> d (st + i + 1) = contents s (homes s ! i)"
    "\<not> in_log s b \<Longrightarrow> b \<notin> unat ` set (homes s) \<Longrightarrow> d b = memdisk s b"
proof -
  have ok: "log_ok s"
    using assms(1) by (simp add: log_clean_def)
  let ?j = "k - nat (lh_n s) - 1"
  let ?e = "(store_all (memdisk s) (log_part s))(st := full_head s)"
  have "take k (commit_trace s) = log_part s @ (st, full_head s) # take ?j (home_part s)"
    using assms(2-4) by (cases "k - nat (lh_n s)") (auto simp: commit_trace_def st_def log_part_def home_part_def)
  then have d: "d = store_all ?e (take ?j (home_part s))"
    by (simp add: d_def crash_disk_def store_all_append)
  have out: "b \<notin> fst ` set (take ?j (home_part s))" if "in_log s b \<or> b \<notin> unat ` set (homes s)" for b
  proof -
    have "in_log s b \<Longrightarrow> b \<notin> fst ` set (home_part s)"
      using home_part_out(1)[OF ok] by fastforce
    then have "b \<notin> fst ` set (home_part s)"
      using that home_part_out(2)[OF ok] by blast
    then show ?thesis
      using set_take_subset[of ?j "home_part s"] by blast
  qed
  have e: "d b = ?e b" if "in_log s b \<or> b \<notin> unat ` set (homes s)" for b
    unfolding d by (rule store_all_other[OF out[OF that]])
  show "d st = full_head s"
    using e[of st] start_in_log[of s] by (simp add: st_def)
  show "d (st + i + 1) = contents s (homes s ! i)" if "i < nat (lh_n s)"
    using e[of "st + i + 1"] log_part_store(2)[OF ok that] log_ok_less[OF ok that] by (simp add: st_def in_log_def)
  show "d b = memdisk s b" if "\<not> in_log s b" "b \<notin> unat ` set (homes s)"
    using e[of b] that log_part_store(3)[OF ok that(1)] start_in_log[of s] by (auto simp: st_def)
qed

lemma crash_late:
  assumes "log_clean s" "2 * nat (lh_n s) + 1 < k" "lh_n s > 0"
  shows "head_count (crash_disk k s (unat (log_start s))) = 0" "\<not> in_log s b \<Longrightarrow> crash_disk k s b = committed s b"
proof -
  have ok: "log_ok s"
    using assms(1) by (simp add: log_clean_def)
  let ?st = "unat (log_start s)"
  have "take k (commit_trace s) = log_part s @ (?st, full_head s) # home_part s @ [(?st, head_with (full_head s) 0 [])]"
    using assms(2,3) by (simp add: commit_trace_def log_part_def home_part_def)
  then have d: "crash_disk k s = (store_all ((store_all (memdisk s) (log_part s))(?st := full_head s)) (home_part s))
      (?st := head_with (full_head s) 0 [])"
    by (simp add: crash_disk_def store_all_append)
  then show "head_count (crash_disk k s ?st) = 0"
    using empty_head full_head(3)[OF ok] assms(1) by (simp add: log_clean_def)
  assume b: "\<not> in_log s b"
  then have "b \<noteq> ?st"
    using start_in_log by auto
  then show "crash_disk k s b = committed s b"
    using home_part_take[OF ok, of _ "length (home_part s)" b] home_part_out(2)[OF ok] log_part_store(3)[OF ok b]
    by (simp add: d committed_def)
qed

lemma recovered_middle:
  assumes "log_clean s" "nat (lh_n s) < k" "k \<le> 2 * nat (lh_n s) + 1" "lh_n s > 0" "\<not> in_log s b"
  shows "recovered (unat (log_start s)) (crash_disk k s) b = committed s b"
proof -
  have ok: "log_ok s" and len: "length (contents s (log_start s)) = BSIZE"
    using assms(1) by (simp_all add: log_clean_def)
  note mid = crash_middle[OF assms(1-4)] and h = full_head[OF ok len]
  have "b \<noteq> unat (log_start s)"
    using start_in_log assms(5) by auto
  moreover have "map (\<lambda>i. (unat (homes s ! i), crash_disk k s (unat (log_start s) + i + 1))) [0..<length (homes s)] = home_part s"
    using mid(2) homes_nth(1)[OF ok] by (simp add: home_part_def)
  ultimately have "recovered (unat (log_start s)) (crash_disk k s) b = store_all (crash_disk k s) (home_part s) b"
    by (simp add: recovered_def Let_def mid(1) h)
  also have "\<dots> = committed s b"
    using home_part_take[OF ok, of _ "length (home_part s)" b] home_part_out(2)[OF ok] mid(3)[OF assms(5)]
    by (simp add: committed_def)
  finally show ?thesis .
qed

end
