(* ===== verification/Progress.thy ===== *)
theory Progress
  imports Crash
begin

unbundle bit_operations_syntax

text \<open>
  The calls return.  Total correctness along the monad, the spinlocks and sleep locks of one processor
  that nobody contends, and with them the buffer cache and the log: a commit and a recovery end.
\<close>

section \<open>Total correctness\<close>

definition ktot :: "('s, 'a) kernel \<Rightarrow> 's \<Rightarrow> ('a \<Rightarrow> 's \<Rightarrow> bool) \<Rightarrow> bool" where
  "ktot m s Q \<longleftrightarrow> (\<exists>x t. m s = Inr (x, t) \<and> Q x t)"

named_theorems ktot_simps "total correctness along the monad"

lemma ktot_simp [ktot_simps]:
  "ktot (kret x) s Q = Q x s"
  "ktot (kstop e) s Q = False"
  "ktot (kgets g) s Q = Q (g s) s"
  "ktot (kmodify h) s Q' = Q' () (h s)"
  "ktot (kbind m f) s P = ktot m s (\<lambda>x t. ktot (f x) t P)"
  "ktot (kwhen b n) s Q' = (if b then ktot n s Q' else Q' () s)"
  by (auto simp: ktot_def kbind_Inr_iff kwhen_def)

lemma ktot_seq [ktot_simps]:
  "ktot (kseq []) s Q = Q () s" "ktot (kseq (m # ms)) s Q = ktot m s (\<lambda>_ t. ktot (kseq ms) t Q)"
  by (simp_all add: ktot_simps)

lemma ktot_if [ktot_simps]: "ktot (if b then m else n) s Q = (if b then ktot m s Q else ktot n s Q)"
  by simp

lemma ktot_append: "ktot (kseq (ms @ ns)) s Q = ktot (kseq ms) s (\<lambda>_ t. ktot (kseq ns) t Q)"
  by (simp add: ktot_def kseq_append kbind_Inr_iff) blast

lemma ktot_mono: "ktot m s P \<Longrightarrow> (\<And>x t. P x t \<Longrightarrow> Q x t) \<Longrightarrow> ktot m s Q"
  by (auto simp: ktot_def)

text \<open>A result known of a call that returns holds of the call that is known to return.\<close>

lemma ktot_kpost: "ktot m s P \<Longrightarrow> kpost m s R \<Longrightarrow> ktot m s (\<lambda>x t. P x t \<and> R x t)"
  by (auto simp: ktot_def kpost_def)

lemma ktot_keeps: "ktot m s P \<Longrightarrow> keeps f m \<Longrightarrow> ktot m s (\<lambda>x t. P x t \<and> f t = f s)"
  by (auto simp: ktot_def dest: keepsD)

section \<open>Locks held by one processor\<close>

text \<open>
  \<open>nest c n L s\<close>: the processor is number \<open>c\<close>, interrupts are off \<open>n\<close> deep, it holds the spinlocks in \<open>L\<close>
  and the others are free.
\<close>

definition nest :: "nat \<Rightarrow> int \<Rightarrow> lockid set \<Rightarrow> 'x mach_scheme \<Rightarrow> bool" where
  "nest c n L s \<longleftrightarrow> this_cpu s = Some c \<and> irq_ok (irq c s) \<and> ncli (cpus s ! c) = n \<and>
     (\<forall>l. if l \<in> L then Spinlock.holds l c s else locked (locks s l) = 0)"

lemma nest_nonneg: "nest c n L s \<Longrightarrow> 0 \<le> n"
  by (auto simp: nest_def irq_ok_def irq_def)

lemma nest_acquire:
  assumes "nest c n L s" "l \<notin> L"
  shows "ktot (acquire l) s (\<lambda>_ t. nest c (n + 1) (insert l L) t \<and> core t = core s)"
proof (rule ktot_keeps[OF _ core_acquire])
  have s: "this_cpu s = Some c" "irq_ok (irq c s)" "locked (locks s l) = 0" "c < length (cpus s)" "ncli (cpus s ! c) = n"
    using assms this_cpu_less[of s c] by (auto simp: nest_def split: if_splits)
  let ?t = "acquired l c s"
  have "acquire l s = Inr ((), ?t)"
    using s by (simp add: acquire_run Spinlock.holds_def)
  moreover have "nest c (n + 1) (insert l L) ?t"
  proof -
    have i: "irq c ?t = push_irq (irq c s)"
      using s by (simp add: acquired_def)
    then have "ncli (cpus ?t ! c) = n + 1"
      using s by (simp add: irq_def)
    moreover have "locks ?t l' = (if l' = l then (locks s l)\<lparr>locked := 1, lk_cpu := Some c,
        pcs := getcallerpcs (stack_word s) (arg_addr s)\<rparr> else locks s l')" for l'
      by (simp add: acquired_def upd_lock_def)
    moreover have "this_cpu ?t = Some c"
      using s by (simp add: acquired_def)
    ultimately show ?thesis
      using assms irq_ok_push[OF s(2)] unfolding nest_def Spinlock.holds_def i by simp
  qed
  ultimately show "ktot (acquire l) s (\<lambda>_ t. nest c (n + 1) (insert l L) t)"
    by (simp add: ktot_def)
qed

lemma irq_ok_pop: "irq_ok x \<Longrightarrow> fst (snd x) \<noteq> 0 \<Longrightarrow> irq_ok (pop_irq x)"
  by (cases x) (auto simp: irq_ok_def)

lemma nest_release:
  assumes "nest c n L s" "l \<in> L" "0 < n"
  shows "ktot (release l) s (\<lambda>_ t. nest c (n - 1) (L - {l}) t \<and> core t = core s)"
proof (rule ktot_keeps[OF _ core_release])
  have s: "this_cpu s = Some c" "irq_ok (irq c s)" "Spinlock.holds l c s" "c < length (cpus s)" "ncli (cpus s ! c) = n"
    using assms this_cpu_less[of s c] by (auto simp: nest_def split: if_splits)
  let ?t = "released l c s"
  have "release l s = Inr ((), ?t)"
    using release_run[OF s(1), of "fst (irq c s)" "fst (snd (irq c s))" "snd (snd (irq c s))" l] s assms(3)
    by (simp add: irq_def)
  moreover have "nest c (n - 1) (L - {l}) ?t"
  proof -
    have i: "irq c ?t = pop_irq (irq c s)"
      using s by (simp add: released_def upd_lock_def)
    then have "ncli (cpus ?t ! c) = n - 1"
      using s by (simp add: irq_def split: if_splits)
    moreover have "locks ?t l' = (if l' = l then (locks s l)\<lparr>pcs := (pcs (locks s l))[0 := 0], lk_cpu := None, locked := 0\<rparr>
        else locks s l')" for l'
      by (simp add: released_def upd_lock_def)
    moreover have "irq_ok (pop_irq (irq c s))"
      using s assms(3) by (intro irq_ok_pop) (simp_all add: irq_def)
    moreover have "this_cpu ?t = Some c"
      using s by (simp add: released_def)
    ultimately show ?thesis
      using assms unfolding nest_def Spinlock.holds_def i by simp
  qed
  ultimately show "ktot (release l) s (\<lambda>_ t. nest c (n - 1) (L - {l}) t)"
    by (simp add: ktot_def)
qed

lemma nest_cong:
  "cpus t = cpus s \<Longrightarrow> ncpu t = ncpu s \<Longrightarrow> lapic t = lapic s \<Longrightarrow> hw t = hw s \<Longrightarrow> this t = this s \<Longrightarrow> locks t = locks s \<Longrightarrow>
    nest c n L t = nest c n L s"
  using this_cpu_cong[of t s] by (simp add: nest_def Spinlock.holds_def irq_def)

lemma nest_more [simp]:
  "nest c n L (s\<lparr>procs := p\<rparr>) = nest c n L s" "nest c n L (upd_proc i f s) = nest c n L s"
  "nest c n L (upd_sl l g u) = nest c n L u"
  "nest c n L (upd_buf j h v) = nest c n L v" "nest c n L (v\<lparr>memdisk := d\<rparr>) = nest c n L v"
  "nest c n L (v\<lparr>writes := w\<rparr>) = nest c n L v"
  by (rule nest_cong; simp add: upd_proc_def upd_sl_def upd_buf_def)+

text \<open>The running process, by its slot.\<close>

definition cur :: "nat \<Rightarrow> 'x mach_scheme \<Rightarrow> nat option" where
  "cur c s = cpu_proc (cpus s ! c)"

lemma cur_more [simp]:
  "cur c (s\<lparr>procs := p\<rparr>) = cur c s" "cur c (upd_proc i f s) = cur c s" "cur c (upd_sl l g u) = cur c u"
  "cur c (upd_buf j h v) = cur c v" "cur c (v\<lparr>memdisk := d\<rparr>) = cur c v" "cur c (v\<lparr>writes := w\<rparr>) = cur c v"
  by (simp_all add: cur_def upd_proc_def upd_sl_def upd_buf_def)

lemma cur_core: "core t = core s \<Longrightarrow> nest c n L s \<Longrightarrow> cur c t = cur c s"
proof -
  assume "core t = core s" "nest c n L s"
  then have m: "map cpu_proc (cpus t) = map cpu_proc (cpus s)" and c: "c < length (cpus s)"
    using this_cpu_less[of s c] by (simp_all add: core_def nest_def)
  then show "cur c t = cur c s"
    using nth_map[of c "cpus s" cpu_proc] nth_map[of c "cpus t" cpu_proc] map_eq_imp_length_eq[OF m]
    by (simp add: cur_def)
qed

lemma nest_myproc:
  assumes "nest c n L s"
  shows "ktot myproc s (\<lambda>p t. p = cur c s \<and> nest c n L t \<and> core t = core s)"
proof -
  have s: "this_cpu s = Some c" "irq_ok (irq c s)" "c < length (cpus s)" "ncli (cpus s ! c) = n"
    using assms this_cpu_less[of s c] by (auto simp: nest_def)
  let ?t = "set_irq c (push_irq (irq c s)) s"
  let ?u = "set_irq c (pop_irq (push_irq (irq c s))) s"
  have push: "pushcli s = Inr ((), ?t)"
    using pushcli_run[OF s(1)] by simp
  have t: "this_cpu ?t = Some c" "irq c ?t = push_irq (irq c s)"
    using s by simp_all
  have t': "eflags (hw ?t (this ?t)) AND FL_IF = 0" "cpu_proc (cpus ?t ! c) = cur c s"
    using s push_irq_off[of "irq c s"] by (simp_all add: set_irq_def upd_cpu_def upd_hw_def cur_def)
  obtain e m a where irq: "irq c s = (e, m, a)"
    by (cases "irq c s")
  then have "popcli ?t = Inr ((), ?u)"
    using popcli_run[OF t(1), of "e AND NOT FL_IF" "m + 1"] t s(2) by (auto simp: irq_ok_def and.assoc)
  then have run: "myproc s = Inr (cur c s, ?u)"
    by (simp add: myproc_def kbind_def push mycpu_run[OF t(1) t'(1)] t'(2))
  obtain a' where pp: "pop_irq (push_irq (irq c s)) = (e, m, a')"
    using pop_push_irq[of e m a] s(2) irq by auto
  have u: "irq c ?u = (e, m, a')" "this_cpu ?u = Some c" "locks ?u = locks s"
    using s by (simp_all only: pp irq_set_irq this_cpu_set_irq set_irq_simps)
  moreover have "m = n" "irq_ok (e, m, a')"
    using irq s by (simp_all add: irq_def irq_ok_def)
  moreover from u this have "ncli (cpus ?u ! c) = n"
    by (simp add: irq_def del: pop_irq.simps push_irq.simps)
  ultimately have "nest c n L ?u"
    using assms unfolding nest_def Spinlock.holds_def by simp
  moreover have "core ?u = core s"
    using keepsD[OF core_myproc run] .
  ultimately show ?thesis
    using run by (simp add: ktot_def)
qed

lemma nest_mypid:
  assumes "nest c n L s" "cur c s = Some k"
  shows "ktot mypid s (\<lambda>p t. p = pid (procs s ! k) \<and> nest c n L t \<and> core t = core s)"
  unfolding mypid_def ktot_simps
proof (rule ktot_mono[OF nest_myproc[OF assms(1)]], goal_cases)
  case (1 p t)
  moreover have "procs t = procs s"
    using 1 by (cases s; cases t) (simp add: core_def)
  ultimately show ?case
    using assms(2) by (simp add: deref_def pget_def ktot_simps)
qed

section \<open>Sleep locks\<close>

lemma core_fields:
  fixes s t :: "'x proc_state_scheme" and u v :: "'y sl_state_scheme" and a b :: "'z bio_state_scheme"
  shows "core t = core s \<Longrightarrow> procs t = procs s" "core v = core u \<Longrightarrow> sleeplocks v = sleeplocks u"
    "core b = core a \<Longrightarrow> disk_view b = disk_view a"
proof -
  show "core t = core s \<Longrightarrow> procs t = procs s"
    by (cases s; cases t) (simp add: core_def)
  show "core v = core u \<Longrightarrow> sleeplocks v = sleeplocks u"
    by (cases u; cases v) (simp add: core_def)
qed (rule disk_view_core)

lemma core_upd_cong:
  fixes s t :: "'x proc_state_scheme" and u v :: "'y sl_state_scheme"
  shows "core t = core s \<Longrightarrow> core (t\<lparr>procs := p\<rparr>) = core (s\<lparr>procs := p\<rparr>)"
    and "core v = core u \<Longrightarrow> core (upd_sl l f v) = core (upd_sl l f u)"
proof -
  have *: "this_cpu (s\<lparr>procs := p\<rparr>) = this_cpu s" for s :: "'x proc_state_scheme"
    by (rule this_cpu_cong) simp_all
  show "core t = core s \<Longrightarrow> core (t\<lparr>procs := p\<rparr>) = core (s\<lparr>procs := p\<rparr>)"
    unfolding core_def * by (cases s; cases t) simp
  have *: "this_cpu (upd_sl l f s) = this_cpu s" for s :: "'y sl_state_scheme"
    by (rule this_cpu_cong) (simp_all add: upd_sl_def)
  show "core v = core u \<Longrightarrow> core (upd_sl l f v) = core (upd_sl l f u)"
    unfolding core_def * unfolding upd_sl_def by (cases u; cases v) simp
qed

lemma nest_holdingsleep:
  assumes "nest c n L s" "l \<notin> L" "cur c s = Some k"
  shows "ktot (holdingsleep l) s (\<lambda>r t. r = (sl_locked (sleeplocks s l) \<noteq> 0 \<and> sl_pid (sleeplocks s l) = pid (procs s ! k)) \<and>
    nest c n L t \<and> core t = core s)"
  unfolding holdingsleep_def ktot_simps
proof (rule ktot_mono[OF nest_acquire[OF assms(1,2)]], goal_cases)
  case (1 x t)
  then have t: "nest c (n + 1) (insert l L) t" "core t = core s" "cur c t = Some k" "sleeplocks t = sleeplocks s" "procs t = procs s"
    using cur_core[OF _ assms(1), of t] assms(3) core_fields(1,2)[of t s] by auto
  have rel: "ktot (release l) u (\<lambda>_ v. nest c n L v \<and> core v = core s)" if "nest c (n + 1) (insert l L) u" "core u = core s" for u
    using nest_release[OF that(1), of l] that(2) nest_nonneg[OF assms(1)] assms(2) by (auto elim!: ktot_mono)
  show ?case
    unfolding t
  proof (cases "sl_locked (sleeplocks s l) \<noteq> 0")
    case True
    show "(if sl_locked (sleeplocks s l) \<noteq> 0
       then ktot mypid t (\<lambda>x ta. ktot (release l) ta (\<lambda>xa t. (sl_pid (sleeplocks s l) = x) =
         (sl_locked (sleeplocks s l) \<noteq> 0 \<and> sl_pid (sleeplocks s l) = pid (procs s ! k)) \<and> nest c n L t \<and> core t = core s))
       else ktot (release l) t (\<lambda>x t. False =
         (sl_locked (sleeplocks s l) \<noteq> 0 \<and> sl_pid (sleeplocks s l) = pid (procs s ! k)) \<and> nest c n L t \<and> core t = core s))"
      using True t nest_mypid[OF t(1,3)] by (auto elim!: ktot_mono intro: ktot_mono[OF rel])
  qed (use rel[OF t(1,2)] in auto)
qed

lemma nest_acquiresleep:
  assumes "nest c n L s" "l \<notin> L" "cur c s = Some k" "sl_locked (sleeplocks s l) = 0"
  shows "ktot (acquiresleep l) s (\<lambda>_ t. nest c n L t \<and>
    core t = core (upd_sl l (\<lambda>x. x\<lparr>sl_locked := 1, sl_pid := pid (procs s ! k)\<rparr>) s))"
  unfolding acquiresleep_def acquiresleep_enter_def acquiresleep_try_def take_sleeplock_def ktot_simps
proof (rule ktot_mono[OF nest_acquire[OF assms(1,2)]], goal_cases)
  case (1 x t)
  then have t: "nest c (n + 1) (insert l L) t" "core t = core s" "cur c t = Some k" "sl_locked (sleeplocks t l) = 0" "procs t = procs s"
    using cur_core[OF _ assms(1), of t] assms(3,4) core_fields(1,2)[of t s] by auto
  let ?t = "upd_sl l (\<lambda>x. x\<lparr>sl_locked := 1\<rparr>) t"
  have u: "nest c (n + 1) (insert l L) ?t" "cur c ?t = Some k"
    using t by simp_all
  show ?case
    using t(4)
  proof (simp add: ktot_simps, intro ktot_mono[OF nest_mypid[OF u]], goal_cases)
    case (1 p v)
    let ?v = "upd_sl l (\<lambda>x. x\<lparr>sl_pid := p\<rparr>) v"
    have "core ?v = core (upd_sl l (\<lambda>x. x\<lparr>sl_locked := 1, sl_pid := pid (procs s ! k)\<rparr>) s)"
      using 1 t core_upd_cong(2)[of v ?t l "\<lambda>x. x\<lparr>sl_pid := p\<rparr>"] core_upd_cong(2)[OF t(2), of l "\<lambda>x. x\<lparr>sl_locked := 1, sl_pid := p\<rparr>"]
      by (simp add: upd_sl_def)
    then show ?case
      using 1 nest_release[of c "n + 1" "insert l L" ?v l] nest_nonneg[OF assms(1)] assms(2) by (auto elim!: ktot_mono)
  qed
qed

lemma nest_wakeup:
  assumes "nest c n L s" "Ptable_lock \<notin> L"
  shows "ktot (wakeup ch) s (\<lambda>_ t. nest c n L t \<and> core t = core (s\<lparr>procs := map (wake ch) (procs s)\<rparr>))"
  unfolding wakeup_def wakeup1_def ktot_simps
proof (rule ktot_mono[OF nest_acquire[OF assms]], goal_cases)
  case (1 x t)
  let ?t = "t\<lparr>procs := map (wake ch) (procs t)\<rparr>"
  have t: "procs t = procs s" "core ?t = core (s\<lparr>procs := map (wake ch) (procs s)\<rparr>)"
    using 1 core_fields(1)[of t s] core_upd_cong(1)[of t s] by simp_all
  show ?case
    using 1 t nest_release[of c "n + 1" "insert Ptable_lock L" ?t Ptable_lock] nest_nonneg[OF assms(1)] assms(2)
    by (auto elim!: ktot_mono)
qed

lemma nest_releasesleep:
  assumes "nest c n L s" "l \<notin> L" "l \<noteq> Ptable_lock" "Ptable_lock \<notin> L"
  shows "ktot (releasesleep l) s (\<lambda>_ t. nest c n L t \<and>
    core t = core ((upd_sl l (\<lambda>x. x\<lparr>sl_locked := 0, sl_pid := 0\<rparr>) s)\<lparr>procs := map (wake (Sleeplock_chan l)) (procs s)\<rparr>))"
  unfolding releasesleep_def ktot_simps
proof (rule ktot_mono[OF nest_acquire[OF assms(1,2)]], goal_cases)
  case (1 x t)
  let ?f = "\<lambda>x. x\<lparr>sl_locked := 0, sl_pid := 0 :: u32\<rparr>"
  have f: "upd_sl l (\<lambda>k. k\<lparr>sl_pid := 0\<rparr>) (upd_sl l (\<lambda>k. k\<lparr>sl_locked := 0\<rparr>) t) = upd_sl l ?f t"
    by (simp add: upd_sl_def)
  have p: "procs (upd_sl l ?f t) = procs s" "procs t = procs s"
    using 1 core_fields(1)[of t s] by (simp_all add: upd_sl_def)
  have n: "nest c (n + 1) (insert l L) (upd_sl l ?f t)" "Ptable_lock \<notin> insert l L"
    using 1 assms(3,4) by simp_all
  have c: "core ((upd_sl l ?f t)\<lparr>procs := q\<rparr>) = core ((upd_sl l ?f s)\<lparr>procs := q\<rparr>)" for q
    using 1 core_upd_cong(2)[of t s l ?f] by (intro core_upd_cong(1)) simp
  show ?case
    unfolding f
  proof (rule ktot_mono[OF nest_wakeup[OF n]], goal_cases)
    case (1 y u)
    then show ?case
      using c p nest_release[of c "n + 1" "insert l L" u l] nest_nonneg[OF assms(1)] assms(2) by (auto elim!: ktot_mono)
  qed
qed


section \<open>The buffer cache\<close>

text \<open>
  \<open>lk L c k M s\<close>: processor \<open>c\<close> runs process \<open>k\<close> and holds the spinlocks in \<open>L\<close>; of the buffers, \<open>k\<close> has locked those
  in \<open>M\<close>, and the others are not locked.
\<close>

definition own_lock :: "bool \<Rightarrow> u32 \<Rightarrow> sleeplock \<Rightarrow> bool" where
  "own_lock b p x \<longleftrightarrow> (if b then sl_locked x \<noteq> 0 \<and> sl_pid x = p else sl_locked x = 0)"

definition lk :: "lockid set \<Rightarrow> nat \<Rightarrow> nat \<Rightarrow> nat set \<Rightarrow> 'x sl_state_scheme \<Rightarrow> bool" where
  "lk L c k M s \<longleftrightarrow> (\<exists>n. nest c n L s \<and> int (card L) \<le> n) \<and> cur c s = Some k \<and> k < length (procs s) \<and>
     (\<forall>i<NBUF. own_lock (i \<in> M) (pid (procs s ! k)) (sleeplocks s (Buf_lk i)))"

lemma lk_core:
  assumes "lk L c k M s" "core t = core s" "nest c n L' t" "int (card L') \<le> n"
  shows "lk L' c k M t"
proof -
  obtain m where "nest c m L s"
    using assms(1) by (auto simp: lk_def)
  from cur_core[OF assms(2) this] show ?thesis
    using assms core_fields(1,2)[OF assms(2)] by (auto simp: lk_def)
qed

lemma lk_upd [simp]:
  "lk L c k M (upd_buf i f s) = lk L c k M s" "lk L c k M (s\<lparr>memdisk := d\<rparr>) = lk L c k M s"
  "lk L c k M (s\<lparr>writes := w\<rparr>) = lk L c k M s"
proof -
  have "sleeplocks (upd_buf i f s) = sleeplocks s" "procs (upd_buf i f s) = procs s"
    by (simp_all add: upd_buf_def)
  then show "lk L c k M (upd_buf i f s) = lk L c k M s"
    unfolding lk_def by simp
qed (simp_all add: lk_def)

lemma lk_nest: "nest c n {} s \<Longrightarrow> int (card ({} :: lockid set)) \<le> n"
  using nest_nonneg[of c n "{}" s] by simp

lemma lk_core0: "lk L c k M s \<Longrightarrow> core t = core s \<Longrightarrow> nest c n {} t \<Longrightarrow> lk {} c k M t"
  by (rule lk_core[OF _ _ _ lk_nest])

lemma lk_acquire:
  assumes "lk {} c k M s"
  shows "ktot (acquire l) s (\<lambda>_ t. lk {l} c k M t \<and> core t = core s)"
proof -
  obtain n where n: "nest c n {} s"
    using assms by (auto simp: lk_def)
  show ?thesis
    by (rule ktot_mono[OF nest_acquire[OF n]]) (use lk_core[OF assms] nest_nonneg[OF n] in auto)
qed

lemma lk_release:
  assumes "lk {l} c k M s"
  shows "ktot (release l) s (\<lambda>_ t. lk {} c k M t \<and> core t = core s)"
proof -
  obtain n where n: "nest c n {l} s" "0 < n"
    using assms by (auto simp: lk_def)
  show ?thesis
    by (rule ktot_mono[OF nest_release[OF n(1) _ n(2)]]) (use lk_core[OF assms] n(2) in auto)
qed

lemma lk_holdingsleep:
  assumes "lk {} c k M s" "i < NBUF"
  shows "ktot (holdingsleep (Buf_lk i)) s (\<lambda>r t. r = (i \<in> M) \<and> lk {} c k M t \<and> core t = core s)"
proof -
  obtain n where n: "nest c n {} s" "cur c s = Some k"
    using assms(1) by (auto simp: lk_def)
  have r: "(sl_locked (sleeplocks s (Buf_lk i)) \<noteq> 0 \<and> sl_pid (sleeplocks s (Buf_lk i)) = pid (procs s ! k)) = (i \<in> M)"
    using assms by (auto simp: lk_def own_lock_def split: if_splits)
  show ?thesis
    by (rule ktot_mono[OF nest_holdingsleep[OF n(1) _ n(2)]]) (use r lk_core0[OF assms(1)] in auto)
qed

lemma lk_acquiresleep:
  assumes "lk {} c k M s" "i < NBUF" "i \<notin> M"
  shows "ktot (acquiresleep (Buf_lk i)) s (\<lambda>_ t. lk {} c k (insert i M) t \<and> disk_view t = disk_view s)"
proof -
  obtain n where n: "nest c n {} s" "cur c s = Some k" "sl_locked (sleeplocks s (Buf_lk i)) = 0"
    using assms by (auto simp: lk_def own_lock_def split: if_splits)
  let ?s = "upd_sl (Buf_lk i) (\<lambda>x. x\<lparr>sl_locked := 1, sl_pid := pid (procs s ! k)\<rparr>) s"
  have "lk {} c k (insert i M) ?s"
    unfolding lk_def using assms n lk_nest[OF n(1)] by (auto simp: lk_def) (auto simp: upd_sl_def own_lock_def)
  moreover have "disk_view ?s = disk_view s"
    by simp
  ultimately have "lk {} c k (insert i M) t \<and> disk_view t = disk_view s" if "nest c n {} t" "core t = core ?s" for t
    using lk_core[OF _ that(2,1) lk_nest[OF that(1)]] core_fields(3)[OF that(2)] by simp
  then show ?thesis
    by (intro ktot_mono[OF nest_acquiresleep[OF n(1) _ n(2,3)]]) blast+
qed

lemma lk_releasesleep:
  assumes "lk {} c k M s" "i < NBUF"
  shows "ktot (releasesleep (Buf_lk i)) s (\<lambda>_ t. lk {} c k (M - {i}) t \<and> disk_view t = disk_view s)"
proof -
  obtain n where n: "nest c n {} s" "cur c s = Some k" "k < length (procs s)"
    using assms by (auto simp: lk_def)
  let ?p = "map (wake (Sleeplock_chan (Buf_lk i))) (procs s)"
  let ?s = "(upd_sl (Buf_lk i) (\<lambda>x. x\<lparr>sl_locked := 0, sl_pid := 0\<rparr>) s)\<lparr>procs := ?p\<rparr>"
  have "pid (?p ! k) = pid (procs s ! k)"
    using n(3) by (simp add: wake_def)
  then have "lk {} c k (M - {i}) ?s"
    unfolding lk_def using assms n lk_nest[OF n(1)] by (auto simp: lk_def) (auto simp: upd_sl_def own_lock_def)
  moreover have "disk_view ?s = disk_view s"
    by (simp add: disk_view_def upd_sl_def)
  ultimately have "lk {} c k (M - {i}) t \<and> disk_view t = disk_view s" if "nest c n {} t" "core t = core ?s" for t
    using lk_core[OF _ that(2,1) lk_nest[OF that(1)]] core_fields(3)[OF that(2)] by simp
  then show ?thesis
    by (intro ktot_mono[OF nest_releasesleep[OF n(1)]]) blast+
qed


lemma bfind_ktot:
  assumes "ring (bufs s) xs"
  shows "ktot (bfind bnext P) s Q = Q (find (\<lambda>i. P (bufs s ! i)) xs) s"
    and "ktot (bfind bprev P) s Q = Q (find (\<lambda>i. P (bufs s ! i)) (rev xs)) s"
  by (simp_all add: ktot_def bfind_run[OF assms])

lemma ktot_bufset [ktot_simps]: "ktot (bufset f i) s Q = Q () (upd_buf i f s)"
  by (simp add: bufset_def ktot_simps)

lemma ktot_bufget [ktot_simps]: "ktot (bufget g i) s Q = Q (g (bufs s ! i)) s"
  by (simp add: bufget_def ktot_simps)

lemma iderw_runs:
  assumes "lk {} c k M s" "i < NBUF" "i \<in> M" "bflags (bufs s ! i) AND (B_VALID OR B_DIRTY) \<noteq> B_VALID"
    "bdev (bufs s ! i) = 1" "unat (blockno (bufs s ! i)) < disksize s"
  shows "ktot (iderw i) s (\<lambda>_ t. lk {} c k M t \<and> disksize t = disksize s)"
  unfolding iderw_def ktot_simps
proof (rule ktot_mono[OF lk_holdingsleep[OF assms(1,2)]], goal_cases)
  case (1 r t)
  then have "bufs t = bufs s" "disksize t = disksize s" "lk {} c k M t" r
    using core_fields(3)[of t s] assms(3) by (auto simp: disk_view_def)
  then show ?case
    using assms(4-6) by (simp add: ktot_simps) (simp add: upd_buf_def)
qed

lemma take_buffer_runs:
  assumes "lk {Bcache_lock} c k M s" "i < NBUF" "i \<notin> M"
  shows "ktot (release Bcache_lock) s (\<lambda>_ t. ktot (acquiresleep (Buf_lk i)) t (\<lambda>_ u.
    lk {} c k (insert i M) u \<and> disk_view u = disk_view s))"
proof (rule ktot_mono[OF lk_release[OF assms(1)]], goal_cases)
  case (1 x t)
  then have "disk_view t = disk_view s" "lk {} c k M t"
    using core_fields(3)[of t s] by auto
  then show ?case
    using lk_acquiresleep[of c k M t i] assms(2,3) by (auto elim: ktot_mono)
qed

definition spare :: "'x bio_state_scheme \<Rightarrow> nat set" where
  "spare s = {i. i < NBUF \<and> refcnt (bufs s ! i) = 0 \<and> \<not> dirty (bufs s ! i)}"

lemma bget_runs:
  assumes "cache_inv s" "lk {} c k M s" "\<forall>i\<in>M. \<exists>a. a \<noteq> b \<and> held s a i" "spare s \<noteq> {}"
  shows "ktot (bget 1 b) s (\<lambda>i t. i \<notin> M \<and> lk {} c k (insert i M) t \<and> disksize t = disksize s)"
  unfolding bget_def ktot_simps
proof (rule ktot_mono[OF lk_acquire[OF assms(2)]], goal_cases)
  case (1 x t)
  then have l: "lk {Bcache_lock} c k M t" and d: "bufs t = bufs s" "disksize t = disksize s"
    using core_fields(3)[of t s] by (auto simp: disk_view_def)
  obtain xs where xs: "ring (bufs t) xs" "set xs = {..<NBUF}"
    using assms(1) d by (auto simp: cache_inv_def cache_ok_def ring_def)
  have out: "i \<notin> M" if "i < NBUF" "bdev (bufs s ! i) = 1 \<and> blockno (bufs s ! i) = b \<or> refcnt (bufs s ! i) = 0" for i
    using assms(3) that by (auto simp: held_def holds_def)
  have fin: "ktot (release Bcache_lock) (upd_buf i f t) (\<lambda>_ t. ktot (acquiresleep (Buf_lk i)) t (\<lambda>_ u.
      i \<notin> M \<and> lk {} c k (insert i M) u \<and> disksize u = disksize s))" if "i < NBUF" "i \<notin> M" for i f
  proof -
    have "disksize (upd_buf i f t) = disksize s"
      using d by (simp add: upd_buf_def)
    then show ?thesis
      using take_buffer_runs[of c k M "upd_buf i f t" i] l that by (auto elim!: ktot_mono simp: disk_view_def)
  qed
  have len: "i < NBUF \<Longrightarrow> i < length (bufs t)" for i
    using xs(1) by (simp add: ring_def)
  show ?case
  proof (cases "find (\<lambda>i. bdev (bufs t ! i) = 1 \<and> blockno (bufs t ! i) = b) xs")
    case (Some i)
    then have "i < NBUF" "i \<notin> M"
      using find_in[OF Some] xs(2) out d by auto
    then show ?thesis
      using Some fin by (simp add: ktot_simps bfind_ktot(1)[OF xs(1)])
  next
    case None
    obtain j where "j < NBUF" "refcnt (bufs t ! j) = 0" "bflags (bufs t ! j) AND B_DIRTY = 0"
      using assms(4) d by (auto simp: spare_def dirty_def)
    then have "find (\<lambda>i. refcnt (bufs t ! i) = 0 \<and> bflags (bufs t ! i) AND B_DIRTY = 0) (rev xs) \<noteq> None"
      using xs(2) by (auto simp: find_None_iff)
    then obtain i where i: "find (\<lambda>i. refcnt (bufs t ! i) = 0 \<and> bflags (bufs t ! i) AND B_DIRTY = 0) (rev xs) = Some i"
      by blast
    then have "i < NBUF" "i \<notin> M"
      using find_in[OF i] xs(2) out d by auto
    then show ?thesis
      using None i fin len by (simp add: ktot_simps bfind_ktot[OF xs(1)])
  qed
qed

lemma need_io:
  fixes f :: u32
  shows "f AND B_VALID = 0 \<Longrightarrow> f AND (B_VALID OR B_DIRTY) \<noteq> B_VALID"
    and "f AND B_DIRTY \<noteq> 0 \<Longrightarrow> f AND (B_VALID OR B_DIRTY) \<noteq> B_VALID"
proof -
  have *: "(f AND (B_VALID OR B_DIRTY)) AND B_VALID = f AND B_VALID" "(f AND (B_VALID OR B_DIRTY)) AND B_DIRTY = f AND B_DIRTY"
    by (simp_all add: and.assoc)
  show "f AND B_VALID = 0 \<Longrightarrow> f AND (B_VALID OR B_DIRTY) \<noteq> B_VALID"
    using *(1) by auto
  show "f AND B_DIRTY \<noteq> 0 \<Longrightarrow> f AND (B_VALID OR B_DIRTY) \<noteq> B_VALID"
    using *(2) by auto
qed

lemma bread_runs:
  assumes "cache_inv s" "lk {} c k M s" "\<forall>i\<in>M. \<exists>a. a \<noteq> b \<and> held s a i" "spare s \<noteq> {}" "unat b < disksize s"
  shows "ktot (bread 1 b) s (\<lambda>i t. i \<notin> M \<and> lk {} c k (insert i M) t \<and> disksize t = disksize s)"
  unfolding bread_def ktot_simps
proof (rule ktot_mono[OF ktot_kpost[OF bget_runs[OF assms(1-4)] bget_spec]], goal_cases)
  case 1
  then show ?case
    using assms(1) by (simp add: cache_inv_def)
next
  case (2 i t)
  then obtain y where y: "bget_rel 1 b (bufs s) i y" "bufs t = (bufs s)[i := y]"
    by (auto simp: disk_view_def)
  have "length (bufs s) = Suc NBUF"
    using assms(1) cache_ok_length by (auto simp: cache_inv_def)
  then have t: "i < NBUF" "bdev (bufs t ! i) = 1" "blockno (bufs t ! i) = b"
    using y by (auto simp: bget_rel_def)
  have "ktot (iderw i) t (\<lambda>_ u. lk {} c k (insert i M) u \<and> disksize u = disksize t)"
    if "bflags (bufs t ! i) AND B_VALID = 0"
  proof (rule iderw_runs)
    show "bflags (bufs t ! i) AND (B_VALID OR B_DIRTY) \<noteq> B_VALID"
      by (rule need_io(1)[OF that])
  qed (use 2 t assms(5) in simp_all)
  then show ?case
    using 2 by (auto simp: ktot_simps elim!: ktot_mono)
qed

lemma bwrite_runs:
  assumes "lk {} c k M s" "i < NBUF" "i \<in> M" "i < length (bufs s)" "bdev (bufs s ! i) = 1" "unat (blockno (bufs s ! i)) < disksize s"
  shows "ktot (bwrite i) s (\<lambda>_ t. lk {} c k M t \<and> disksize t = disksize s)"
  unfolding bwrite_def ktot_simps
proof (rule ktot_mono[OF lk_holdingsleep[OF assms(1,2)]], goal_cases)
  case (1 r t)
  then have t: "bufs t = bufs s" "disksize t = disksize s" "lk {} c k M t" r
    using core_fields(3)[of t s] assms(3) by (auto simp: disk_view_def)
  let ?u = "upd_buf i (\<lambda>x. x\<lparr>bflags := bflags x OR B_DIRTY\<rparr>) t"
  have "bflags (bufs ?u ! i) AND B_DIRTY \<noteq> 0" "bdev (bufs ?u ! i) = 1" "blockno (bufs ?u ! i) = blockno (bufs s ! i)"
      "disksize ?u = disksize s"
    using assms(4,5) t flag_bits by (simp_all add: upd_buf_def)
  moreover from this(1) have "bflags (bufs ?u ! i) AND (B_VALID OR B_DIRTY) \<noteq> B_VALID"
    by (rule need_io(2))
  ultimately show ?case
    using iderw_runs[of c k M ?u i] t assms by (auto simp: ktot_simps elim!: ktot_mono)
qed

lemma brelse_runs:
  fixes s :: "'x bio_state_scheme"
  assumes "lk {} c k M s" "i < NBUF" "i \<in> M"
  shows "ktot (brelse i) s (\<lambda>_ t. lk {} c k (M - {i}) t \<and> disksize t = disksize s)"
  unfolding brelse_def ktot_simps
proof (rule ktot_mono[OF lk_holdingsleep[OF assms(1,2)]], goal_cases)
  case (1 r t)
  then have t: "lk {} c k M t" "disksize t = disksize s" r
    using core_fields(3)[of t s] assms(3) by (auto simp: disk_view_def)
  have r: "(\<not> r) = False"
    using t(3) by simp
  show ?case
    unfolding r if_False
  proof (rule ktot_mono[OF lk_releasesleep[OF t(1) assms(2)]], goal_cases)
    case (1 x u)
    then have u: "lk {} c k (M - {i}) u" "disksize u = disksize s"
      using t(2) by (simp_all add: disk_view_def)
    show ?case
    proof (rule ktot_mono[OF lk_acquire[OF u(1)]], goal_cases)
      case (1 y v)
      then have v: "lk {Bcache_lock} c k (M - {i}) v" "disksize v = disksize s"
        using core_fields(3)[of v u] u(2) by (auto simp: disk_view_def)
      have fin: "ktot (release Bcache_lock) w (\<lambda>_ x. lk {} c k (M - {i}) x \<and> disksize x = disksize s)"
        if "lk {Bcache_lock} c k (M - {i}) w" "disksize w = disksize s" for w :: "'x bio_state_scheme"
        using lk_release[OF that(1)] core_fields(3)[of _ w] that(2) by (auto elim!: ktot_mono simp: disk_view_def)
      have d: "disksize (upd_buf j f w) = disksize w" for j f and w :: "'x bio_state_scheme"
        by (simp add: upd_buf_def)
      show ?case
        by (simp add: ktot_simps unlink_def link_first_def fin v d)
    qed
  qed
qed


section \<open>The interface, with progress\<close>

lemma ktot_kpost2:
  "ktot m s (\<lambda>x t. ktot (n x) t (P x)) \<Longrightarrow> kpost m s (\<lambda>x t. kpost (n x) t (R x)) \<Longrightarrow>
    ktot m s (\<lambda>x t. ktot (n x) t (\<lambda>y u. P x y u \<and> R x y u))"
  unfolding ktot_def kpost_def by blast

text \<open>
  \<open>can M s\<close>: nothing stands in the way of a caller that has locked the buffers \<open>M\<close>; \<open>clean\<close> are the buffers
  without unwritten data, and \<open>lim\<close> is the size of the disk.
\<close>

locale live_cache = write_through_cache rd wr rel dat put inv con dsk tr held pins rest
  for rd :: "u32 \<Rightarrow> ('s, nat) kernel" and wr rel dat put inv con dsk tr held pins and rest :: "'s \<Rightarrow> 'm" +
  fixes can :: "nat set \<Rightarrow> 's \<Rightarrow> bool"
    and clean :: "'s \<Rightarrow> nat set"
    and lim :: "'s \<Rightarrow> nat"
  assumes rd_runs: "inv s \<Longrightarrow> can M s \<Longrightarrow> \<forall>i\<in>M. \<exists>a. a \<noteq> b \<and> held s a i \<Longrightarrow> {i \<in> clean s. pins s i = 0} \<noteq> {} \<Longrightarrow>
      unat b < lim s \<Longrightarrow> ktot (rd b) s (\<lambda>i t. can (insert i M) t \<and> i \<notin> M \<and> clean t = clean s \<and> lim t = lim s)"
    and wr_runs: "inv s \<Longrightarrow> can M s \<Longrightarrow> i \<in> M \<Longrightarrow> held s b i \<Longrightarrow> unat b < lim s \<Longrightarrow>
      ktot (wr i) (put i v s) (\<lambda>_ t. can M t \<and> clean s \<subseteq> clean t \<and> lim t = lim s)"
    and rel_runs: "inv s \<Longrightarrow> can M s \<Longrightarrow> i \<in> M \<Longrightarrow> held s b i \<Longrightarrow>
      ktot (rel i) s (\<lambda>_ t. can (M - {i}) t \<and> clean t = clean s \<and> lim t = lim s)"
begin

definition spares :: "'s \<Rightarrow> nat set" where
  "spares s = {i \<in> clean s. pins s i = 0}"

text \<open>Ready for calls that need two buffers at a time.\<close>

definition idle :: "'s \<Rightarrow> bool" where
  "idle s \<longleftrightarrow> quiet s \<and> can {} s \<and> (\<exists>i j. i \<noteq> j \<and> i \<in> spares s \<and> j \<in> spares s)"

lemma idle_wrote:
  assumes "idle s" "wrote t d c w m (pins s)" "can {} t" "clean s \<subseteq> clean t"
  shows "idle t"
proof -
  have "spares s \<subseteq> spares t"
    using assms(2,4) by (auto simp: wrote_def spares_def)
  moreover obtain i j where "i \<noteq> j" "i \<in> spares s" "j \<in> spares s"
    using assms(1) by (auto simp: idle_def)
  ultimately show ?thesis
    using assms(2,3) unfolding idle_def wrote_def by blast
qed

lemma two_reads_run:
  assumes "idle s" "a \<noteq> b" "unat a < lim s" "unat b < lim s"
  shows "ktot (rd a) s (\<lambda>i t. ktot (rd b) t (\<lambda>j u. can {i, j} u \<and> clean u = clean s \<and> lim u = lim s))"
proof -
  have inv: "inv s"
    using assms(1) by (simp add: idle_def quiet_def)
  have "{i \<in> clean s. pins s i = 0} \<noteq> {}"
    using assms(1) by (auto simp: idle_def spares_def)
  then have "ktot (rd a) s (\<lambda>i t. can {i} t \<and> i \<notin> {} \<and> clean t = clean s \<and> lim t = lim s)"
    using rd_runs[of s "{}" a] assms(1,3) inv by (simp add: idle_def)
  from ktot_kpost[OF this rd_spec[OF inv]] show ?thesis
  proof (rule ktot_mono, goal_cases)
    case (1 i t)
    then have t: "inv t" "can {i} t" "held t a i" "clean t = clean s" "pins t = (pins s)(i := pins s i + 1)" "lim t = lim s"
      using assms(1) by (auto simp: idle_def quiet_def)
    obtain j where "j \<in> spares s" "j \<noteq> i"
      using assms(1) by (auto simp: idle_def)
    then have sp: "{i \<in> clean t. pins t i = 0} \<noteq> {}"
      using t by (auto simp: spares_def)
    have h: "\<forall>x\<in>{i}. \<exists>c. c \<noteq> b \<and> held t c x"
      using t(3) assms(2) by blast
    show ?case
      by (rule ktot_mono[OF rd_runs[OF t(1,2) h sp]]) (use t assms(4) in \<open>auto simp: insert_commute\<close>)
  qed
qed

lemma write_release_runs:
  assumes "inv u" "can {i, j} u" "i \<noteq> j" "held u a i" "held u b j" "unat b < lim u"
  shows "ktot (wr j) (put j v u) (\<lambda>_ w. ktot (rel i) w (\<lambda>_ w'. ktot (rel j) w' (\<lambda>_ t.
    can {} t \<and> clean u \<subseteq> clean t \<and> lim t = lim u)))"
proof (rule ktot_mono[OF ktot_kpost[OF wr_runs[OF assms(1,2) _ assms(5,6)] wr_spec[OF assms(1,5)]]], goal_cases)
  case (2 x w)
  then have w: "can {i, j} w" "clean u \<subseteq> clean w" "lim w = lim u" "inv w" "held w a i" "held w b j"
    using assms(4,5) by blast+
  show ?case
  proof (rule ktot_mono[OF ktot_kpost[OF rel_runs[OF w(4,1) _ w(5)] rel_spec[OF w(4,5)]]], goal_cases)
    case (2 y w')
    then have w': "can {j} w'" "clean w' = clean w" "lim w' = lim w" "inv w'" "held w' b j"
      using w(6) assms(3) by (auto simp: insert_Diff_if)
    show ?case
      by (rule ktot_mono[OF rel_runs[OF w'(4,1) _ w'(5)]]) (use w w' in auto)
  qed simp
qed simp

lemma copy_to_second_runs:
  assumes "idle s" "a \<noteq> b" "unat a < lim s" "unat b < lim s"
  shows "ktot (kbind (rd a) (\<lambda>i. kbind (rd b) (\<lambda>j. kseq [kmodify (\<lambda>s. put j (dat s i) s), wr j, rel i, rel j]))) s
    (\<lambda>_ t. can {} t \<and> clean s \<subseteq> clean t \<and> lim t = lim s)"
proof -
  have "quiet s"
    using assms(1) by (simp add: idle_def)
  from ktot_kpost2[OF two_reads_run[OF assms] two_reads[OF this assms(2)]] show ?thesis
    unfolding ktot_simps
  proof (elim ktot_mono, goal_cases)
    case (1 i t j u)
    then show ?case
      using write_release_runs[of u i j a b "dat u i"] assms(4) by simp
  qed
qed

lemma copy_to_first_runs:
  assumes "idle s" "a \<noteq> b" "unat a < lim s" "unat b < lim s"
  shows "ktot (kbind (rd a) (\<lambda>i. kbind (rd b) (\<lambda>j. kseq [kmodify (\<lambda>s. put i (dat s j) s), wr i, rel j, rel i]))) s
    (\<lambda>_ t. can {} t \<and> clean s \<subseteq> clean t \<and> lim t = lim s)"
proof -
  have "quiet s"
    using assms(1) by (simp add: idle_def)
  from ktot_kpost2[OF two_reads_run[OF assms] two_reads[OF this assms(2)]] show ?thesis
    unfolding ktot_simps
  proof (elim ktot_mono, goal_cases)
    case (1 i t j u)
    then show ?case
      using write_release_runs[of u j i b a "dat u j"] assms(3) by (simp add: insert_commute)
  qed
qed

lemma read_runs:
  assumes "idle s" "unat a < lim s"
  shows "ktot (rd a) s (\<lambda>i t. can {i} t \<and> clean t = clean s \<and> lim t = lim s \<and> inv t \<and> held t a i \<and>
    con t = con s \<and> rest t = rest s)"
proof -
  have s: "inv s" "can {} s" "{i \<in> clean s. pins s i = 0} \<noteq> {}" "\<forall>i. pins s i \<noteq> - 1"
    using assms(1) by (auto simp: idle_def quiet_def spares_def)
  have h: "\<forall>x\<in>{}. \<exists>c. c \<noteq> a \<and> held s c x"
    by simp
  show ?thesis
    by (rule ktot_mono[OF ktot_kpost[OF rd_runs[OF s(1,2) h s(3) assms(2)] rd_spec[OF s(1)]]]) (use s(4) in auto)
qed

lemma read_modify_write_runs:
  assumes "idle s" "unat a < lim s"
  shows "ktot (kbind (rd a) (\<lambda>i. kseq [kmodify (\<lambda>s. put i (g (dat s i)) s), wr i, rel i])) s
    (\<lambda>_ t. can {} t \<and> clean s \<subseteq> clean t \<and> lim t = lim s)"
  unfolding ktot_simps
proof (rule ktot_mono[OF read_runs[OF assms]], goal_cases)
  case (1 i u)
  then have u: "can {i} u" "clean u = clean s" "lim u = lim s" "inv u" "held u a i" "unat a < lim u"
    using assms(2) by simp_all
  show ?case
  proof (rule ktot_mono[OF ktot_kpost[OF wr_runs[OF u(4,1) _ u(5,6)] wr_spec[OF u(4,5)]]], goal_cases)
    case (2 x w)
    then have w: "can {i} w" "clean u \<subseteq> clean w" "lim w = lim u" "inv w" "held w a i"
      using u(5) by blast+
    show ?case
      by (rule ktot_mono[OF rel_runs[OF w(4,1) _ w(5)]]) (use u w in auto)
  qed simp
qed

lemma loop_runs:
  assumes "\<And>i u. i < k \<Longrightarrow> idle u \<Longrightarrow> rest u = rest s \<Longrightarrow> lim u = lim s \<Longrightarrow>
      ktot (copy i) u (\<lambda>_ t. idle t \<and> rest t = rest s \<and> lim t = lim s)"
    and "idle s"
  shows "ktot (kseq (map copy [0..<k])) s (\<lambda>_ t. idle t \<and> rest t = rest s \<and> lim t = lim s)"
  using assms
proof (induction k)
  case (Suc k)
  have upt: "[0..<Suc k] = [0..<k] @ [k]"
    by simp
  have "ktot (kseq (map copy [0..<k])) s (\<lambda>_ t. idle t \<and> rest t = rest s \<and> lim t = lim s)"
    using Suc.prems by (intro Suc.IH) simp_all
  then show ?case
    unfolding upt map_append list.map ktot_append ktot_simps
  proof (rule ktot_mono, goal_cases)
    case (1 x t)
    then show ?case
      using Suc.prems(1)[of k t] by simp
  qed
qed (simp add: ktot_def)

end

definition can_use :: "nat set \<Rightarrow> 'x bio_state_scheme \<Rightarrow> bool" where
  "can_use M s \<longleftrightarrow> (\<exists>c k. lk {} c k M s)"

definition clean_bufs :: "'x bio_state_scheme \<Rightarrow> nat set" where
  "clean_bufs s = {i. i < NBUF \<and> \<not> dirty (bufs s ! i)}"

lemma bread_live:
  assumes "cache_inv s" "can_use M s" "\<forall>i\<in>M. \<exists>a. a \<noteq> b \<and> held s a i" "{i \<in> clean_bufs s. pins s i = 0} \<noteq> {}"
    "unat b < disksize s"
  shows "ktot (bread 1 b) s (\<lambda>i t. can_use (insert i M) t \<and> i \<notin> M \<and> clean_bufs t = clean_bufs s \<and> disksize t = disksize s)"
proof -
  obtain c k where l: "lk {} c k M s"
    using assms(2) by (auto simp: can_use_def)
  have "spare s \<noteq> {}"
    using assms(4) by (auto simp: spare_def clean_bufs_def pins_def)
  from ktot_kpost[OF bread_runs[OF assms(1) l assms(3) this assms(5)] bread_spec[OF assms(1)]] show ?thesis
  proof (rule ktot_mono, goal_cases)
    case (1 i t)
    then obtain y where "bread_rel (bufs s) (memdisk s) b i y" "bufs t = (bufs s)[i := y]"
      by (auto simp: disk_view_def)
    then have "clean_bufs t = clean_bufs s"
      using cache_inv_parts[OF assms(1)] by (auto simp: clean_bufs_def bread_rel_def nth_list_update)
    then show ?case
      using 1 by (auto simp: can_use_def)
  qed
qed

lemma bwrite_live:
  assumes "cache_inv s" "can_use M s" "i \<in> M" "held s b i" "unat b < disksize s"
  shows "ktot (bwrite i) (put_buf i v s) (\<lambda>_ t. can_use M t \<and> clean_bufs s \<subseteq> clean_bufs t \<and> disksize t = disksize s)"
proof -
  obtain c k where l: "lk {} c k M s"
    using assms(2) by (auto simp: can_use_def)
  let ?s = "put_buf i v s"
  have i: "i < NBUF" "i < length (bufs s)" "bdev (bufs s ! i) = 1" "blockno (bufs s ! i) = b"
    using assms(4) cache_inv_parts[OF assms(1)] by (auto simp: held_def holds_def)
  then have s: "i < length (bufs ?s)" "bdev (bufs ?s ! i) = 1" "unat (blockno (bufs ?s ! i)) < disksize ?s"
      "disksize ?s = disksize s"
    using assms(5) by (simp_all add: put_buf_def upd_buf_def)
  have "lk {} c k M ?s"
    using l by (simp add: put_buf_def)
  from ktot_kpost[OF bwrite_runs[OF this i(1) assms(3) s(1-3)] bwrite_spec[OF s(1)]] show ?thesis
  proof (rule ktot_mono, goal_cases)
    case (1 x t)
    let ?y = "(bufs ?s ! i)\<lparr>bflags := (bflags (bufs ?s ! i) OR B_DIRTY) AND NOT B_DIRTY OR B_VALID\<rparr>"
    have t: "bufs t = (bufs ?s)[i := ?y]"
      using 1 by (simp add: disk_view_def)
    moreover have "\<not> dirty ?y"
      using flag_bits(3)[of "bflags (bufs ?s ! i) OR B_DIRTY"] by (simp add: dirty_def)
    moreover have "j \<noteq> i \<Longrightarrow> bufs ?s ! j = bufs s ! j" for j
      by (simp add: put_buf_def upd_buf_def)
    ultimately have "clean_bufs s \<subseteq> clean_bufs t"
      using i(1) s(1) by (auto simp: clean_bufs_def nth_list_update)
    then show ?case
      using 1 s(4) by (auto simp: can_use_def)
  qed
qed

lemma brelse_live:
  assumes "cache_inv s" "can_use M s" "i \<in> M" "held s b i"
  shows "ktot (brelse i) s (\<lambda>_ t. can_use (M - {i}) t \<and> clean_bufs t = clean_bufs s \<and> disksize t = disksize s)"
proof -
  obtain c k where l: "lk {} c k M s"
    using assms(2) by (auto simp: can_use_def)
  have i: "i < NBUF" and ok: "cache_ok (bufs s)" and len: "length (bufs s) = Suc NBUF"
    using assms(4) cache_inv_parts[OF assms(1)] by (auto simp: held_def)
  from ktot_kpost[OF brelse_runs[OF l i assms(3)] brelse_spec[OF ok i]] show ?thesis
  proof (rule ktot_mono, goal_cases)
    case (1 x t)
    then have p: "map payload (bufs t) = map payload ((bufs s)[i := (bufs s ! i)\<lparr>refcnt := refcnt (bufs s ! i) - 1\<rparr>])"
      by (auto simp: disk_view_def)
    have "image_of (bufs t ! j) = image_of (bufs s ! j)" if "j < NBUF" for j
      using p len that by (rule image_relse)
    then have "clean_bufs t = clean_bufs s"
      by (auto simp: clean_bufs_def image_of_def dirty_def)
    then show ?case
      using 1 by (auto simp: can_use_def)
  qed
qed

interpretation live: live_cache "bread 1" bwrite brelse "\<lambda>s i. bdata (bufs s ! i)" put_buf cache_inv
    contents memdisk writes held pins bio_state.more can_use clean_bufs disksize
  by unfold_locales (rule bread_live bwrite_live brelse_live; assumption)+


section \<open>The log\<close>

definition in_range :: "'x log_state_scheme \<Rightarrow> bool" where
  "in_range s \<longleftrightarrow> unat (log_start s) + 30 < disksize s \<and> list_all (\<lambda>h. unat h < disksize s) (homes s)"

lemma in_range_cong: "bio_state.more t = bio_state.more s \<Longrightarrow> disksize t = disksize s \<Longrightarrow> in_range t = in_range s"
  for s t :: "'x log_state_scheme"
  using same_log[of t s] by (simp add: in_range_def)

lemma in_range_blocks:
  assumes "log_ok s" "in_range s" "i < nat (lh_n s)"
  shows "unat (log_block s i) < disksize s" "unat (homes s ! i) < disksize s"
  using assms unat_log_block[OF assms(1) log_ok_less[OF assms(1,3)]] log_ok_less[OF assms(1,3)] homes_nth(1)[OF assms(1)]
  by (auto simp: in_range_def list_all_length)

lemma idle_step:
  assumes "ktot m s (\<lambda>_ t. can_use {} t \<and> clean_bufs s \<subseteq> clean_bufs t \<and> disksize t = disksize s)"
    "kpost m s (\<lambda>_ t. cache.wrote t d c w m' (pins s))" "live.idle s"
  shows "ktot m s (\<lambda>_ t. live.idle t \<and> bio_state.more t = m' \<and> disksize t = disksize s)"
proof (rule ktot_mono[OF ktot_kpost[OF assms(1,2)]], goal_cases)
  case (1 x t)
  then show ?case
    using live.idle_wrote[OF assms(3), of t d c w m'] wroteD[of t d c w m' "pins s"] by simp
qed

lemma idle_quiet: "live.idle s \<Longrightarrow> quiet s"
  by (simp add: live.idle_def)

lemma install_block_runs:
  assumes "live.idle s" "log_ok s" "in_range s" "i < nat (lh_n s)"
  shows "ktot (install_block i) s (\<lambda>_ t. live.idle t \<and> bio_state.more t = bio_state.more s \<and> disksize t = disksize s)"
proof (rule idle_step[OF _ install_block_spec[OF idle_quiet[OF assms(1)] assms(2,4)] assms(1)])
  have "i < 30" "log_dev s = 1" "lh_block s ! i = homes s ! i"
    using log_ok_less[OF assms(2,4)] assms(2) homes_nth(2)[OF assms(2,4)] by (auto simp: log_ok_def)
  then show "ktot (install_block i) s (\<lambda>_ t. can_use {} t \<and> clean_bufs s \<subseteq> clean_bufs t \<and> disksize t = disksize s)"
    using live.copy_to_second_runs[OF assms(1), of "log_block s i" "homes s ! i"] home_apart(1)[OF assms(2) _ assms(4), of i]
      in_range_blocks[OF assms(2-4)]
    by (simp add: install_block_def ktot_simp log_block_def put_buf_def)
qed

lemma write_log_block_runs:
  assumes "live.idle s" "log_ok s" "in_range s" "i < nat (lh_n s)"
  shows "ktot (write_log_block i) s (\<lambda>_ t. live.idle t \<and> bio_state.more t = bio_state.more s \<and> disksize t = disksize s)"
proof (rule idle_step[OF _ write_log_block_spec[OF idle_quiet[OF assms(1)] assms(2,4)] assms(1)])
  have "i < 30" "log_dev s = 1" "lh_block s ! i = homes s ! i"
    using log_ok_less[OF assms(2,4)] assms(2) homes_nth(2)[OF assms(2,4)] by (auto simp: log_ok_def)
  then show "ktot (write_log_block i) s (\<lambda>_ t. can_use {} t \<and> clean_bufs s \<subseteq> clean_bufs t \<and> disksize t = disksize s)"
    using live.copy_to_first_runs[OF assms(1), of "log_block s i" "homes s ! i"] home_apart(1)[OF assms(2) _ assms(4), of i]
      in_range_blocks[OF assms(2-4)]
    by (simp add: write_log_block_def ktot_simp log_block_def put_buf_def)
qed

lemma write_head_runs:
  fixes s :: "'x log_state_scheme"
  assumes "live.idle s" "log_dev s = 1" "unat (log_start s) < disksize s"
  shows "ktot write_head s (\<lambda>_ t. live.idle t \<and> bio_state.more t = bio_state.more s \<and> disksize t = disksize s)"
proof (rule idle_step[OF _ write_head_spec[OF idle_quiet[OF assms(1)] assms(2)] assms(1)])
  let ?g = "\<lambda>d. head_with d (lh_n s) (homes s)"
  have "bufset (\<lambda>x. x\<lparr>bdata := ?g (bdata x)\<rparr>) i =
      (kmodify (\<lambda>s. put_buf i (?g (bdata (bufs s ! i))) s) :: ('x log_state_scheme, unit) kernel)" for i
    by (rule ext) (simp add: bufset_def put_buf_def upd_buf_def)
  then have "write_head s = kbind (bread 1 (log_start s)) (\<lambda>i. kseq
      [kmodify (\<lambda>s. put_buf i (?g (bdata (bufs s ! i))) s), bwrite i, brelse i]) s"
    using assms(2) by (simp only: write_head_def kbind_run kgets_run prod.case homes_def head_with_def)
  then show "ktot write_head s (\<lambda>_ t. can_use {} t \<and> clean_bufs s \<subseteq> clean_bufs t \<and> disksize t = disksize s)"
    using live.read_modify_write_runs[OF assms(1,3), of ?g] by (simp only: ktot_def)
qed

lemma log_loop_runs:
  fixes s :: "'x log_state_scheme"
  assumes "live.idle s" "log_ok s" "in_range s"
  shows "ktot write_log s (\<lambda>_ t. live.idle t \<and> bio_state.more t = bio_state.more s \<and> disksize t = disksize s)"
    and "ktot install_trans s (\<lambda>_ t. live.idle t \<and> bio_state.more t = bio_state.more s \<and> disksize t = disksize s)"
proof -
  have same: "log_ok u" "in_range u" "lh_n u = lh_n s" if "bio_state.more u = bio_state.more s" "disksize u = disksize s"
    for u :: "'x log_state_scheme"
    using same_log[OF that(1)] in_range_cong[OF that] assms(2,3) by simp_all
  show "ktot write_log s (\<lambda>_ t. live.idle t \<and> bio_state.more t = bio_state.more s \<and> disksize t = disksize s)"
    unfolding write_log_def ktot_simps
  proof (rule live.loop_runs[OF _ assms(1)])
    fix i and u :: "'x log_state_scheme"
    assume u: "i < nat (lh_n s)" "live.idle u" "bio_state.more u = bio_state.more s" "disksize u = disksize s"
    show "ktot (write_log_block i) u (\<lambda>_ t. live.idle t \<and> bio_state.more t = bio_state.more s \<and> disksize t = disksize s)"
      using write_log_block_runs[OF u(2) same(1,2)[OF u(3,4)]] u same(3)[OF u(3,4)] by simp
  qed
  show "ktot install_trans s (\<lambda>_ t. live.idle t \<and> bio_state.more t = bio_state.more s \<and> disksize t = disksize s)"
    unfolding install_trans_def ktot_simps
  proof (rule live.loop_runs[OF _ assms(1)])
    fix i and u :: "'x log_state_scheme"
    assume u: "i < nat (lh_n s)" "live.idle u" "bio_state.more u = bio_state.more s" "disksize u = disksize s"
    show "ktot (install_block i) u (\<lambda>_ t. live.idle t \<and> bio_state.more t = bio_state.more s \<and> disksize t = disksize s)"
      using install_block_runs[OF u(2) same(1,2)[OF u(3,4)]] u same(3)[OF u(3,4)] by simp
  qed
qed

lemma idle_update:
  fixes s :: "'x log_state_scheme"
  shows "live.idle (s\<lparr>lh_n := n\<rparr>) = live.idle s"
proof -
  have "can_use {} (s\<lparr>lh_n := n\<rparr>) = can_use {} s"
    by (simp add: can_use_def lk_def cur_def nest_cong[of "s\<lparr>lh_n := n\<rparr>" s])
  moreover have "clean_bufs (s\<lparr>lh_n := n\<rparr>) = clean_bufs s" "pins (s\<lparr>lh_n := n\<rparr>) = pins s"
    by (simp_all add: clean_bufs_def pins_def fun_eq_iff)
  ultimately show ?thesis
    by (simp add: live.idle_def live.spares_def quiet_update)
qed

lemma commit_runs:
  fixes s :: "'x log_state_scheme"
  assumes "live.idle s" "log_ok s" "in_range s"
  shows "ktot commit s (\<lambda>_ t. live.idle t \<and> disksize t = disksize s)"
proof (cases "lh_n s > 0")
  case False
  then show ?thesis
    using assms(1) by (simp add: commit_def ktot_simps)
next
  case True
  have dev: "log_dev u = 1" "unat (log_start u) < disksize u" "log_ok u" "in_range u"
    if "bio_state.more u = bio_state.more s" "disksize u = disksize s" for u :: "'x log_state_scheme"
    using same_log[OF that(1)] in_range_cong[OF that] assms(2,3) that(2) by (simp_all add: log_ok_def in_range_def)
  show ?thesis
    unfolding commit_def ktot_simps if_P[OF True]
  proof (rule ktot_mono[OF log_loop_runs(1)[OF assms]], goal_cases)
    case (1 x1 u1)
    then have u1: "live.idle u1" "bio_state.more u1 = bio_state.more s" "disksize u1 = disksize s"
      by blast+
    show ?case
    proof (rule ktot_mono[OF write_head_runs[OF u1(1) dev(1,2)[OF u1(2,3)]]], goal_cases)
      case (1 x2 u2)
      then have u2: "live.idle u2" "bio_state.more u2 = bio_state.more s" "disksize u2 = disksize s"
        using u1 by simp_all
      show ?case
      proof (rule ktot_mono[OF log_loop_runs(2)[OF u2(1) dev(3,4)[OF u2(2,3)]]], goal_cases)
        case (1 x3 u3)
        then have u3: "live.idle u3" "bio_state.more u3 = bio_state.more s" "disksize u3 = disksize s"
          using u2 by simp_all
        let ?u = "u3\<lparr>lh_n := 0\<rparr>"
        have "live.idle ?u" "log_dev ?u = 1" "unat (log_start ?u) < disksize ?u"
          using u3(1) dev(1,2)[OF u3(2,3)] by (simp_all add: idle_update)
        from write_head_runs[OF this] show ?case
          using u3(3) by simp (auto elim: ktot_mono)
      qed
    qed
  qed
qed


lemma with_head_can: "can_use M (with_head d s) = can_use M s" "clean_bufs (with_head d s) = clean_bufs s"
    "disksize (with_head d s) = disksize s"
proof -
  have "nest c n {} (with_head d s) = nest c n {} s" for c n
    by (rule nest_cong) (simp_all add: with_head_def)
  moreover have "cur c (with_head d s) = cur c s" "procs (with_head d s) = procs s" "sleeplocks (with_head d s) = sleeplocks s" for c
    by (simp_all add: cur_def with_head_def)
  ultimately show "can_use M (with_head d s) = can_use M s"
    by (simp add: can_use_def lk_def)
qed (simp_all add: clean_bufs_def with_head_def)

lemma read_head_runs:
  fixes s :: "'x log_state_scheme"
  assumes "live.idle s" "log_dev s = 1" "unat (log_start s) < disksize s" "head_count (contents s (log_start s)) \<le> 30"
  shows "ktot read_head s (\<lambda>_ t. live.idle t \<and> bio_state.more t = bio_state.more (with_head (contents s (log_start s)) s) \<and>
    disksize t = disksize s)"
proof (rule idle_step[OF _ read_head_spec[OF idle_quiet[OF assms(1)] assms(2)] assms(1)])
  have "ktot (kbind (bread 1 (log_start s)) (\<lambda>i. \<lambda>u. let d = bdata (bufs u ! i) in
      (if head_count d > LOGSIZE then kstop Fault else kbind (kmodify (with_head d)) (\<lambda>_. brelse i)) u)) s
      (\<lambda>_ t. can_use {} t \<and> clean_bufs s \<subseteq> clean_bufs t \<and> disksize t = disksize s)"
    unfolding ktot_simp(5)
  proof (rule ktot_mono[OF live.read_runs[OF assms(1,3)]], goal_cases)
    case (1 i u)
    then have u: "can_use {i} u" "clean_bufs u = clean_bufs s" "disksize u = disksize s" "cache_inv u" "held u (log_start s) i"
        "bdata (bufs u ! i) = contents s (log_start s)"
      using cache.held_dat[of u "log_start s" i] by simp_all
    let ?d = "contents s (log_start s)"
    have w: "cache_inv (with_head ?d u)" "can_use {i} (with_head ?d u)" "held (with_head ?d u) (log_start s) i"
      using u by (simp_all add: with_head_can)
    have "ktot (brelse i) (with_head ?d u) (\<lambda>_ t. can_use {} t \<and> clean_bufs s \<subseteq> clean_bufs t \<and> disksize t = disksize s)"
      by (rule ktot_mono[OF live.rel_runs[OF w(1,2) _ w(3)]]) (use u in \<open>auto simp: with_head_can\<close>)
    then show ?case
      using assms(4) by (simp add: u(6) ktot_def)
  qed
  then show "ktot read_head s (\<lambda>_ t. can_use {} t \<and> clean_bufs s \<subseteq> clean_bufs t \<and> disksize t = disksize s)"
    using read_head_run[OF assms(2)] by (simp only: ktot_def)
qed

lemma recover_runs:
  fixes r :: "'x log_state_scheme"
  assumes "booted d st r" "live.idle r" "unat st + 30 < 2 ^ 32" "unat st + 30 < disksize r"
    "0 \<le> head_count (d (unat st))" "head_count (d (unat st)) \<le> 30"
    "list_all (\<lambda>h. (unat h < unat st \<or> unat st + 30 < unat h) \<and> unat h < disksize r) (head_homes (d (unat st)))"
  shows "ktot recover_from_log r (\<lambda>_ t. live.idle t \<and> disksize t = disksize r)"
proof -
  let ?h = "d (unat st)" and ?r = "with_head (d (unat st)) r"
  have r: "log_dev r = 1" "log_start r = st" "length (lh_block r) = 30" "contents r st = ?h"
    using assms(1) booted_contents[OF assms(1), of st] by (simp_all add: booted_def)
  have wh: "lh_n ?r = head_count ?h" "homes ?r = head_homes ?h" "length (lh_block ?r) = 30"
    using with_head_homes[OF assms(5,6) r(3)] by simp_all
  have ok: "log_ok ?r" "in_range ?r"
    using assms(3-7) wh r by (auto simp: log_ok_def in_log_def list_all_iff in_range_def with_head_can)
  have dev: "log_dev u = 1" "unat (log_start u) < disksize u" "log_ok u" "in_range u"
    if "bio_state.more u = bio_state.more ?r" "disksize u = disksize r" for u :: "'x log_state_scheme"
    using same_log[OF that(1)] in_range_cong[OF that(1)] ok that(2) by (simp_all add: log_ok_def in_range_def with_head_can)
  have s: "unat (log_start r) < disksize r" "head_count (contents r (log_start r)) \<le> 30"
    using assms(4,6) r by simp_all
  show ?thesis
    unfolding recover_from_log_def ktot_simps
  proof (rule ktot_mono[OF read_head_runs[OF assms(2) r(1) s, unfolded r(2,4)]], goal_cases)
    case (1 x u1)
    then have u1: "live.idle u1" "bio_state.more u1 = bio_state.more ?r" "disksize u1 = disksize r"
      by blast+
    show ?case
    proof (rule ktot_mono[OF log_loop_runs(2)[OF u1(1) dev(3,4)[OF u1(2,3)]]], goal_cases)
      case (1 y u2)
      then have u2: "live.idle u2" "bio_state.more u2 = bio_state.more ?r" "disksize u2 = disksize r"
        using u1 by simp_all
      let ?u = "u2\<lparr>lh_n := 0\<rparr>"
      have "live.idle ?u" "log_dev ?u = 1" "unat (log_start ?u) < disksize ?u"
        using u2(1) dev(1,2)[OF u2(2,3)] by (simp_all add: idle_update)
      from write_head_runs[OF this] show ?case
        using u2(3) by simp (auto elim: ktot_mono)
    qed
  qed
qed


section \<open>A transaction is atomic\<close>

lemma crash_recovered:
  fixes k :: nat
  assumes "log_clean s"
  defines "d \<equiv> crash_disk k s" and "st \<equiv> unat (log_start s)"
  shows "head_count (d st) = 0 \<or> d st = full_head s"
    and "\<not> in_log s b \<Longrightarrow> recovered st d b = (if k \<le> nat (lh_n s) then memdisk s b else committed s b)"
    and "length (commit_trace s) \<le> k \<Longrightarrow> \<forall>b. \<not> in_log s b \<longrightarrow> d b = committed s b"
proof -
  have start: "b \<noteq> st" if "\<not> in_log s b" for b
    using that start_in_log[of s] by (auto simp: st_def)
  have ok: "log_ok s"
    using assms(1) by (simp add: log_clean_def)
  consider (none) "lh_n s = 0" | (early) "lh_n s > 0" "k \<le> nat (lh_n s)"
    | (middle) "lh_n s > 0" "nat (lh_n s) < k" "k \<le> 2 * nat (lh_n s) + 1" | (late) "lh_n s > 0" "2 * nat (lh_n s) + 1 < k"
    using ok by (fastforce simp: log_ok_def)
  note cases = this
  have len: "lh_n s > 0 \<Longrightarrow> length (commit_trace s) = 2 * nat (lh_n s) + 2"
    by (simp add: commit_trace_def log_part_def home_part_def)
  have none: "d = memdisk s" "committed s b = memdisk s b" "head_count (d st) = 0" if "lh_n s = 0" for b
    using that assms(1) by (simp_all add: d_def crash_disk_def commit_trace_def committed_def homes_def log_clean_def st_def)
  show "head_count (d st) = 0 \<or> d st = full_head s"
    using cases none(3) crash_early(1)[OF assms(1)] crash_middle(1)[OF assms(1)] crash_late(1)[OF assms(1)]
    unfolding d_def st_def by cases blast+
  show "recovered st d b = (if k \<le> nat (lh_n s) then memdisk s b else committed s b)" if b: "\<not> in_log s b"
    using cases
  proof cases
    case none
    then show ?thesis
      using \<open>\<And>b. lh_n s = 0 \<Longrightarrow> committed s b = memdisk s b\<close> \<open>lh_n s = 0 \<Longrightarrow> d = memdisk s\<close>
        \<open>lh_n s = 0 \<Longrightarrow> head_count (d st) = 0\<close> recovered_empty[of d st b] start[OF b] by simp
  next
    case early
    then show ?thesis
      using crash_early[OF assms(1) early(2)] recovered_empty[of d st b] start[OF b] b unfolding d_def st_def by simp
  next
    case middle
    then show ?thesis
      using recovered_middle[OF assms(1) middle(2,3,1) b] unfolding d_def st_def by simp
  next
    case late
    then show ?thesis
      using crash_late[OF assms(1) late(2,1)] recovered_empty[of d st b] start[OF b] b unfolding d_def st_def by simp
  qed
  show "\<forall>b. \<not> in_log s b \<longrightarrow> d b = committed s b" if "length (commit_trace s) \<le> k"
    using cases
  proof cases
    case none
    then show ?thesis
      using \<open>\<And>b. lh_n s = 0 \<Longrightarrow> committed s b = memdisk s b\<close> \<open>lh_n s = 0 \<Longrightarrow> d = memdisk s\<close>
        by simp
  next
    case late
    then show ?thesis
      using crash_late(2)[OF assms(1) late(2,1)] unfolding d_def by simp
  qed (use that len in auto)
qed

definition ready_to_commit :: "'x log_state_scheme \<Rightarrow> bool" where
  "ready_to_commit s \<longleftrightarrow> live.idle s \<and> log_clean s \<and> in_range s"

definition restarted :: "(nat \<Rightarrow> block) \<Rightarrow> 'x log_state_scheme \<Rightarrow> 'y log_state_scheme \<Rightarrow> bool" where
  "restarted d s r \<longleftrightarrow> booted d (log_start s) r \<and> live.idle r \<and> disksize r = disksize s"

lemma commit_total:
  assumes "ready_to_commit s"
  shows "\<exists>t. commit s = Inr ((), t) \<and> memdisk t = store_all (memdisk s) (commit_trace s) \<and>
    writes t = writes s @ commit_trace s \<and> lh_n t = 0 \<and> (\<forall>b. \<not> in_log s b \<longrightarrow> memdisk t b = committed s b)"
proof -
  have s: "live.idle s" "log_ok s" "in_range s" "log_clean s"
    using assms by (auto simp: ready_to_commit_def log_clean_def)
  obtain t where t: "commit s = Inr ((), t)" "memdisk t = store_all (memdisk s) (commit_trace s)"
      "writes t = writes s @ commit_trace s" "bio_state.more t = bio_state.more (s\<lparr>lh_n := 0\<rparr>)"
    using ktot_kpost[OF commit_runs[OF s(1-3)] commit_spec[OF idle_quiet[OF s(1)] s(2)]] by (auto simp: ktot_def)
  have "lh_n t = 0"
    using same_log(3)[OF t(4)] by simp
  moreover have "memdisk t b = committed s b" if "\<not> in_log s b" for b
    using crash_recovered(3)[OF s(4), of "length (commit_trace s)"] t(2) that by (simp add: crash_disk_def)
  ultimately show ?thesis
    using t(1-3) by blast
qed

lemma recover_total:
  assumes "ready_to_commit s" "restarted (crash_disk k s) s r"
  shows "\<exists>u. recover_from_log r = Inr ((), u) \<and> lh_n u = 0 \<and>
    (\<forall>b. \<not> in_log s b \<longrightarrow> memdisk u b = (if k \<le> nat (lh_n s) then memdisk s b else committed s b))"
proof -
  have s: "log_ok s" "in_range s" "log_clean s" "length (contents s (log_start s)) = BSIZE"
    using assms(1) by (auto simp: ready_to_commit_def log_clean_def)
  have r: "booted (crash_disk k s) (log_start s) r" "live.idle r" "disksize r = disksize s"
    using assms(2) by (simp_all add: restarted_def)
  let ?h = "crash_disk k s (unat (log_start s))"
  have st: "unat (log_start s) + 30 < 2 ^ 32" "unat (log_start s) + 30 < disksize r"
    using s(1,2) r(3) by (simp_all add: log_ok_def in_range_def)
  have h: "0 \<le> head_count ?h \<and> head_count ?h \<le> 30 \<and> list_all (\<lambda>h. (unat h < unat (log_start s) \<or>
      unat (log_start s) + 30 < unat h) \<and> unat h < disksize r) (head_homes ?h)"
    using crash_recovered(1)[OF s(3), of k]
  proof
    assume "head_count ?h = 0"
    then show ?thesis
      by (simp add: head_homes_def)
  next
    assume "?h = full_head s"
    then show ?thesis
      using full_head[OF s(1,4)] s(1,2) r(3) by (auto simp: log_ok_def in_range_def list_all_iff in_log_def)
  qed
  then have "list_all (\<lambda>h. unat h < unat (log_start s) \<or> unat (log_start s) + 30 < unat h) (head_homes ?h)"
    by (auto simp: list_all_iff)
  then obtain u where "recover_from_log r = Inr ((), u)" "memdisk u = recovered (unat (log_start s)) (crash_disk k s)" "lh_n u = 0"
    using ktot_kpost[OF recover_runs[OF r(1,2) st] recover_spec[OF r(1) st(1)]] h by (auto simp: ktot_def)
  then show ?thesis
    using crash_recovered(2)[OF s(3)] by auto
qed


text \<open>
  C21: A transaction is atomic.  A commit returns, having written the log, the header, the home blocks and the
  empty header, in this order; the disk then holds the contents of the transaction.  If the machine stops after
  any number \<open>k\<close> of these writes and is started on what is then on the disk, \<open>recover_from_log\<close> returns, and
  outside the log the disk is as before the transaction if the header had not been written, and as after it
  otherwise.
\<close>

theorem commit_crash_atomic:
  assumes "ready_to_commit s" "restarted (crash_disk k s) s r"
  shows "\<exists>t u. commit s = Inr ((), t) \<and> writes t = writes s @ commit_trace s \<and> lh_n t = 0 \<and>
    (\<forall>b. \<not> in_log s b \<longrightarrow> memdisk t b = committed s b) \<and>
    recover_from_log r = Inr ((), u) \<and> lh_n u = 0 \<and>
    (\<forall>b. \<not> in_log s b \<longrightarrow> memdisk u b = (if k \<le> nat (lh_n s) then memdisk s b else committed s b))"
  using commit_total[OF assms(1)] recover_total[OF assms] by blast

text \<open>A transaction of one block: block 100 is in the first buffer, changed and logged.\<close>

definition ring_buf :: "nat \<Rightarrow> buf" where
  "ring_buf i = buf0\<lparr>bnext := (i + 1) mod 31, bprev := (i + 30) mod 31\<rparr>"

definition log1 :: "unit log_state_scheme" where
  "log1 = (bio2 \<lparr>log_start = 2, log_size = 30, outstanding = 0, committing = True, log_dev = 1, lh_n = 1,
     lh_block = 100 # replicate 29 0\<rparr>)
     \<lparr>bufs := (map ring_buf [0..<31])[0 := (ring_buf 0)\<lparr>bflags := 6, bdev := 1, blockno := 100, bdata := replicate 512 9\<rparr>],
      memdisk := (\<lambda>_. replicate 512 0)\<rparr>"

definition reboot1 :: "nat \<Rightarrow> unit log_state_scheme" where
  "reboot1 k = log1\<lparr>bufs := map ring_buf [0..<31], memdisk := crash_disk k log1\<rparr>"

lemma nth_ring_buf: "i < 31 \<Longrightarrow> map ring_buf [0..<31] ! i = ring_buf i"
  by (simp only: nth_map length_upt nth_upt add_0 diff_zero)

lemma ring_bufs: "ring (map ring_buf [0..<31]) [0..<30]"
proof -
  have u: "[0..<30] = [0,1,2,3,4,5,6,7,8,9,10,11,12,13,14,15,16,17,18,19,20,21,22,23,24,25,26,27,28,29::nat]"
    by (simp add: upt_rec)
  have "linked (map ring_buf [0..<31]) bhead [0..<30] bhead"
    unfolding u by (simp add: nth_ring_buf ring_buf_def buf0_def del: upt_rec_numeral)
  then show ?thesis
    by (simp add: ring_def atLeast0LessThan)
qed

definition log1_bufs :: "buf list" where
  "log1_bufs = (map ring_buf [0..<31])[0 := (ring_buf 0)\<lparr>bflags := 6, bdev := 1, blockno := 100, bdata := replicate 512 9\<rparr>]"

lemma log1_fields:
  "bufs log1 = log1_bufs" "memdisk log1 = (\<lambda>_. replicate 512 0)" "disksize log1 = 1000" "writes log1 = []"
  "log_start log1 = 2" "log_dev log1 = 1" "lh_n log1 = 1" "lh_block log1 = 100 # replicate 29 0"
  "cpus log1 = [cpu0\<lparr>cpu_proc := Some 0\<rparr>, cpu0\<lparr>apicid := 1\<rparr>]" "procs log1 = procs2"
  "sleeplocks log1 = (\<lambda>_. \<lparr>sl_locked = 0, sl_name = [], sl_pid = 0\<rparr>)"
  unfolding log1_def log1_bufs_def[symmetric]
  by (simp_all add: bio2_def proc2_def cons1_def kmem3_def mach2_def)

lemma log1_nest: "nest 0 0 {} log1"
proof -
  have "this_cpu log1 = Some 0"
    by (simp add: this_cpu_def lapic_id_def first_index_def log1_fields cpu0_def)
      (simp add: log1_def bio2_def proc2_def cons1_def kmem3_def mach2_def)
  moreover have "irq 0 log1 = (0x200, 0, 0)" "locks log1 l = lock0" for l
    by (simp_all add: irq_def log1_fields cpu0_def)
      (simp_all add: log1_def bio2_def proc2_def cons1_def kmem3_def mach2_def)
  ultimately show ?thesis
    by (simp add: nest_def irq_ok_def log1_fields lock0_def cpu0_def)
qed

lemma log1_nth: "i < 31 \<Longrightarrow> log1_bufs ! i =
    (if i = 0 then (ring_buf 0)\<lparr>bflags := 6, bdev := 1, blockno := 100, bdata := replicate 512 9\<rparr> else ring_buf i)"
  by (simp add: log1_bufs_def nth_list_update nth_ring_buf del: upt_rec_numeral)

lemma ring_buf_fields [simp]: "refcnt (ring_buf i) = 0" "bdev (ring_buf i) = 0" "bflags (ring_buf i) = 0"
  by (simp_all add: ring_buf_def buf0_def)

lemma log1_cache: "cache_ok log1_bufs" "coherent log1_bufs d"
proof -
  have "ring log1_bufs [0..<30]"
    unfolding log1_bufs_def by (rule ring_update[OF ring_bufs]) simp_all
  moreover have "unique_blocks log1_bufs"
    by (auto simp: unique_blocks_def log1_nth)
  ultimately show "cache_ok log1_bufs"
    by (auto simp: cache_ok_def)
  show "coherent log1_bufs d"
    by (auto simp: coherent_def log1_nth dirty_def valid_def)
qed

lemma boot_cache: "cache_ok (map ring_buf [0..<31])" "coherent (map ring_buf [0..<31]) d"
  using ring_bufs by (auto simp: cache_ok_def unique_blocks_def coherent_def nth_ring_buf simp del: upt_rec_numeral)

lemma log1_lk:
  assumes "cpus s = cpus log1" "ncpu s = ncpu log1" "lapic s = lapic log1" "hw s = hw log1" "this s = this log1"
    "locks s = locks log1" "procs s = procs log1" "sleeplocks s = sleeplocks log1"
  shows "can_use {} s"
proof -
  have "nest 0 0 {} s"
    using log1_nest nest_cong[of s log1] assms by simp
  moreover have "cur 0 s = Some 0" "0 < length (procs s)"
    using assms by (simp_all add: cur_def log1_fields procs2_def)
  ultimately have "lk {} 0 0 {} s"
    using assms(8) by (auto simp: lk_def own_lock_def log1_fields)
  then show ?thesis
    by (auto simp: can_use_def)
qed

lemma idleI:
  assumes "cache_inv s" "can_use {} s" "\<And>i. i < NBUF \<Longrightarrow> refcnt (bufs s ! i) = 0" "\<not> dirty (bufs s ! 1)" "\<not> dirty (bufs s ! 2)"
  shows "live.idle s"
proof -
  have "pins s i = 0" for i
    using assms(3) by (simp add: pins_def)
  then have "1 \<in> live.spares s" "2 \<in> live.spares s" "quiet s"
    using assms(1,4,5) by (simp_all add: cache.quiet_def live.spares_def clean_bufs_def)
  moreover have "(1 :: nat) \<noteq> 2"
    by simp
  ultimately show ?thesis
    using assms(2) unfolding live.idle_def by blast
qed

lemma log1_idle: "live.idle log1"
  by (rule idleI) (auto simp: cache_inv_def log1_fields log1_cache log1_nth dirty_def intro!: log1_lk)

lemma reboot1_idle: "live.idle (reboot1 k)"
  by (rule idleI) (auto simp: cache_inv_def reboot1_def boot_cache nth_ring_buf dirty_def intro!: log1_lk simp del: upt_rec_numeral)

lemma log1_ready: "ready_to_commit log1"
proof -
  have h: "homes log1 = [100]"
    by (simp add: homes_def log1_fields)
  have "\<not> holds log1_bufs 2 i" if "i < NBUF" for i
    using that by (auto simp: holds_def log1_nth)
  then have "contents log1 2 = replicate 512 0"
    unfolding contents_def log1_fields by (subst content_none) auto
  moreover have "get32 (replicate 512 0) 0 = 0"
    by (simp add: get32_def)
  ultimately show ?thesis
    using log1_idle by (simp add: ready_to_commit_def log_clean_def log_ok_def in_range_def in_log_def h log1_fields head_count_def)
qed

lemma reboot1_restarted: "restarted (crash_disk k log1) log1 (reboot1 k)"
  using reboot1_idle[of k] idle_quiet[OF reboot1_idle[of k]]
  by (auto simp: restarted_def booted_def reboot1_def log1_fields nth_ring_buf simp del: upt_rec_numeral)

theorem commit_crash_atomic_witness:
  "\<exists>t u. commit log1 = Inr ((), t) \<and> memdisk t 100 = replicate 512 9 \<and>
     recover_from_log (reboot1 2) = Inr ((), u) \<and> memdisk u 100 = replicate 512 9"
proof -
  have "unat (100 :: u32) \<in> unat ` set (homes log1)"
    by (simp add: homes_def log1_fields)
  moreover have "contents log1 100 = replicate 512 9"
    unfolding contents_def log1_fields
    by (subst content_holds[of _ 0]) (use log1_cache(1) in \<open>simp_all add: cache_ok_def holds_def valid_def log1_nth\<close>)
  ultimately have "committed log1 100 = replicate 512 9" "\<not> in_log log1 100"
    by (simp_all add: committed_def in_log_def log1_fields)
  then show ?thesis
    using commit_crash_atomic[OF log1_ready reboot1_restarted[of 2]] by (auto simp: log1_fields)
qed

end
