(* ===== verification/Grep.thy ===== *)
theory Grep
  imports Main
begin

text \<open>
  The pattern matcher and the line buffer of \<open>src/grep.c\<close>.  A C string is the list of its characters before
  the NUL, so \<open>re[1]\<close> of a string of one character is the NUL.
\<close>

section \<open>The matcher\<close>

fun matchhere :: "string \<Rightarrow> string \<Rightarrow> bool"
  and matchstar :: "char \<Rightarrow> string \<Rightarrow> string \<Rightarrow> bool" where
  "matchhere [] text = True"
| "matchhere [c] text =
     (if c = CHR ''$'' then text = []
      else case text of [] \<Rightarrow> False | t # ts \<Rightarrow> (c = CHR ''.'' \<or> c = t) \<and> matchhere [] ts)"
| "matchhere (c # d # re) text =
     (if d = CHR ''*'' then matchstar c re text
      else case text of [] \<Rightarrow> False | t # ts \<Rightarrow> (c = CHR ''.'' \<or> c = t) \<and> matchhere (d # re) ts)"
| "matchstar c re text =
     (matchhere re text \<or>
      (case text of [] \<Rightarrow> False | t # ts \<Rightarrow> (t = c \<or> c = CHR ''.'') \<and> matchstar c re ts))"

fun match_from :: "string \<Rightarrow> string \<Rightarrow> bool" where
  "match_from re [] = matchhere re []"
| "match_from re (t # ts) = (matchhere re (t # ts) \<or> match_from re ts)"

definition match :: "string \<Rightarrow> string \<Rightarrow> bool" where
  "match re text = (if re \<noteq> [] \<and> hd re = CHR ''^'' then matchhere (tl re) text else match_from re text)"

section \<open>The lines\<close>

text \<open>\<open>strchr(p, '\n')\<close>: the text before the newline and the text after it.  A NUL in the data ends the search.\<close>

fun find_nl :: "string \<Rightarrow> (string \<times> string) option" where
  "find_nl [] = None"
| "find_nl (c # cs) =
     (if c = CHR 0x0A then Some ([], cs) else if c = CHR 0x00 then None
      else case find_nl cs of None \<Rightarrow> None | Some (a, b) \<Rightarrow> Some (c # a, b))"

lemma find_nl_length [termination_simp]: "find_nl s = Some (a, b) \<Longrightarrow> length b < length s"
  by (induction s arbitrary: a) (auto split: if_splits option.splits)

text \<open>The inner loop: the text of the matching lines and what is left at \<open>p\<close>.\<close>

fun grep_lines :: "string \<Rightarrow> string \<Rightarrow> string \<times> string" where
  "grep_lines re p =
     (case find_nl p of None \<Rightarrow> ([], p)
      | Some (l, q) \<Rightarrow>
          let (out, r) = grep_lines re q in ((if match re l then l @ [CHR 0x0A] else []) @ out, r))"

declare grep_lines.simps [simp del]

text \<open>
  The outer loop.  \<open>reads\<close> are the results of the calls of \<open>read\<close>; an empty one ends the loop.  When no newline
  was found (\<open>p == buf\<close>) the buffer is emptied, else what follows the last line is kept.
\<close>

fun grep_loop :: "string \<Rightarrow> string \<Rightarrow> string list \<Rightarrow> string" where
  "grep_loop re buf [] = []"
| "grep_loop re buf (rd # reads) =
     (if rd = [] then []
      else let b = buf @ rd; (out, p) = grep_lines re b in
        out @ grep_loop re (if length p = length b then [] else p) reads)"

definition grep :: "string \<Rightarrow> string list \<Rightarrow> string" where
  "grep re reads = grep_loop re [] reads"

text \<open>
  \<open>main\<close>: what is written to which descriptor.  \<open>stdin\<close> and \<open>opn\<close> give the reads of descriptor 0 and of a file,
  or that the file cannot be opened, which ends the program.
\<close>

fun grep_files :: "string \<Rightarrow> (string \<Rightarrow> string list option) \<Rightarrow> string list \<Rightarrow> (nat \<times> string) list" where
  "grep_files re opn [] = []"
| "grep_files re opn (f # fs) =
     (case opn f of None \<Rightarrow> [(1, ''grep: cannot open '' @ f @ [CHR 0x0A])]
      | Some reads \<Rightarrow> (1, grep re reads) # grep_files re opn fs)"

definition grep_main :: "string list \<Rightarrow> string list \<Rightarrow> (string \<Rightarrow> string list option) \<Rightarrow> (nat \<times> string) list" where
  "grep_main argv stdin opn =
     (if length argv \<le> 1 then [(2, ''usage: grep pattern [file ...]'' @ [CHR 0x0A])]
      else if length argv \<le> 2 then [(1, grep (argv ! 1) stdin)]
      else grep_files (argv ! 1) opn (drop 2 argv))"

section \<open>What a pattern means\<close>

text \<open>
  A pattern as a sequence of items: a character or any character, starred or not, and an end mark.
\<close>

datatype item = One char | Star char | End

fun items :: "string \<Rightarrow> item list" where
  "items [] = []"
| "items [c] = (if c = CHR ''$'' then [End] else [One c])"
| "items (c # d # re) = (if d = CHR ''*'' then Star c # items re else One c # items (d # re))"

definition sat :: "char \<Rightarrow> char \<Rightarrow> bool" where
  "sat c t \<longleftrightarrow> c = CHR ''.'' \<or> c = t"

text \<open>\<open>matches xs u v\<close>: the items match \<open>u\<close> when \<open>v\<close> follows it.\<close>

inductive matches :: "item list \<Rightarrow> string \<Rightarrow> string \<Rightarrow> bool" where
  Nil: "matches [] [] v"
| One: "sat c t \<Longrightarrow> matches xs u v \<Longrightarrow> matches (One c # xs) (t # u) v"
| Star: "list_all (sat c) w \<Longrightarrow> matches xs u v \<Longrightarrow> matches (Star c # xs) (w @ u) v"
| End: "matches xs u [] \<Longrightarrow> matches (End # xs) u []"

inductive_simps matches_simps: "matches [] u v" "matches (One c # xs) u v" "matches (End # xs) u v"
inductive_cases matches_StarE: "matches (Star c # xs) u v"

lemma matchstar_iff:
  assumes "\<And>t. matchhere re t \<longleftrightarrow> (\<exists>u v. t = u @ v \<and> matches xs u v)"
  shows "matchstar c re text \<longleftrightarrow> (\<exists>u v. text = u @ v \<and> matches (Star c # xs) u v)"
proof (induction "text")
  case Nil
  show ?case
    using assms[of "[]"] by (auto elim!: matches_StarE intro: matches.Star[of c "[]", simplified])
next
  case (Cons t ts)
  have "(\<exists>u v. t # ts = u @ v \<and> matches (Star c # xs) u v) \<longleftrightarrow>
      (\<exists>u v. t # ts = u @ v \<and> matches xs u v) \<or> sat c t \<and> (\<exists>u v. ts = u @ v \<and> matches (Star c # xs) u v)" (is "?l = (?a \<or> ?b)")
  proof
    assume ?l
    then obtain w u v where w: "t # ts = w @ u @ v" "list_all (sat c) w" "matches xs u v"
      by (auto elim!: matches_StarE)
    show "?a \<or> ?b"
    proof (cases w)
      case (Cons x w')
      then have "ts = (w' @ u) @ v" "sat c t" "matches (Star c # xs) (w' @ u) v"
        using w by (auto intro: matches.Star)
      then show ?thesis
        by blast
    qed (use w in auto)
  next
    assume "?a \<or> ?b"
    then show ?l
    proof
      assume ?a
      then show ?l
        using matches.Star[of c "[]"] by force
    next
      assume ?b
      then obtain w u v where "ts = (w @ u) @ v" "list_all (sat c) (t # w)" "matches xs u v"
        by (auto elim!: matches_StarE)
      then show ?l
        using matches.Star[of c "t # w" xs u v] by (intro exI[of _ "t # w @ u"] exI[of _ v]) simp
    qed
  qed
  then show ?case
    using Cons assms[of "t # ts"] by (auto simp: sat_def)
qed

lemma ex_One:
  "(\<exists>u v. t # ts = u @ v \<and> matches (One c # xs) u v) \<longleftrightarrow> sat c t \<and> (\<exists>u v. ts = u @ v \<and> matches xs u v)"
  "\<not> (\<exists>u v. [] = u @ v \<and> matches (One c # xs) u v)"
proof
  assume "\<exists>u v. t # ts = u @ v \<and> matches (One c # xs) u v"
  then obtain u v where "ts = u @ v" "sat c t" "matches xs u v"
    by (auto simp: matches_simps)
  then show "sat c t \<and> (\<exists>u v. ts = u @ v \<and> matches xs u v)"
    by blast
next
  assume "sat c t \<and> (\<exists>u v. ts = u @ v \<and> matches xs u v)"
  then obtain u v where "t # ts = (t # u) @ v" "matches (One c # xs) (t # u) v"
    by (auto intro: matches.One)
  then show "\<exists>u v. t # ts = u @ v \<and> matches (One c # xs) u v"
    by blast
qed (simp add: matches_simps)

lemma matchhere_iff: "matchhere re t \<longleftrightarrow> (\<exists>u v. t = u @ v \<and> matches (items re) u v)"
proof (induction re arbitrary: t rule: items.induct)
  case (2 c)
  show ?case
    by (cases t; cases "c = CHR ''$''") (simp_all only: matchhere.simps items.simps if_True if_False list.case ex_One,
      auto simp: matches_simps sat_def)
next
  case (3 c d re)
  show ?case
  proof (cases "d = CHR ''*''")
    case True
    then show ?thesis
      using matchstar_iff[of re "items re", OF 3(1)[OF True]] by simp
  next
    case False
    show ?thesis
      using False 3(2)[OF False] ex_One by (cases t) (simp_all add: sat_def)
  qed
qed (simp add: matches_simps)

lemma match_from_iff: "match_from re t \<longleftrightarrow> (\<exists>a u v. t = a @ u @ v \<and> matches (items re) u v)"
proof (induction t)
  case (Cons c t)
  have "(\<exists>a u v. c # t = a @ u @ v \<and> matches (items re) u v) \<longleftrightarrow>
      (\<exists>u v. c # t = u @ v \<and> matches (items re) u v) \<or> (\<exists>a u v. t = a @ u @ v \<and> matches (items re) u v)"
    by (metis append_Cons append_Nil append_eq_Cons_conv)
  then show ?case
    using Cons by (simp add: matchhere_iff)
qed (simp add: matchhere_iff)

text \<open>
  C25: The matcher decides what it should.  It terminates on every pattern and text (the functions are total); a
  pattern without a leading caret matches a text exactly when some part of the text is matched by its items, a
  pattern with a caret exactly when a part at the beginning is; a starred character stands for any number of
  characters it accepts, a dot accepts every character and a dollar at the end only the end of the text.
\<close>

theorem match_correct:
  "match re t \<longleftrightarrow>
    (if re \<noteq> [] \<and> hd re = CHR ''^'' then \<exists>u v. t = u @ v \<and> matches (items (tl re)) u v
     else \<exists>a u v. t = a @ u @ v \<and> matches (items re) u v)"
  by (simp add: match_def matchhere_iff match_from_iff)

section \<open>What a file yields\<close>

fun complete_lines :: "string \<Rightarrow> string list" where
  "complete_lines s = (case find_nl s of None \<Rightarrow> [] | Some (l, q) \<Rightarrow> l # complete_lines q)"

declare complete_lines.simps [simp del]

definition selected :: "string \<Rightarrow> string list \<Rightarrow> string" where
  "selected re ls = concat (map (\<lambda>l. l @ [CHR 0x0A]) (filter (match re) ls))"

fun rest_of :: "string \<Rightarrow> string" where
  "rest_of s = (case find_nl s of None \<Rightarrow> s | Some (l, q) \<Rightarrow> rest_of q)"

declare rest_of.simps [simp del]

lemma grep_lines_spec: "grep_lines re s = (selected re (complete_lines s), rest_of s)"
proof (induction re s rule: grep_lines.induct)
  case (1 re p)
  then show ?case
    by (subst grep_lines.simps, subst complete_lines.simps, subst rest_of.simps)
      (auto simp: selected_def split: option.splits)
qed

lemma find_nl_append: "find_nl s = Some (a, b) \<Longrightarrow> find_nl (s @ t) = Some (a, b @ t)"
  by (induction s arbitrary: a) (auto split: if_splits option.splits)

lemma find_nl_None: "CHR 0x00 \<notin> set s \<Longrightarrow> find_nl s = None \<longleftrightarrow> CHR 0x0A \<notin> set s"
  by (induction s) (auto split: option.splits)

lemma find_nl_parts: "find_nl s = Some (a, b) \<Longrightarrow> s = a @ CHR 0x0A # b"
  by (induction s arbitrary: a) (auto split: if_splits option.splits)

lemma complete_lines_append:
  "complete_lines (s @ t) = complete_lines s @ complete_lines (rest_of s @ t)"
proof (induction s rule: complete_lines.induct)
  case (1 s)
  then show ?case
    by (subst (1 2) complete_lines.simps, subst rest_of.simps)
      (auto simp: find_nl_append complete_lines.simps[of "s @ t"] split: option.splits)
qed

lemma rest_of_facts: "find_nl (rest_of s) = None" "set (rest_of s) \<subseteq> set s" "length (rest_of s) \<le> length s"
    "find_nl s \<noteq> None \<Longrightarrow> length (rest_of s) < length s"
proof -
  have "find_nl (rest_of s) = None \<and> set (rest_of s) \<subseteq> set s \<and> length (rest_of s) \<le> length s \<and>
    (find_nl s \<noteq> None \<longrightarrow> length (rest_of s) < length s)"
  proof (induction s rule: rest_of.induct)
    case (1 s)
    show ?case
    proof (cases "find_nl s")
      case None
      then show ?thesis
        by (simp add: rest_of.simps[of s])
    next
      case (Some p)
      then obtain l q where lq: "find_nl s = Some (l, q)"
        by (cases p) auto
      then have "rest_of s = rest_of q" "set q \<subseteq> set s" "length q < length s"
        using find_nl_parts[OF lq] rest_of.simps[of s] by auto
      then show ?thesis
        using 1[OF lq refl] by auto
    qed
  qed
  then show "find_nl (rest_of s) = None" "set (rest_of s) \<subseteq> set s" "length (rest_of s) \<le> length s"
    "find_nl s \<noteq> None \<Longrightarrow> length (rest_of s) < length s"
    by blast+
qed

lemma selected_append: "selected re (xs @ ys) = selected re xs @ selected re ys"
  by (simp add: selected_def)

lemma grep_loop_spec:
  assumes "list_all (\<lambda>r. CHR 0x0A \<in> set r \<and> CHR 0x00 \<notin> set r) reads" "CHR 0x00 \<notin> set buf"
  shows "reads \<noteq> [] \<Longrightarrow> grep_loop re buf reads = selected re (complete_lines (buf @ concat reads))"
  using assms
proof (induction reads arbitrary: buf)
  case (Cons rd reads)
  let ?b = "buf @ rd"
  have b: "find_nl ?b \<noteq> None"
    using Cons.prems by (subst find_nl_None) auto
  have rest: "CHR 0x00 \<notin> set (rest_of ?b)" "length (rest_of ?b) \<noteq> length ?b"
    using Cons.prems rest_of_facts(2)[of ?b] rest_of_facts(4)[OF b] by auto
  then have step: "grep_loop re buf (rd # reads) = selected re (complete_lines ?b) @ grep_loop re (rest_of ?b) reads"
    using Cons.prems by (auto simp: grep_lines_spec Let_def)
  have c: "complete_lines (buf @ concat (rd # reads)) = complete_lines ?b @ complete_lines (rest_of ?b @ concat reads)"
    using complete_lines_append[of ?b "concat reads"] by simp
  show ?case
  proof (cases "reads = []")
    case True
    then show ?thesis
      using step c rest_of_facts(1)[of ?b] by (simp add: selected_append complete_lines.simps[of "rest_of ?b"] selected_def)
  next
    case False
    then show ?thesis
      using step c Cons.IH[OF False _ rest(1)] Cons.prems by (simp add: selected_append)
  qed
qed simp





end
