(* ===== verification/Shell.thy ===== *)
theory Shell
  imports "HOL-Library.Sublist"
begin

text \<open>
  The shell, \<open>src/sh.c\<close>.  The line is a list of characters without a NUL; a pointer into it is the part of the
  line from there to its end \<open>es\<close>, so \<open>es\<close> is the empty list and what is read there is the NUL.
\<close>

section \<open>Commands\<close>

text \<open>A word of the line is a pair of pointers, to its first character and behind its last.\<close>

type_synonym span = "string \<times> string"

datatype 'a cmd =
    EXEC "'a list"
  | REDIR "'a cmd" 'a nat nat
  | PIPE "'a cmd" "'a cmd"
  | LIST "'a cmd" "'a cmd"
  | BACK "'a cmd"

abbreviation (input) MAXARGS :: nat where "MAXARGS \<equiv> 10"
abbreviation (input) O_RDONLY :: nat where "O_RDONLY \<equiv> 0"
abbreviation (input) O_WRONLY_CREATE :: nat where "O_WRONLY_CREATE \<equiv> 0x201"

text \<open>\<open>argv[argc] = q; eargv[argc] = eq\<close> reaches the command inside the redirections around it.\<close>

fun add_arg :: "'a \<Rightarrow> 'a cmd \<Rightarrow> 'a cmd" where
  "add_arg a (EXEC as) = EXEC (as @ [a])"
| "add_arg a (REDIR c f m fd) = REDIR (add_arg a c) f m fd"
| "add_arg a c = c"

section \<open>Tokens\<close>

definition whitespace :: string where
  "whitespace = [CHR '' '', CHR 0x09, CHR 0x0D, CHR 0x0A, CHR 0x0B]"

definition symbols :: string where
  "symbols = ''<|>&;()''"

definition skipws :: "string \<Rightarrow> string" where
  "skipws s = dropWhile (\<lambda>c. c \<in> set whitespace) s"

definition wordchar :: "char \<Rightarrow> bool" where
  "wordchar c \<longleftrightarrow> c \<notin> set whitespace \<and> c \<notin> set symbols"

text \<open>The result, the pointers to the token and behind it, and the new position.\<close>

definition gettoken :: "string \<Rightarrow> char \<times> string \<times> string \<times> string" where
  "gettoken ps =
     (let q = skipws ps in
      case q of [] \<Rightarrow> (CHR 0x00, q, q, skipws q)
      | c # s \<Rightarrow>
          if c \<in> set ''|();&<'' then (c, q, s, skipws s)
          else if c = CHR ''>'' then
            (if s \<noteq> [] \<and> hd s = CHR ''>'' then (CHR ''+'', q, tl s, skipws (tl s)) else (c, q, s, skipws s))
          else let e = dropWhile wordchar q in (CHR ''a'', q, e, skipws e))"

definition peek :: "string \<Rightarrow> string \<Rightarrow> bool" where
  "peek ps toks = (let s = skipws ps in s \<noteq> [] \<and> hd s \<in> set toks)"

section \<open>Parsing\<close>

text \<open>
  A parser returns a command and the new position, or ends the shell with a message.  \<open>Out\<close> is the value when
  the depth of nesting allowed for is exceeded.
\<close>

datatype parsed = Ok "span cmd" string | Err string | Out

definition redir :: "char \<Rightarrow> span cmd \<Rightarrow> span \<Rightarrow> span cmd" where
  "redir tok c f = (if tok = CHR ''<'' then REDIR c f O_RDONLY 0 else REDIR c f O_WRONLY_CREATE 1)"

lemma skipws_length: "length (skipws s) \<le> length s"
  by (simp add: skipws_def length_dropWhile_le)

lemma skipws_skipws [simp]: "skipws (skipws s) = skipws s"
  by (simp add: skipws_def)

lemma wordchar_cases: "c \<notin> set whitespace \<Longrightarrow> c \<notin> set ''|();&<'' \<Longrightarrow> c \<noteq> CHR ''>'' \<Longrightarrow> wordchar c"
  by (simp add: wordchar_def symbols_def)

lemma skipws_hd: "skipws s = c # r \<Longrightarrow> c \<notin> set whitespace"
  using hd_dropWhile[of "\<lambda>c. c \<in> set whitespace" s] by (auto simp: skipws_def)

lemma gettoken_length:
  assumes "gettoken ps = (t, q, eq, s)"
  shows "length s \<le> length ps" "t \<noteq> CHR 0x00 \<Longrightarrow> length s < length ps" "skipws ps \<noteq> [] \<Longrightarrow> length s < length ps"
proof -
  have *: "length s \<le> length ps \<and> (skipws ps \<noteq> [] \<longrightarrow> length s < length ps) \<and> (skipws ps = [] \<longrightarrow> t = CHR 0x00)"
  proof (cases "skipws ps")
    case Nil
    then show ?thesis
      using assms skipws_length[of "[]"] by (auto simp: gettoken_def)
  next
    case (Cons c r)
    have r: "length r < length ps"
      using skipws_length[of ps] Cons by simp
    have le: "length (skipws r) \<le> length r" "length (skipws (tl r)) \<le> length r"
      using skipws_length[of "tl r"] skipws_length[of r] by simp_all
    have "wordchar c \<Longrightarrow> length (skipws (dropWhile wordchar (c # r))) \<le> length r"
      using skipws_length[of "dropWhile wordchar r"] length_dropWhile_le[of wordchar r] by simp
    then show ?thesis
      using assms Cons r le wordchar_cases[OF skipws_hd[OF Cons]] by (fastforce simp: gettoken_def Let_def split: if_splits)
  qed
  then show "length s \<le> length ps" "t \<noteq> CHR 0x00 \<Longrightarrow> length s < length ps" "skipws ps \<noteq> [] \<Longrightarrow> length s < length ps"
    by auto
qed

lemma redir_decreases:
  assumes "peek ps toks" "gettoken (skipws ps) = (tok, a, b, s)" "gettoken s = (t, q, eq, s')"
  shows "length s' < length ps"
  using gettoken_length(1)[OF assms(3)] gettoken_length(3)[OF assms(2)] skipws_length[of ps] assms(1)
  by (auto simp: peek_def Let_def)

function parseredirs :: "span cmd \<Rightarrow> string \<Rightarrow> parsed" where
  "parseredirs c ps =
     (if peek ps ''<>'' then
        (let (tok, _, _, s) = gettoken (skipws ps); (t, q, eq, s') = gettoken s in
         if t \<noteq> CHR ''a'' then Err ''missing file for redirection''
         else parseredirs (redir tok c (q, eq)) s')
      else Ok c (skipws ps))"
  by auto
termination
  by (relation "measure (\<lambda>(c, ps). length ps)") (auto dest!: sym[of _ "gettoken _"] intro: redir_decreases)

declare parseredirs.simps [simp del]

lemma parseredirs_length: "parseredirs c ps = Ok r s \<Longrightarrow> length s \<le> length ps"
proof (induction c ps rule: parseredirs.induct)
  case (1 c ps)
  show ?case
  proof (cases "peek ps ''<>''")
    case True
    obtain tok a b s1 where t1: "gettoken (skipws ps) = (tok, a, b, s1)"
      by (cases "gettoken (skipws ps)") auto
    obtain t q eq s2 where t2: "gettoken s1 = (t, q, eq, s2)"
      by (cases "gettoken s1") auto
    have "t = CHR ''a''" "parseredirs (redir tok c (q, eq)) s2 = Ok r s"
      using 1(2) True t1 t2 by (auto simp: parseredirs.simps[of c ps] split: if_splits)
    then have "length s \<le> length s2"
      using 1(1)[OF True t1[symmetric] refl refl refl t2[symmetric] refl refl refl] by simp
    then show ?thesis
      using redir_decreases[OF True t1 t2] by simp
  next
    case False
    then show ?thesis
      using 1(2) skipws_length[of ps] by (simp add: parseredirs.simps[of c ps])
  qed
qed

text \<open>The loop over the arguments; \<open>argc\<close> are there already.\<close>

function parseargs :: "nat \<Rightarrow> span cmd \<Rightarrow> string \<Rightarrow> parsed" where
  "parseargs argc ret ps =
     (if peek ps ''|)&;'' then Ok ret (skipws ps)
      else let (tok, q, eq, s) = gettoken (skipws ps) in
        if tok = CHR 0x00 then Ok ret s
        else if tok \<noteq> CHR ''a'' then Err ''syntax''
        else if Suc argc \<ge> MAXARGS then Err ''too many args''
        else case parseredirs (add_arg (q, eq) ret) s of
            Ok r s' \<Rightarrow> parseargs (Suc argc) r s' | Err m \<Rightarrow> Err m | Out \<Rightarrow> Out)"
  by auto
termination
proof (relation "measure (\<lambda>(n, c, ps). length ps)", goal_cases)
  case (2 argc ret ps x tok y q z eq s r s')
  then have "gettoken (skipws ps) = (tok, q, eq, s)"
    by simp
  then show ?case
    using 2 gettoken_length(2)[of "skipws ps" tok q eq s] skipws_length[of ps] parseredirs_length[of "add_arg (q, eq) ret" s r s'] by simp
qed simp

declare parseargs.simps [simp del]

lemma parseargs_length: "parseargs argc ret ps = Ok r s \<Longrightarrow> length s \<le> length ps"
proof (induction argc ret ps rule: parseargs.induct)
  case (1 argc ret ps)
  obtain tok q eq s1 where t: "gettoken (skipws ps) = (tok, q, eq, s1)"
    by (cases "gettoken (skipws ps)") auto
  have le: "length s1 \<le> length ps" "length (skipws ps) \<le> length ps"
    using gettoken_length(1)[OF t] skipws_length[of ps] by simp_all
  show ?case
  proof (cases "peek ps ''|)&;'' \<or> tok = CHR 0x00")
    case True
    then show ?thesis
      using 1(2) le t by (auto simp: parseargs.simps[of argc ret ps] split: if_splits)
  next
    case False
    then obtain r' s' where r: "parseredirs (add_arg (q, eq) ret) s1 = Ok r' s'" "parseargs (Suc argc) r' s' = Ok r s"
        "tok = CHR ''a''" "\<not> Suc argc \<ge> MAXARGS"
      using 1(2) t by (auto simp: parseargs.simps[of argc ret ps] split: if_splits parsed.splits)
    then have "length s \<le> length s'"
      using 1(1)[OF _ t[symmetric] refl refl refl _ _ _ r(1,2)] False by simp
    then show ?thesis
      using parseredirs_length[OF r(1)] le by simp
  qed
qed

function parseback :: "span cmd \<Rightarrow> string \<Rightarrow> span cmd \<times> string" where
  "parseback c ps =
     (if peek ps ''&'' then (let (_, _, _, s) = gettoken (skipws ps) in parseback (BACK c) s)
      else (c, skipws ps))"
  by auto
termination
  by (relation "measure (\<lambda>(c, ps). length ps)")
    (auto dest!: sym[of _ "gettoken _"] gettoken_length(3) intro: less_le_trans[OF _ skipws_length] simp: peek_def Let_def)

declare parseback.simps [simp del]

lemma parseback_length: "parseback c ps = (r, s) \<Longrightarrow> length s \<le> length ps"
proof (induction c ps rule: parseback.induct)
  case (1 c ps)
  obtain t q eq s1 where t: "gettoken (skipws ps) = (t, q, eq, s1)"
    by (cases "gettoken (skipws ps)") auto
  show ?case
    using 1(1)[OF _ t[symmetric] refl refl refl] 1(2) gettoken_length(1)[OF t] skipws_length[of ps] t
    by (simp add: parseback.simps[of c ps] split: if_splits)
qed

text \<open>
  The recursive part.  The first argument bounds the depth; four levels are used for each opening parenthesis,
  semicolon or bar, and one call of each level for the rest.
\<close>

fun parseline :: "nat \<Rightarrow> string \<Rightarrow> parsed"
  and parsepipe :: "nat \<Rightarrow> string \<Rightarrow> parsed"
  and parseexec :: "nat \<Rightarrow> string \<Rightarrow> parsed"
  and parseblock :: "nat \<Rightarrow> string \<Rightarrow> parsed" where
  "parseline 0 ps = Out"
| "parseline (Suc n) ps =
     (case parsepipe n ps of
        Ok c s \<Rightarrow>
          (let (c', s') = parseback c s in
           if peek s' '';'' then
             (let (_, _, _, s'') = gettoken (skipws s') in
              case parseline n s'' of Ok d u \<Rightarrow> Ok (LIST c' d) u | Err m \<Rightarrow> Err m | Out \<Rightarrow> Out)
           else Ok c' (skipws s'))
      | Err m \<Rightarrow> Err m | Out \<Rightarrow> Out)"
| "parsepipe 0 ps = Out"
| "parsepipe (Suc n) ps =
     (case parseexec n ps of
        Ok c s \<Rightarrow>
          (if peek s ''|'' then
             (let (_, _, _, s') = gettoken (skipws s) in
              case parsepipe n s' of Ok d u \<Rightarrow> Ok (PIPE c d) u | Err m \<Rightarrow> Err m | Out \<Rightarrow> Out)
           else Ok c (skipws s))
      | Err m \<Rightarrow> Err m | Out \<Rightarrow> Out)"
| "parseexec 0 ps = Out"
| "parseexec (Suc n) ps =
     (if peek ps ''('' then parseblock n (skipws ps)
      else case parseredirs (EXEC []) (skipws ps) of
          Ok ret s \<Rightarrow> parseargs 0 ret s | Err m \<Rightarrow> Err m | Out \<Rightarrow> Out)"
| "parseblock 0 ps = Out"
| "parseblock (Suc n) ps =
     (if \<not> peek ps ''('' then Err ''parseblock''
      else let (_, _, _, s) = gettoken (skipws ps) in
        case parseline n s of
          Ok c s' \<Rightarrow>
            (if \<not> peek s' '')'' then Err ''syntax - missing )''
             else let (_, _, _, s'') = gettoken (skipws s') in parseredirs c s'')
        | Err m \<Rightarrow> Err m | Out \<Rightarrow> Out)"

text \<open>\<open>*eq = 0\<close> in the buffer, which is the line and its NUL.\<close>

definition zero_at :: "string \<Rightarrow> string \<Rightarrow> string" where
  "zero_at eq buf = buf[length buf - 1 - length eq := CHR 0x00]"

fun nulterminate :: "span cmd \<Rightarrow> string \<Rightarrow> string" where
  "nulterminate (EXEC as) buf = fold (\<lambda>(q, eq). zero_at eq) as buf"
| "nulterminate (REDIR c (q, eq) m fd) buf = zero_at eq (nulterminate c buf)"
| "nulterminate (PIPE l r) buf = nulterminate r (nulterminate l buf)"
| "nulterminate (LIST l r) buf = nulterminate r (nulterminate l buf)"
| "nulterminate (BACK c) buf = nulterminate c buf"

text \<open>\<open>panic\<close> and the message before it end the shell.  Otherwise the result is the command and the buffer.\<close>

definition parsecmd :: "string \<Rightarrow> parsed" where
  "parsecmd line =
     (case parseline (4 * length line + 3) line of
        Ok c s \<Rightarrow>
          (if skipws s \<noteq> [] then Err (''leftovers: '' @ skipws s @ [CHR 0x0A] @ ''syntax'')
           else Ok c (nulterminate c (line @ [CHR 0x00])))
      | Err m \<Rightarrow> Err m | Out \<Rightarrow> Out)"

section \<open>Parsing ends\<close>

lemma parseredirs_not_Out: "parseredirs c ps \<noteq> Out"
proof (induction c ps rule: parseredirs.induct)
  case (1 c ps)
  then show ?case
    by (subst parseredirs.simps) (auto split: prod.splits)
qed

lemma parseargs_not_Out: "parseargs argc ret ps \<noteq> Out"
proof (induction argc ret ps rule: parseargs.induct)
  case (1 argc ret ps)
  then show ?case
    using parseredirs_not_Out by (subst parseargs.simps) (auto split: prod.splits parsed.splits)
qed

lemma token_less:
  assumes "peek s toks" "gettoken (skipws s) = (t, q, eq, s')"
  shows "length s' < length s"
  using gettoken_length(3)[OF assms(2)] skipws_length[of s] assms(1) by (auto simp: peek_def Let_def)

text \<open>Enough depth: the parser returns or reports an error, and does not move backwards.\<close>

definition returns :: "string \<Rightarrow> parsed \<Rightarrow> bool" where
  "returns ps r \<longleftrightarrow> r \<noteq> Out \<and> (\<forall>c s. r = Ok c s \<longrightarrow> length s \<le> length ps)"

lemma returns_simps [simp]: "returns ps (Err m)" "returns ps Out = False" "returns ps (Ok c s) = (length s \<le> length ps)"
  by (auto simp: returns_def)

lemma returns_redirs: "returns ps (parseredirs c ps)"
  using parseredirs_not_Out[of c ps] parseredirs_length[of c ps] by (auto simp: returns_def)

lemma returns_args: "returns ps (parseargs n c ps)"
  using parseargs_not_Out[of n c ps] parseargs_length[of n c ps] by (auto simp: returns_def)

lemma returns_le: "returns s r \<Longrightarrow> length s \<le> length ps \<Longrightarrow> returns ps r"
  by (auto simp: returns_def)

lemma returns_line:
  assumes "\<And>ps. 4 * length ps + 2 \<le> n \<Longrightarrow> returns ps (parsepipe n ps)"
    "\<And>ps. 4 * length ps + 3 \<le> n \<Longrightarrow> returns ps (parseline n ps)" "4 * length ps + 3 \<le> Suc n"
  shows "returns ps (parseline (Suc n) ps)"
proof (cases "parsepipe n ps")
  case (Ok c s)
  then have s: "length s \<le> length ps"
    using assms(1)[of ps] assms(3) by simp
  obtain c' s' where b: "parseback c s = (c', s')"
    by (cases "parseback c s")
  obtain t q eq s'' where g: "gettoken (skipws s') = (t, q, eq, s'')"
    by (cases "gettoken (skipws s')") auto
  have s': "length s' \<le> length ps" "length (skipws s') \<le> length ps"
    using parseback_length[OF b] s skipws_length[of s'] by simp_all
  show ?thesis
  proof (cases "peek s' '';''")
    case True
    then have less: "length s'' < length ps"
      using token_less[OF True g] s' by simp
    then have "returns s'' (parseline n s'')"
      using assms(2)[of s''] assms(3) by simp
    then show ?thesis
      using Ok b g True less by (auto split: parsed.split)
  qed (use Ok b s' in simp)
qed (use assms(1)[of ps] assms(3) in simp_all)

lemma returns_pipe:
  assumes "\<And>ps. 4 * length ps + 1 \<le> n \<Longrightarrow> returns ps (parseexec n ps)"
    "\<And>ps. 4 * length ps + 2 \<le> n \<Longrightarrow> returns ps (parsepipe n ps)" "4 * length ps + 2 \<le> Suc n"
  shows "returns ps (parsepipe (Suc n) ps)"
proof (cases "parseexec n ps")
  case (Ok c s)
  then have s: "length s \<le> length ps" "length (skipws s) \<le> length ps"
    using assms(1)[of ps] assms(3) skipws_length[of s] by simp_all
  obtain t q eq s' where g: "gettoken (skipws s) = (t, q, eq, s')"
    by (cases "gettoken (skipws s)") auto
  show ?thesis
  proof (cases "peek s ''|''")
    case True
    then have less: "length s' < length ps"
      using token_less[OF True g] s by simp
    then have "returns s' (parsepipe n s')"
      using assms(2)[of s'] assms(3) by simp
    then show ?thesis
      using Ok g True less by (auto split: parsed.split)
  qed (use Ok s in simp)
qed (use assms(1)[of ps] assms(3) in simp_all)

lemma returns_exec:
  assumes "\<And>ps. 4 * length ps \<le> n \<Longrightarrow> 0 < n \<Longrightarrow> returns ps (parseblock n ps)" "4 * length ps + 1 \<le> Suc n"
  shows "returns ps (parseexec (Suc n) ps)"
proof (cases "peek ps ''(''")
  case True
  then have "0 < length (skipws ps)"
    by (simp add: peek_def Let_def)
  then have "returns (skipws ps) (parseblock n (skipws ps))"
    using assms(1)[of "skipws ps"] assms(2) skipws_length[of ps] by linarith
  then show ?thesis
    using True returns_le[OF _ skipws_length] by simp
next
  case False
  have "returns (skipws ps) (parseredirs (EXEC []) (skipws ps))"
    by (rule returns_redirs)
  then show ?thesis
    using False skipws_length[of ps] returns_args
    by (auto split: parsed.split intro!: returns_le[OF returns_args])
qed

lemma returns_block:
  assumes "\<And>ps. 4 * length ps + 3 \<le> n \<Longrightarrow> returns ps (parseline n ps)" "4 * length ps \<le> Suc n"
  shows "returns ps (parseblock (Suc n) ps)"
proof (cases "peek ps ''(''")
  case True
  obtain t q eq s where g: "gettoken (skipws ps) = (t, q, eq, s)"
    by (cases "gettoken (skipws ps)") auto
  have less: "length s < length ps"
    by (rule token_less[OF True g])
  then have r: "returns s (parseline n s)"
    using assms by simp
  show ?thesis
  proof (cases "parseline n s")
    case (Ok c s')
    obtain t' q' eq' s'' where g': "gettoken (skipws s') = (t', q', eq', s'')"
      by (cases "gettoken (skipws s')") auto
    have "length s' \<le> length ps"
      using r Ok less by simp
    then have "peek s' '')'' \<Longrightarrow> returns ps (parseredirs c s'')"
      using token_less[OF _ g', of "'')''"] by (intro returns_le[OF returns_redirs]) simp
    then show ?thesis
      using True g Ok g' by simp
  qed (use True g r in simp_all)
qed simp

lemma parse_returns:
  "(\<forall>ps. (4 * length ps + 3 \<le> n \<longrightarrow> returns ps (parseline n ps)) \<and>
     (4 * length ps + 2 \<le> n \<longrightarrow> returns ps (parsepipe n ps)) \<and>
     (4 * length ps + 1 \<le> n \<longrightarrow> returns ps (parseexec n ps)) \<and>
     (4 * length ps \<le> n \<longrightarrow> 0 < n \<longrightarrow> returns ps (parseblock n ps)))"
proof (induction n)
  case (Suc n)
  then show ?case
    using returns_line[of n] returns_pipe[of n] returns_exec[of n] returns_block[of n] by blast
qed simp

text \<open>
  C24: The parser ends on every line, with a command or with a syntax error: the depth allowed for is never
  exceeded, however the line is nested.
\<close>

theorem parsecmd_terminates: "parsecmd line \<noteq> Out"
proof -
  have "returns line (parseline (4 * length line + 3) line)"
    by (rule parse_returns[THEN spec, THEN conjunct1, THEN mp]) simp
  then show ?thesis
    by (auto simp: parsecmd_def split: parsed.split)
qed

section \<open>Words of the line\<close>

text \<open>The C string at a pointer, and the word between two pointers.\<close>

definition cstring_at :: "string \<Rightarrow> string \<Rightarrow> string" where
  "cstring_at buf q = takeWhile (\<lambda>c. c \<noteq> CHR 0x00) (drop (length buf - 1 - length q) buf)"

definition word_of :: "span \<Rightarrow> string" where
  "word_of x = take (length (fst x) - length (snd x)) (fst x)"

definition ok_span :: "string \<Rightarrow> span \<Rightarrow> bool" where
  "ok_span line x \<longleftrightarrow> (\<exists>pre w. line = pre @ fst x \<and> fst x = w @ snd x \<and> w \<noteq> [] \<and> list_all wordchar w \<and>
     (snd x = [] \<or> \<not> wordchar (hd (snd x))))"

definition good :: "string \<Rightarrow> parsed \<Rightarrow> bool" where
  "good line r \<longleftrightarrow> (\<forall>c s. r = Ok c s \<longrightarrow> suffix s line \<and> (\<forall>x \<in> set_cmd c. ok_span line x))"

lemma good_simps [simp]: "good line (Err m)" "good line Out"
    "good line (Ok c s) = (suffix s line \<and> (\<forall>x \<in> set_cmd c. ok_span line x))"
  by (auto simp: good_def)

lemma suffix_skipws: "suffix s line \<Longrightarrow> suffix (skipws s) line"
  unfolding skipws_def using suffix_dropWhile suffix_order.trans by blast

lemma gettoken_span:
  assumes "gettoken ps = (t, q, eq, s)" "suffix ps line"
  shows "suffix s line" "t = CHR ''a'' \<Longrightarrow> ok_span line (q, eq)"
proof -
  have q: "suffix (skipws ps) line"
    by (rule suffix_skipws[OF assms(2)])
  have "suffix s line \<and> (t = CHR ''a'' \<longrightarrow> ok_span line (q, eq))"
  proof (cases "skipws ps")
    case Nil
    then show ?thesis
      using assms(1) suffix_skipws[of "[]" line] by (auto simp: gettoken_def)
  next
    case (Cons c r)
    have r: "suffix r line" "suffix (tl r) line"
      using q Cons by (auto dest: suffix_ConsD simp: tl_def split: list.split)
    let ?w = "takeWhile wordchar (c # r)" and ?e = "dropWhile wordchar (c # r)"
    have e: "suffix ?e line"
      using q Cons suffix_dropWhile[of wordchar "c # r"] suffix_order.trans by fastforce
    have "ok_span line (c # r, ?e)" if "wordchar c"
    proof -
      obtain pre where "line = pre @ c # r"
        using q Cons by (auto simp: suffix_def)
      moreover have "c # r = ?w @ ?e" "?w \<noteq> []" "list_all wordchar ?w" "?e = [] \<or> \<not> wordchar (hd ?e)"
        using that hd_dropWhile[of wordchar "c # r"] by (auto simp: list_all_iff dest: set_takeWhileD)
      ultimately show ?thesis
        unfolding ok_span_def fst_conv snd_conv by blast
    qed
    then show ?thesis
      using assms(1) Cons r e wordchar_cases[OF skipws_hd[OF Cons]] suffix_skipws
      by (auto simp: gettoken_def Let_def split: if_splits)
  qed
  then show "suffix s line" "t = CHR ''a'' \<Longrightarrow> ok_span line (q, eq)"
    by blast+
qed

lemma set_redir: "set_cmd (redir tok c x) = insert x (set_cmd c)"
  by (auto simp: redir_def)

lemma set_add_arg: "set_cmd (add_arg x c) \<subseteq> insert x (set_cmd c)"
  by (induction x c rule: add_arg.induct) auto

lemma good_redirs: "suffix ps line \<Longrightarrow> \<forall>x \<in> set_cmd c. ok_span line x \<Longrightarrow> good line (parseredirs c ps)"
proof (induction c ps rule: parseredirs.induct)
  case (1 c ps)
  obtain tok a b s1 where t1: "gettoken (skipws ps) = (tok, a, b, s1)"
    by (cases "gettoken (skipws ps)") auto
  obtain t q eq s2 where t2: "gettoken s1 = (t, q, eq, s2)"
    by (cases "gettoken s1") auto
  note g1 = gettoken_span[OF t1 suffix_skipws[OF 1(2)]] and g2 = gettoken_span[OF t2]
  have "peek ps ''<>'' \<Longrightarrow> t = CHR ''a'' \<Longrightarrow> good line (parseredirs (redir tok c (q, eq)) s2)"
    using 1(1)[OF _ t1[symmetric] refl refl refl t2[symmetric] refl refl refl] g1 g2 1(3) by (simp add: set_redir)
  then show ?case
    using 1(2,3) t1 t2 suffix_skipws by (subst parseredirs.simps) simp
qed

lemma good_args: "suffix ps line \<Longrightarrow> \<forall>x \<in> set_cmd c. ok_span line x \<Longrightarrow> good line (parseargs n c ps)"
proof (induction n c ps rule: parseargs.induct)
  case (1 argc ret ps)
  obtain tok q eq s where t: "gettoken (skipws ps) = (tok, q, eq, s)"
    by (cases "gettoken (skipws ps)") auto
  note g = gettoken_span[OF t suffix_skipws[OF 1(2)]]
  have r: "good line (parseredirs (add_arg (q, eq) ret) s)" if "tok = CHR ''a''"
    using g that 1(3) set_add_arg[of "(q, eq)" ret] by (intro good_redirs) auto
  have "good line (parseargs (Suc argc) r s')" if "\<not> peek ps ''|)&;''" "tok = CHR ''a''" "\<not> Suc argc \<ge> MAXARGS"
      "parseredirs (add_arg (q, eq) ret) s = Ok r s'" for r s'
    using 1(1)[OF that(1) t[symmetric] refl refl refl _ _ that(3,4)] that(2) r[OF that(2)] that(4) by simp
  then show ?case
    using 1(2,3) t g(1) suffix_skipws[OF 1(2)] by (subst parseargs.simps) (auto split: parsed.split)
qed

lemma good_back: "suffix ps line \<Longrightarrow> \<forall>x \<in> set_cmd c. ok_span line x \<Longrightarrow> parseback c ps = (r, s) \<Longrightarrow>
    suffix s line \<and> (\<forall>x \<in> set_cmd r. ok_span line x)"
proof (induction c ps rule: parseback.induct)
  case (1 c ps)
  obtain t q eq s1 where t: "gettoken (skipws ps) = (t, q, eq, s1)"
    by (cases "gettoken (skipws ps)") auto
  show ?case
    using 1(1)[OF _ t[symmetric] refl refl refl] 1(2-4) gettoken_span(1)[OF t suffix_skipws[OF 1(2)]] t suffix_skipws[OF 1(2)]
    by (simp add: parseback.simps[of c ps] split: if_splits)
qed

lemma good_rec:
  "(\<forall>ps line. suffix ps line \<longrightarrow> good line (parseline n ps) \<and> good line (parsepipe n ps) \<and>
     good line (parseexec n ps) \<and> good line (parseblock n ps))"
proof (induction n)
  case (Suc n)
  show ?case
  proof (intro allI impI conjI)
    fix ps line :: string
    assume ps: "suffix ps line"
    have skip: "\<And>s. suffix s line \<Longrightarrow> suffix (skipws s) line"
      by (rule suffix_skipws)
    have tok: "\<And>s t q eq s'. gettoken (skipws s) = (t, q, eq, s') \<Longrightarrow> suffix s line \<Longrightarrow> suffix s' line"
      using gettoken_span(1) skip by blast
    have IH: "\<And>s. suffix s line \<Longrightarrow> good line (parseline n s)" "\<And>s. suffix s line \<Longrightarrow> good line (parsepipe n s)"
        "\<And>s. suffix s line \<Longrightarrow> good line (parseexec n s)" "\<And>s. suffix s line \<Longrightarrow> good line (parseblock n s)"
      using Suc by blast+
    show "good line (parsepipe (Suc n) ps)"
    proof (cases "parseexec n ps")
      case (Ok c s)
      obtain t q eq s' where g: "gettoken (skipws s) = (t, q, eq, s')"
        by (cases "gettoken (skipws s)") auto
      have s: "suffix s line" "\<forall>x \<in> set_cmd c. ok_span line x"
        using IH(3)[OF ps] Ok by simp_all
      have "good line (parsepipe n s')"
        by (rule IH(2)[OF tok[OF g s(1)]])
      then show ?thesis
        using Ok g s skip[OF s(1)] by (auto split: parsed.split)
    qed simp_all
    show "good line (parseexec (Suc n) ps)"
      using IH(4)[OF skip[OF ps]] good_redirs[OF skip[OF ps], of "EXEC []"] good_args
      by (auto split: parsed.split)
    show "good line (parseblock (Suc n) ps)"
    proof -
      obtain t q eq s where g: "gettoken (skipws ps) = (t, q, eq, s)"
        by (cases "gettoken (skipws ps)") auto
      have r: "good line (parseline n s)"
        by (rule IH(1)[OF tok[OF g ps]])
      have "good line (parseredirs c s'')" if "parseline n s = Ok c s'" "gettoken (skipws s') = (t, q, eq, s'')" for c s' t q eq s''
        using r that tok[OF that(2)] by (intro good_redirs) simp_all
      then show ?thesis
        using g by (auto split: parsed.split prod.split)
    qed
    show "good line (parseline (Suc n) ps)"
    proof (cases "parsepipe n ps")
      case (Ok c s)
      obtain c' s' where b: "parseback c s = (c', s')"
        by (cases "parseback c s")
      have "suffix s' line" "\<forall>x \<in> set_cmd c'. ok_span line x"
        using good_back[OF _ _ b] IH(2)[OF ps] Ok by simp_all
      then have s: "suffix s' line" "\<forall>x \<in> set_cmd c'. ok_span line x"
        by simp_all
      obtain t q eq s'' where g: "gettoken (skipws s') = (t, q, eq, s'')"
        by (cases "gettoken (skipws s')") auto
      have "good line (parseline n s'')"
        by (rule IH(1)[OF tok[OF g s(1)]])
      then show ?thesis
        using Ok b g s skip[OF s(1)] by (auto split: parsed.split)
    qed simp_all
  qed
qed simp

lemma zero_at_length [simp]: "length (zero_at eq buf) = length buf"
  by (simp add: zero_at_def)

lemma zero_at_nth: "i < length buf \<Longrightarrow> zero_at eq buf ! i = (if i = length buf - 1 - length eq then CHR 0x00 else buf ! i)"
  by (auto simp: zero_at_def nth_list_update)

definition zeroed :: "nat \<Rightarrow> nat \<Rightarrow> span set \<Rightarrow> bool" where
  "zeroed n i X \<longleftrightarrow> (\<exists>x \<in> X. i = n - 1 - length (snd x))"

lemma zeroed_simps [simp]: "\<not> zeroed n i {}" "zeroed n i (insert x X) \<longleftrightarrow> i = n - 1 - length (snd x) \<or> zeroed n i X"
    "zeroed n i (X \<union> Y) \<longleftrightarrow> zeroed n i X \<or> zeroed n i Y"
  by (auto simp: zeroed_def)

lemma fold_zero_nth:
  "length (fold (\<lambda>(q, eq). zero_at eq) as buf) = length buf \<and>
   (\<forall>i < length buf. fold (\<lambda>(q, eq). zero_at eq) as buf ! i = (if zeroed (length buf) i (set as) then CHR 0x00 else buf ! i))"
proof (induction as arbitrary: buf)
  case (Cons x as)
  then show ?case
    by (cases x) (auto simp: zero_at_nth)
qed simp

lemma nulterminate_nth:
  "length (nulterminate c buf) = length buf \<and>
   (\<forall>i < length buf. nulterminate c buf ! i = (if zeroed (length buf) i (set_cmd c) then CHR 0x00 else buf ! i))"
proof (induction c buf rule: nulterminate.induct)
  case (1 as buf)
  then show ?case
    using fold_zero_nth[of as buf] by simp
qed (auto simp: zero_at_nth)

lemma drop_split: "take (length w) (drop p b) = w \<Longrightarrow> p + length w < length b \<Longrightarrow>
    drop p b = w @ b ! (p + length w) # drop (Suc (p + length w)) b"
  by (metis Cons_nth_drop_Suc add.commute append_take_drop_id drop_drop)

lemma terminated_word:
  assumes "x \<in> set_cmd c" "\<forall>y \<in> set_cmd c. ok_span line y" "CHR 0x00 \<notin> set line"
  shows "cstring_at (nulterminate c (line @ [CHR 0x00])) (fst x) = word_of x"
proof -
  let ?buf = "nulterminate c (line @ [CHR 0x00])"
  note nth = nulterminate_nth[of c "line @ [CHR 0x00]"]
  obtain pre w where l: "line = pre @ fst x" "fst x = w @ snd x" "list_all wordchar w"
    using assms(1,2) by (auto simp: ok_span_def)
  have unzeroed: "\<not> zeroed (length (line @ [CHR 0x00])) i (set_cmd c)" if i: "length pre \<le> i" "i < length pre + length w" for i
  proof
    assume "zeroed (length (line @ [CHR 0x00])) i (set_cmd c)"
    then obtain y where y: "y \<in> set_cmd c" "i = length line - length (snd y)"
      by (auto simp: zeroed_def)
    obtain pre' w' where l': "line = pre' @ w' @ snd y" "snd y = [] \<or> \<not> wordchar (hd (snd y))"
      using assms(2) y(1) by (fastforce simp: ok_span_def)
    have len: "i < length line"
      using i arg_cong[OF l(1), of length] arg_cong[OF l(2), of length] by simp
    then have "snd y \<noteq> []"
      using y l' by auto
    then have "\<not> wordchar (line ! i)"
      using y(2) l' by (auto simp: nth_append hd_conv_nth)
    moreover have "line ! i = w ! (i - length pre)" "i - length pre < length w"
      using i l by (auto simp: nth_append)
    ultimately show False
      using l(3) by (auto simp: list_all_length)
  qed
  have "take (length w) (drop (length pre) ?buf) = w"
  proof (rule nth_equalityI)
    fix i
    assume "i < length (take (length w) (drop (length pre) ?buf))"
    then have i: "i < length w" "length pre + i < length (line @ [CHR 0x00])"
      using nth by auto
    then show "take (length w) (drop (length pre) ?buf) ! i = w ! i"
      using nth unzeroed[of "length pre + i"] l by (simp add: nth_append)
  qed (use nth l in simp)
  moreover have "?buf ! (length pre + length w) = CHR 0x00"
    using nth assms(1) l by (auto simp: zeroed_def nth_append)
  moreover have "length pre + length w < length ?buf"
    using nth arg_cong[OF l(1), of length] arg_cong[OF l(2), of length] by simp
  ultimately have "drop (length pre) ?buf = w @ CHR 0x00 # drop (Suc (length pre + length w)) ?buf"
    by (metis drop_split)
  moreover have "length ?buf - 1 - length (fst x) = length pre" "word_of x = w"
    using nth l by (simp_all add: word_of_def)
  moreover have "\<forall>a \<in> set w. a \<noteq> CHR 0x00"
    using assms(3) l by auto
  ultimately show ?thesis
    by (simp add: cstring_at_def takeWhile_append2)
qed

text \<open>The command as \<open>runcmd\<close> reads it: each word is the C string at its first character.\<close>

definition strings :: "string \<Rightarrow> span cmd \<Rightarrow> string cmd" where
  "strings buf c = map_cmd (\<lambda>x. cstring_at buf (fst x)) c"

lemma parsecmd_Ok:
  assumes "parsecmd line = Ok c buf"
  shows "\<forall>x \<in> set_cmd c. ok_span line x" "buf = nulterminate c (line @ [CHR 0x00])"
  using assms good_rec[rule_format, of line line "4 * length line + 3"]
  by (auto simp: parsecmd_def split: parsed.splits if_splits)

lemma strings_words:
  assumes "parsecmd line = Ok c buf" "CHR 0x00 \<notin> set line"
  shows "strings buf c = map_cmd word_of c"
  unfolding strings_def using terminated_word[OF _ _ assms(2)] parsecmd_Ok[OF assms(1)]
  by (intro cmd.map_cong0) auto

text \<open>
  C23: The characters that \<open>nulterminate\<close> overwrites lie behind words and never inside one: the arguments and
  file names that \<open>runcmd\<close> reads from the buffer are the words of the line, each a nonempty, uninterrupted
  stretch of it free of blanks and operators, with a blank, an operator or the end of the line behind it.
\<close>

theorem parse_words_intact:
  assumes "parsecmd line = Ok c buf" "CHR 0x00 \<notin> set line"
  shows "length buf = Suc (length line) \<and> strings buf c = map_cmd word_of c \<and>
    (\<forall>w \<in> set_cmd (strings buf c). w \<noteq> [] \<and> list_all wordchar w \<and>
       (\<exists>pre post. line = pre @ w @ post \<and> (post = [] \<or> \<not> wordchar (hd post))))"
proof -
  have "w \<noteq> [] \<and> list_all wordchar w \<and> (\<exists>pre post. line = pre @ w @ post \<and> (post = [] \<or> \<not> wordchar (hd post)))"
    if "w \<in> word_of ` set_cmd c" for w
    using that parsecmd_Ok(1)[OF assms(1)] by (fastforce simp: word_of_def ok_span_def)
  then show ?thesis
    using strings_words[OF assms] nulterminate_nth[of c "line @ [CHR 0x00]"] parsecmd_Ok(2)[OF assms(1)]
    by (simp add: cmd.set_map)
qed

theorem parse_words_intact_witness:
  "\<exists>c buf. parsecmd ''ls>f'' = Ok c buf \<and> strings buf c = REDIR (EXEC [''ls'']) ''f'' 0x201 1 \<and> map_cmd word_of c = strings buf c"
proof -
  have "parsecmd ''ls>f'' = Ok (REDIR (EXEC [(''ls>f'', ''>f'')]) (''f'', []) 0x201 1) [CHR ''l'', CHR ''s'', CHR 0x00, CHR ''f'', CHR 0x00]"
    by code_simp
  moreover have "CHR 0x00 \<notin> set ''ls>f''"
    by simp
  moreover have "map_cmd word_of (REDIR (EXEC [(''ls>f'', ''>f'')]) (''f'', []) 0x201 1) = REDIR (EXEC [''ls'']) ''f'' 0x201 1"
    by code_simp
  ultimately show ?thesis
    using parse_words_intact[of "''ls>f''"] by simp
qed

section \<open>Printing and parsing\<close>

text \<open>
  The commands as a user would write them.  The first argument is the level of the context: 0 inside a pipe or a
  redirection, 1 behind a bar, 2 before an ampersand or a semicolon, 3 for a whole line.
\<close>

definition paren :: "bool \<Rightarrow> string \<Rightarrow> string" where
  "paren b s = (if b then ''('' @ s @ '')'' else s)"

fun show_cmd :: "nat \<Rightarrow> string cmd \<Rightarrow> string" where
  "show_cmd n (EXEC as) = concat (map (\<lambda>a. a @ '' '') as)"
| "show_cmd n (REDIR c f m fd) = show_cmd 0 c @ (if fd = 0 then ''<'' else ''>'') @ f"
| "show_cmd n (PIPE l r) = paren (n < 1) (show_cmd 0 l @ ''|'' @ show_cmd 1 r)"
| "show_cmd n (BACK c) = paren (n < 2) (show_cmd 2 c @ ''&'')"
| "show_cmd n (LIST l r) = paren (n < 3) (show_cmd 2 l @ '';'' @ show_cmd 3 r)"

definition okword :: "string \<Rightarrow> bool" where
  "okword w \<longleftrightarrow> w \<noteq> [] \<and> list_all (\<lambda>c. wordchar c \<and> c \<noteq> CHR 0x00) w"

fun wf_cmd :: "string cmd \<Rightarrow> bool" where
  "wf_cmd (EXEC as) \<longleftrightarrow> length as < MAXARGS \<and> list_all okword as"
| "wf_cmd (REDIR c f m fd) \<longleftrightarrow> wf_cmd c \<and> okword f \<and> ((m, fd) = (O_RDONLY, 0) \<or> (m, fd) = (O_WRONLY_CREATE, 1))"
| "wf_cmd (PIPE l r) \<longleftrightarrow> wf_cmd l \<and> wf_cmd r"
| "wf_cmd (LIST l r) \<longleftrightarrow> wf_cmd l \<and> wf_cmd r"
| "wf_cmd (BACK c) \<longleftrightarrow> wf_cmd c"

text \<open>What may stand behind a command: nothing but blanks, or one of a few operators.\<close>

definition follow :: "string \<Rightarrow> string \<Rightarrow> bool" where
  "follow cs rest \<longleftrightarrow> skipws rest = [] \<or> rest \<noteq> [] \<and> hd rest \<in> set cs"

lemma follow_Nil: "skipws rest = [] \<Longrightarrow> follow cs rest"
  by (simp add: follow_def)

lemma follow_word: "follow cs rest \<Longrightarrow> set cs \<subseteq> set symbols \<Longrightarrow> rest = [] \<or> \<not> wordchar (hd rest)"
  by (cases rest) (auto simp: follow_def wordchar_def skipws_def split: if_splits)

lemma follow_mono: "follow cs rest \<Longrightarrow> set cs \<subseteq> set ds \<Longrightarrow> follow ds rest"
  by (auto simp: follow_def)

lemma follow_Cons: "c \<in> set cs \<Longrightarrow> follow cs (c # s)"
  by (simp add: follow_def)

lemma okword_Cons:
  assumes "okword w"
  obtains c v where "w = c # v" "wordchar c" "list_all wordchar v"
  using assms by (cases w) (auto simp: okword_def list_all_iff)

lemma wordchar_neq: "wordchar c \<Longrightarrow> c \<notin> set whitespace" "wordchar c \<Longrightarrow> c \<notin> set ''|();&<>''"
  by (auto simp: wordchar_def symbols_def)

lemma okword_skipws: "okword w \<Longrightarrow> skipws (w @ s) = w @ s"
  by (elim okword_Cons) (auto simp: skipws_def dest: wordchar_neq)

lemma okword_peek: "okword w \<Longrightarrow> set toks \<subseteq> set symbols \<Longrightarrow> \<not> peek (w @ s) toks"
  unfolding peek_def okword_skipws Let_def by (elim okword_Cons) (auto simp: wordchar_def)

lemma gettoken_word:
  assumes "okword w" "rest = [] \<or> \<not> wordchar (hd rest)"
  shows "gettoken (w @ rest) = (CHR ''a'', w @ rest, rest, skipws rest)"
proof -
  obtain c v where w: "w = c # v" "wordchar c" "list_all wordchar v"
    using assms(1) by (rule okword_Cons)
  have "dropWhile wordchar (w @ rest) = rest"
    using w assms(2) by (cases rest) (auto simp: list_all_iff)
  then show ?thesis
    using okword_skipws[OF assms(1), of rest] w wordchar_neq[OF w(2)] by (simp add: gettoken_def Let_def)
qed

lemma symbol_skipws: "c \<in> set symbols \<Longrightarrow> skipws (c # s) = c # s"
  by (auto simp: skipws_def symbols_def whitespace_def)

lemma gettoken_symbol:
  assumes "c \<in> set symbols" "c = CHR ''>'' \<Longrightarrow> s \<noteq> [] \<Longrightarrow> hd s \<noteq> CHR ''>''"
  shows "gettoken (c # s) = (c, c # s, s, skipws s)"
  using assms symbol_skipws[OF assms(1), of s] by (auto simp: gettoken_def symbols_def Let_def)

lemma peek_symbol: "c \<in> set symbols \<Longrightarrow> peek (c # s) toks \<longleftrightarrow> c \<in> set toks"
  by (simp add: peek_def symbol_skipws)

lemma peek_follow: "follow cs rest \<Longrightarrow> set cs \<subseteq> set symbols \<Longrightarrow> set cs \<inter> set toks = {} \<Longrightarrow> \<not> peek rest toks"
  using symbol_skipws[of "hd rest" "tl rest"] by (cases rest) (auto simp: peek_def follow_def Let_def subset_iff disjoint_iff)

lemma peek_skipws [simp]: "peek (skipws s) toks = peek s toks"
  by (simp add: peek_def)

lemma parseredirs_skipws: "parseredirs c (skipws s) = parseredirs c s"
  by (simp add: parseredirs.simps[of c s] parseredirs.simps[of c "skipws s"])

lemma parseredirs_end: "follow ''|)&;'' rest \<Longrightarrow> parseredirs d rest = Ok d (skipws rest)"
  using peek_follow[of "''|)&;''" rest "''<>''"]
  by (subst parseredirs.simps) (simp add: symbols_def)

lemma parseredirs_word: "okword w \<Longrightarrow> parseredirs d (w @ s) = Ok d (w @ s)"
  using okword_peek[of w "''<>''" s] okword_skipws[of w s] by (subst parseredirs.simps) (simp add: symbols_def)

lemma parseredirs_step:
  assumes "okword f" "rest = [] \<or> \<not> wordchar (hd rest)" "(m, fd) = (O_RDONLY, 0) \<or> (m, fd) = (O_WRONLY_CREATE, 1)"
  shows "parseredirs d ((if fd = 0 then ''<'' else ''>'') @ f @ rest) = parseredirs (REDIR d (f @ rest, rest) m fd) rest"
proof -
  let ?op = "if fd = 0 then CHR ''<'' else CHR ''>''"
  have op: "?op \<in> set symbols" "?op \<in> set ''<>''"
    by (simp_all add: symbols_def)
  have "hd (f @ rest) \<noteq> CHR ''>''"
    using assms(1) by (elim okword_Cons) (auto dest: wordchar_neq)
  then have "gettoken (?op # f @ rest) = (?op, ?op # f @ rest, f @ rest, f @ rest)"
    using gettoken_symbol[OF op(1), of "f @ rest"] unfolding okword_skipws[OF assms(1)] by blast
  moreover have "redir ?op d (f @ rest, rest) = REDIR d (f @ rest, rest) m fd"
    using assms(3) by (auto simp: redir_def)
  ultimately have "parseredirs d (?op # f @ rest) = parseredirs (REDIR d (f @ rest, rest) m fd) rest"
    using peek_symbol[OF op(1), of "f @ rest" "''<>''"] op(2) symbol_skipws[OF op(1), of "f @ rest"]
      gettoken_word[OF assms(1,2)] by (simp add: parseredirs.simps[of d "?op # f @ rest"] parseredirs_skipws del: if_split)
  then show ?thesis
    by (simp split: if_splits)
qed

text \<open>The loop of \<open>parseexec\<close> from its call of \<open>parseredirs\<close> on.\<close>

definition argloop :: "nat \<Rightarrow> span cmd \<Rightarrow> string \<Rightarrow> parsed" where
  "argloop n ret s = (case parseredirs ret s of Ok r s' \<Rightarrow> parseargs n r s' | Err m \<Rightarrow> Err m | Out \<Rightarrow> Out)"

lemma argloop_end:
  assumes "follow ''|)&;'' rest"
  shows "argloop n d rest = Ok d (skipws rest)"
proof -
  have *: "argloop n d rest = parseargs n d (skipws rest)"
    using parseredirs_end[OF assms] by (simp add: argloop_def)
  show ?thesis
  proof (cases "skipws rest")
    case Nil
    have "\<not> peek [] ''|)&;''" "gettoken [] = (CHR 0x00, [], [], [])"
      by (simp_all add: peek_def gettoken_def skipws_def)
    then show ?thesis
      unfolding * unfolding Nil by (subst parseargs.simps) (simp add: skipws_def)
  next
    case (Cons c s)
    then have "rest \<noteq> []" "hd rest \<in> set ''|)&;''"
      using assms by (auto simp: follow_def)
    then have "peek rest ''|)&;''"
      using peek_symbol[of "hd rest" "tl rest" "''|)&;''"] by (cases rest) (auto simp: symbols_def)
    then show ?thesis
      unfolding * by (subst parseargs.simps) simp
  qed
qed

lemma argloop_word:
  assumes "okword w" "Suc n < MAXARGS"
  shows "argloop n (EXEC xs) (w @ '' '' @ s) = argloop (Suc n) (EXEC (xs @ [(w @ '' '' @ s, '' '' @ s)])) s"
proof -
  have "\<not> wordchar (hd ('' '' @ s))" "skipws ('' '' @ s) = skipws s"
    by (auto simp: wordchar_def whitespace_def skipws_def)
  then have "gettoken (w @ '' '' @ s) = (CHR ''a'', w @ '' '' @ s, '' '' @ s, skipws s)"
    using gettoken_word[OF assms(1), of "'' '' @ s"] by simp
  moreover have "\<not> peek (w @ '' '' @ s) ''|)&;''"
    by (rule okword_peek[OF assms(1)]) (simp add: symbols_def)
  ultimately show ?thesis
    using assms(2) parseredirs_word[OF assms(1)] okword_skipws[OF assms(1)]
    by (simp add: argloop_def parseargs.simps[of n "EXEC xs"] parseredirs_skipws)
qed

lemma word_of_append [simp]: "word_of (w @ s, s) = w"
  by (simp add: word_of_def)

lemma argloop_words:
  "list_all okword as \<Longrightarrow> n + length as < MAXARGS \<Longrightarrow>
   \<exists>bs. argloop n (EXEC xs) (concat (map (\<lambda>a. a @ '' '') as) @ rest) = argloop (n + length as) (EXEC (xs @ bs)) rest \<and>
     map word_of bs = as"
proof (induction as arbitrary: n xs)
  case (Cons a as)
  let ?s = "concat (map (\<lambda>a. a @ '' '') as) @ rest"
  have step: "argloop n (EXEC xs) (a @ '' '' @ ?s) = argloop (Suc n) (EXEC (xs @ [(a @ '' '' @ ?s, '' '' @ ?s)])) ?s"
    using Cons.prems by (intro argloop_word) simp_all
  obtain bs where
      "argloop (Suc n) (EXEC (xs @ [(a @ '' '' @ ?s, '' '' @ ?s)])) ?s =
        argloop (Suc n + length as) (EXEC ((xs @ [(a @ '' '' @ ?s, '' '' @ ?s)]) @ bs)) rest" "map word_of bs = as"
    using Cons.IH[of "Suc n" "xs @ [(a @ '' '' @ ?s, '' '' @ ?s)]"] Cons.prems by auto
  then show ?case
    using step by (intro exI[of _ "(a @ '' '' @ ?s, '' '' @ ?s) # bs"]) simp
qed simp

text \<open>How \<open>parseexec\<close> goes on behind a command, which depends on what the redirections are around.\<close>

fun args_of :: "'a cmd \<Rightarrow> nat option" where
  "args_of (EXEC as) = Some (length as)"
| "args_of (REDIR c f m fd) = args_of c"
| "args_of _ = None"

definition resume :: "string cmd \<Rightarrow> span cmd \<Rightarrow> string \<Rightarrow> parsed" where
  "resume c d rest = (case args_of c of Some n \<Rightarrow> argloop n d rest | None \<Rightarrow> parseredirs d rest)"

lemma resume_end: "follow ''|)&;'' rest \<Longrightarrow> resume c d rest = Ok d (skipws rest)"
  by (simp add: resume_def argloop_end parseredirs_end split: option.split)

definition exec_ok :: "string cmd \<Rightarrow> bool" where
  "exec_ok c \<longleftrightarrow> (\<forall>n rest. follow ''<>|)&;'' rest \<longrightarrow> 4 * length (show_cmd 0 c @ rest) + 1 \<le> n \<longrightarrow>
     (\<exists>d. map_cmd word_of d = c \<and> parseexec n (show_cmd 0 c @ rest) = resume c d rest))"

definition pipe_ok :: "string cmd \<Rightarrow> bool" where
  "pipe_ok c \<longleftrightarrow> (\<forall>n rest. follow '')&;'' rest \<longrightarrow> 4 * length (show_cmd 1 c @ rest) + 2 \<le> n \<longrightarrow>
     (\<exists>d. map_cmd word_of d = c \<and> parsepipe n (show_cmd 1 c @ rest) = Ok d (skipws rest)))"

definition back_ok :: "string cmd \<Rightarrow> bool" where
  "back_ok c \<longleftrightarrow> (\<forall>n rest. follow '')&;'' rest \<longrightarrow> 4 * length (show_cmd 2 c @ rest) + 2 \<le> n \<longrightarrow>
     (\<exists>d d' s. map_cmd word_of d = c \<and> parsepipe n (show_cmd 2 c @ rest) = Ok d' s \<and> parseback d' s = parseback d rest))"

definition line_ok :: "string cmd \<Rightarrow> bool" where
  "line_ok c \<longleftrightarrow> (\<forall>n rest. follow '')'' rest \<longrightarrow> 4 * length (show_cmd 3 c @ rest) + 3 \<le> n \<longrightarrow>
     (\<exists>d. map_cmd word_of d = c \<and> parseline n (show_cmd 3 c @ rest) = Ok d (skipws rest)))"

lemma parseexec_skipws: "parseexec n (skipws s) = parseexec n s"
  by (cases n) simp_all

lemma parsepipe_skipws: "parsepipe n (skipws s) = parsepipe n s"
  by (cases n) (simp_all add: parseexec_skipws)

lemma parseline_skipws: "parseline n (skipws s) = parseline n s"
  by (cases n) (simp_all add: parsepipe_skipws)

lemma parseback_skipws: "parseback d (skipws s) = parseback d s"
  by (simp add: parseback.simps[of d s] parseback.simps[of d "skipws s"])

lemma exec_ok_EXEC:
  assumes "wf_cmd (EXEC as)"
  shows "exec_ok (EXEC as)"
  unfolding exec_ok_def
proof (intro allI impI)
  fix n and rest :: string
  assume f: "follow ''<>|)&;'' rest" and n: "4 * length (show_cmd 0 (EXEC as) @ rest) + 1 \<le> n"
  obtain m where m: "n = Suc m"
    using n by (cases n) auto
  let ?s = "show_cmd 0 (EXEC as) @ rest"
  have s: "\<not> peek ?s ''(''"
    using okword_peek[of "hd as" "''(''"] peek_follow[OF f, of "''(''"] assms by (cases as) (simp_all add: symbols_def)
  obtain bs where "argloop 0 (EXEC []) ?s = argloop (length as) (EXEC bs) rest" "map word_of bs = as"
    using argloop_words[of as 0 "[]" rest] assms by auto
  then show "\<exists>d. map_cmd word_of d = EXEC as \<and> parseexec n ?s = resume (EXEC as) d rest"
    using s by (intro exI[of _ "EXEC bs"]) (simp add: m resume_def argloop_def parseredirs_skipws)
qed

lemma exec_ok_REDIR:
  assumes "wf_cmd (REDIR c f m fd)" "exec_ok c"
  shows "exec_ok (REDIR c f m fd)"
  unfolding exec_ok_def
proof (intro allI impI)
  fix n and rest :: string
  assume f: "follow ''<>|)&;'' rest" and n: "4 * length (show_cmd 0 (REDIR c f m fd) @ rest) + 1 \<le> n"
  let ?r = "(if fd = 0 then ''<'' else ''>'') @ f @ rest"
  have r: "follow ''<>|)&;'' ?r" "4 * length (show_cmd 0 c @ ?r) + 1 \<le> n"
    using n by (simp_all add: follow_def)
  then obtain d where d: "map_cmd word_of d = c" "parseexec n (show_cmd 0 c @ ?r) = resume c d ?r"
    using assms(2) unfolding exec_ok_def by blast
  have "parseredirs d ?r = parseredirs (REDIR d (f @ rest, rest) m fd) rest"
    using assms(1) follow_word[OF f] by (intro parseredirs_step) (simp_all add: symbols_def)
  then have "resume c d ?r = resume (REDIR c f m fd) (REDIR d (f @ rest, rest) m fd) rest"
    by (simp only: resume_def argloop_def args_of.simps)
  then show "\<exists>d. map_cmd word_of d = REDIR c f m fd \<and> parseexec n (show_cmd 0 (REDIR c f m fd) @ rest) = resume (REDIR c f m fd) d rest"
    using d by (intro exI[of _ "REDIR d (f @ rest, rest) m fd"]) simp
qed

lemma exec_ok_block:
  assumes "line_ok c" "args_of c = None" "show_cmd 0 c = ''('' @ show_cmd 3 c @ '')''"
  shows "exec_ok c"
  unfolding exec_ok_def
proof (intro allI impI)
  fix n and rest :: string
  assume f: "follow ''<>|)&;'' rest" and n: "4 * length (show_cmd 0 c @ rest) + 1 \<le> n"
  let ?s = "show_cmd 3 c @ '')'' @ rest"
  obtain k where k: "n = Suc (Suc k)"
    using n assms(3) by (cases n; cases "n - 1") auto
  have "follow '')'' ('')'' @ rest)" "4 * length ?s + 3 \<le> k"
    using n unfolding k assms(3) by (simp_all add: follow_def)
  then obtain d where d: "map_cmd word_of d = c" "parseline k ?s = Ok d (skipws ('')'' @ rest))"
    using assms(1) unfolding line_ok_def by blast
  have g: "gettoken (CHR ''('' # ?s) = (CHR ''('', CHR ''('' # ?s, ?s, skipws ?s)"
      "gettoken (CHR '')'' # rest) = (CHR '')'', CHR '')'' # rest, rest, skipws rest)"
    using gettoken_symbol[of "CHR ''(''" ?s] gettoken_symbol[of "CHR '')''" rest] by (simp_all add: symbols_def)
  have "parseexec n (CHR ''('' # ?s) = parseredirs d rest"
    using g d(2) peek_symbol[of "CHR ''(''"  ?s "''(''"] peek_symbol[of "CHR '')''" rest "'')''"]
      symbol_skipws[of "CHR ''(''" ?s] symbol_skipws[of "CHR '')''" rest]
    by (simp add: k symbols_def parseredirs_skipws parseline_skipws)
  then show "\<exists>d. map_cmd word_of d = c \<and> parseexec n (show_cmd 0 c @ rest) = resume c d rest"
    using d(1) assms(2,3) by (intro exI[of _ d]) (simp add: resume_def)
qed

lemma pipe_ok_exec:
  assumes "exec_ok c" "show_cmd 1 c = show_cmd 0 c"
  shows "pipe_ok c"
  unfolding pipe_ok_def
proof (intro allI impI)
  fix n and rest :: string
  assume f: "follow '')&;'' rest" and n: "4 * length (show_cmd 1 c @ rest) + 2 \<le> n"
  obtain k where k: "n = Suc k"
    using n by (cases n) auto
  have "follow ''<>|)&;'' rest" "4 * length (show_cmd 0 c @ rest) + 1 \<le> k"
    using n follow_mono[OF f] unfolding k assms(2) by simp_all
  then obtain d where "map_cmd word_of d = c" "parseexec k (show_cmd 0 c @ rest) = resume c d rest"
    using assms(1) unfolding exec_ok_def by blast
  then show "\<exists>d. map_cmd word_of d = c \<and> parsepipe n (show_cmd 1 c @ rest) = Ok d (skipws rest)"
    using peek_follow[OF f, of "''|''"] follow_mono[OF f, of "''|)&;''"] assms(2)
    by (intro exI[of _ d]) (simp add: k resume_end symbols_def)
qed

lemma pipe_ok_PIPE:
  assumes "exec_ok l" "pipe_ok r"
  shows "pipe_ok (PIPE l r)"
  unfolding pipe_ok_def
proof (intro allI impI)
  fix n and rest :: string
  assume f: "follow '')&;'' rest" and n: "4 * length (show_cmd 1 (PIPE l r) @ rest) + 2 \<le> n"
  obtain k where k: "n = Suc k"
    using n by (cases n) auto
  let ?s = "show_cmd 1 r @ rest"
  have "follow ''<>|)&;'' (''|'' @ ?s)" "4 * length (show_cmd 0 l @ ''|'' @ ?s) + 1 \<le> k" "4 * length ?s + 2 \<le> k"
    using n by (simp_all add: paren_def k follow_def)
  then obtain d e where d: "map_cmd word_of d = l" "parseexec k (show_cmd 0 l @ ''|'' @ ?s) = resume l d (''|'' @ ?s)"
      "map_cmd word_of e = r" "parsepipe k ?s = Ok e (skipws rest)"
    using assms f unfolding exec_ok_def pipe_ok_def by blast
  moreover have "resume l d (''|'' @ ?s) = Ok d (skipws (''|'' @ ?s))"
    by (rule resume_end) (simp add: follow_def)
  moreover have "gettoken (CHR ''|'' # ?s) = (CHR ''|'', CHR ''|'' # ?s, ?s, skipws ?s)"
    using gettoken_symbol[of "CHR ''|''" ?s] by (simp add: symbols_def)
  ultimately show "\<exists>d. map_cmd word_of d = PIPE l r \<and> parsepipe n (show_cmd 1 (PIPE l r) @ rest) = Ok d (skipws rest)"
    using peek_symbol[of "CHR ''|''" ?s "''|''"] symbol_skipws[of "CHR ''|''" ?s]
    by (intro exI[of _ "PIPE d e"]) (simp add: k paren_def symbols_def parsepipe_skipws)
qed

lemma back_ok_pipe:
  assumes "pipe_ok c" "show_cmd 2 c = show_cmd 1 c"
  shows "back_ok c"
  using assms parseback_skipws unfolding back_ok_def pipe_ok_def by metis

lemma parseback_amp: "parseback d (''&'' @ s) = parseback (BACK d) s"
  using gettoken_symbol[of "CHR ''&''" s] peek_symbol[of "CHR ''&''" s "''&''"] symbol_skipws[of "CHR ''&''" s]
  by (simp add: parseback.simps[of d "CHR ''&'' # s"] symbols_def parseback_skipws)

lemma parseback_end:
  assumes "follow '');'' rest"
  shows "parseback d rest = (d, skipws rest)"
  using peek_follow[OF assms, of "''&''"] by (subst parseback.simps) (simp add: symbols_def)

lemma back_ok_BACK:
  assumes "back_ok c"
  shows "back_ok (BACK c)"
  unfolding back_ok_def
proof (intro allI impI)
  fix n and rest :: string
  assume f: "follow '')&;'' rest" and n: "4 * length (show_cmd 2 (BACK c) @ rest) + 2 \<le> n"
  have "follow '')&;'' (''&'' @ rest)" "4 * length (show_cmd 2 c @ ''&'' @ rest) + 2 \<le> n"
    using n by (simp_all add: paren_def follow_def)
  then obtain d d' s where "map_cmd word_of d = c" "parsepipe n (show_cmd 2 c @ ''&'' @ rest) = Ok d' s"
      "parseback d' s = parseback d (''&'' @ rest)"
    using assms unfolding back_ok_def by blast
  moreover have "parseback d (''&'' @ rest) = parseback (BACK d) rest"
    by (rule parseback_amp)
  ultimately show "\<exists>d d' s. map_cmd word_of d = BACK c \<and> parsepipe n (show_cmd 2 (BACK c) @ rest) = Ok d' s \<and>
      parseback d' s = parseback d rest"
    by (intro exI[of _ "BACK d"] exI[of _ d'] exI[of _ s]) (simp add: paren_def)
qed

lemma line_ok_back:
  assumes "back_ok c" "show_cmd 3 c = show_cmd 2 c"
  shows "line_ok c"
  unfolding line_ok_def
proof (intro allI impI)
  fix n and rest :: string
  assume f: "follow '')'' rest" and n: "4 * length (show_cmd 3 c @ rest) + 3 \<le> n"
  obtain k where k: "n = Suc k"
    using n by (cases n) auto
  have "follow '')&;'' rest" "4 * length (show_cmd 2 c @ rest) + 2 \<le> k"
    using n follow_mono[OF f] unfolding k assms(2) by simp_all
  then obtain d d' s where d: "map_cmd word_of d = c" "parsepipe k (show_cmd 2 c @ rest) = Ok d' s"
      "parseback d' s = parseback d rest"
    using assms(1) unfolding back_ok_def by blast
  have "parseback d' s = (d, skipws rest)"
    using parseback_end[OF follow_mono[OF f], of d] d(3) by simp
  then show "\<exists>d. map_cmd word_of d = c \<and> parseline n (show_cmd 3 c @ rest) = Ok d (skipws rest)"
    using d peek_follow[OF f, of "'';''"] assms(2)
    by (intro exI[of _ d]) (simp add: k symbols_def)
qed

lemma line_ok_LIST:
  assumes "back_ok l" "line_ok r"
  shows "line_ok (LIST l r)"
  unfolding line_ok_def
proof (intro allI impI)
  fix n and rest :: string
  assume f: "follow '')'' rest" and n: "4 * length (show_cmd 3 (LIST l r) @ rest) + 3 \<le> n"
  obtain k where k: "n = Suc k"
    using n by (cases n) auto
  let ?s = "show_cmd 3 r @ rest"
  have "follow '')&;'' ('';'' @ ?s)" "4 * length (show_cmd 2 l @ '';'' @ ?s) + 2 \<le> k" "4 * length ?s + 3 \<le> k"
    using n by (simp_all add: paren_def k follow_def)
  then obtain d d' s e where d: "map_cmd word_of d = l" "parsepipe k (show_cmd 2 l @ '';'' @ ?s) = Ok d' s"
      "parseback d' s = parseback d ('';'' @ ?s)" "map_cmd word_of e = r" "parseline k ?s = Ok e (skipws rest)"
    using assms f unfolding back_ok_def line_ok_def by blast
  have "parseback d' s = (d, skipws ('';'' @ ?s))"
    using parseback_end[of "'';'' @ ?s" d] d(3) by (simp add: follow_def)
  moreover have "gettoken (CHR '';'' # ?s) = (CHR '';'', CHR '';'' # ?s, ?s, skipws ?s)"
    using gettoken_symbol[of "CHR '';''" ?s] by (simp add: symbols_def)
  ultimately show "\<exists>d. map_cmd word_of d = LIST l r \<and> parseline n (show_cmd 3 (LIST l r) @ rest) = Ok d (skipws rest)"
    using d peek_symbol[of "CHR '';''" ?s "'';''"] symbol_skipws[of "CHR '';''" ?s]
    by (intro exI[of _ "LIST d e"]) (simp add: k paren_def symbols_def parseline_skipws)
qed

lemma show_parses: "wf_cmd c \<Longrightarrow> exec_ok c \<and> pipe_ok c \<and> back_ok c \<and> line_ok c"
proof (induction c)
  case (EXEC as)
  then have e: "exec_ok (EXEC as)"
    by (rule exec_ok_EXEC)
  have b: "pipe_ok (EXEC as)"
    by (rule pipe_ok_exec[OF e]) simp
  have "back_ok (EXEC as)"
    by (rule back_ok_pipe[OF b]) simp
  then show ?case
    using e b line_ok_back[of "EXEC as"] by simp
next
  case (REDIR c f m fd)
  then have e: "exec_ok (REDIR c f m fd)"
    by (intro exec_ok_REDIR) simp_all
  have b: "pipe_ok (REDIR c f m fd)"
    by (rule pipe_ok_exec[OF e]) simp
  have "back_ok (REDIR c f m fd)"
    by (rule back_ok_pipe[OF b]) simp
  then show ?case
    using e b line_ok_back[of "REDIR c f m fd"] by simp
next
  case (PIPE l r)
  then have p: "pipe_ok (PIPE l r)"
    by (intro pipe_ok_PIPE) simp_all
  have b: "back_ok (PIPE l r)"
    by (rule back_ok_pipe[OF p]) (simp add: paren_def)
  have l: "line_ok (PIPE l r)"
    by (rule line_ok_back[OF b]) (simp add: paren_def)
  show ?case
    using p b l exec_ok_block[OF l] by (simp add: paren_def)
next
  case (LIST l r)
  then have l: "line_ok (LIST l r)"
    by (intro line_ok_LIST) simp_all
  have e: "exec_ok (LIST l r)"
    by (rule exec_ok_block[OF l]) (simp_all add: paren_def)
  have p: "pipe_ok (LIST l r)"
    by (rule pipe_ok_exec[OF e]) (simp add: paren_def)
  show ?case
    using l e p back_ok_pipe[OF p] by (simp add: paren_def)
next
  case (BACK c)
  then have b: "back_ok (BACK c)"
    by (intro back_ok_BACK) simp
  have l: "line_ok (BACK c)"
    by (rule line_ok_back[OF b]) (simp add: paren_def)
  have e: "exec_ok (BACK c)"
    by (rule exec_ok_block[OF l]) (simp_all add: paren_def)
  show ?case
    using b l e pipe_ok_exec[OF e] by (simp add: paren_def)
qed

lemma show_no_NUL: "wf_cmd c \<Longrightarrow> CHR 0x00 \<notin> set (show_cmd n c)"
  by (induction n c rule: show_cmd.induct) (auto simp: paren_def okword_def list_all_iff)

lemma parse_show:
  assumes "wf_cmd c" "set blanks \<subseteq> set whitespace"
  shows "\<exists>d buf. parsecmd (show_cmd 3 c @ blanks) = Ok d buf \<and> strings buf d = c"
proof -
  let ?s = "show_cmd 3 c @ blanks"
  have b: "skipws blanks = []" "CHR 0x00 \<notin> set ?s"
    using assms show_no_NUL[OF assms(1), of 3] by (auto simp: skipws_def whitespace_def)
  have "line_ok c"
    using show_parses[OF assms(1)] by simp
  then obtain d where d: "map_cmd word_of d = c" "parseline (4 * length ?s + 3) ?s = Ok d []"
    using follow_Nil[OF b(1)] b(1) unfolding line_ok_def by (metis order_refl)
  then have "parsecmd ?s = Ok d (nulterminate d (?s @ [CHR 0x00]))"
    by (simp add: parsecmd_def skipws_def)
  then show ?thesis
    using strings_words[OF _ b(2)] d(1) by blast
qed

text \<open>
  C22: Printing and parsing a command gives it back: the line that spells out a command, with parentheses where a
  list, a background command or a pipe stands inside a pipe or a redirection, and with any blanks or a newline
  behind it, is accepted, and \<open>runcmd\<close> is given that command, with every argument, file name, open mode and
  descriptor.
\<close>

theorem parse_show_roundtrip:
  assumes "wf_cmd c" "set blanks \<subseteq> set whitespace"
  shows "\<exists>d buf. parsecmd (show_cmd 3 c @ blanks) = Ok d buf \<and> strings buf d = c"
  by (rule parse_show[OF assms])

theorem parse_show_roundtrip_witness:
  "\<exists>d buf. parsecmd ''(ls ;cat <f|wc )>out& '' = Ok d buf \<and>
    strings buf d = BACK (REDIR (LIST (EXEC [''ls'']) (PIPE (REDIR (EXEC [''cat'']) ''f'' 0 0) (EXEC [''wc'']))) ''out'' 0x201 1)"
proof -
  let ?c = "BACK (REDIR (LIST (EXEC [''ls'']) (PIPE (REDIR (EXEC [''cat'']) ''f'' 0 0) (EXEC [''wc'']))) ''out'' 0x201 1)"
  have "wf_cmd ?c" "set '' '' \<subseteq> set whitespace"
    by (simp_all add: okword_def wordchar_def whitespace_def symbols_def)
  moreover have "show_cmd 3 ?c @ '' '' = ''(ls ;cat <f|wc )>out& ''"
    by (simp add: paren_def)
  ultimately show ?thesis
    using parse_show_roundtrip[of ?c "'' ''"] by simp
qed

end
