(* ===== verification/User.thy ===== *)
theory User
  imports Cprintf
begin

text \<open>
  User programs as trees of system calls, and the parts of the user library that make them: \<open>printf\<close>
  (\<open>src/printf.c\<close>) and \<open>gets\<close> (\<open>src/ulib.c\<close>).  The string routines of \<open>src/ulib.c\<close> are in theory
  \<open>Cstring\<close>.
\<close>

section \<open>Programs\<close>

text \<open>
  The calls of \<open>src/user.h\<close> that the modelled programs make.  A program is what it does until it ends: a call, and
  how it goes on with the result.  \<open>Crashed\<close> is the end of a program that uses an argument it was not given.
\<close>

datatype scall =
    Fork | Wait | Close int | Open string nat | Dup int | Exec string "string list" | Write int string | Chdir string

datatype prog =
    Exit
  | Crashed
  | Stuck
  | Sys scall "int \<Rightarrow> prog"
  | Pipe "int \<Rightarrow> int \<Rightarrow> int \<Rightarrow> prog"

section \<open>printf.c\<close>

definition putc :: "int \<Rightarrow> char \<Rightarrow> prog \<Rightarrow> prog" where
  "putc fd c k = Sys (Write fd [c]) (\<lambda>_. k)"

definition puts :: "int \<Rightarrow> string \<Rightarrow> prog \<Rightarrow> prog" where
  "puts fd s k = foldr (putc fd) s k"

definition udigits :: string where
  "udigits = ''0123456789ABCDEF''"

definition uprintint :: "int \<Rightarrow> u32 \<Rightarrow> nat \<Rightarrow> bool \<Rightarrow> prog \<Rightarrow> prog" where
  "uprintint fd xx base sign k = puts fd (rev (printint_buf udigits xx base sign)) k"

text \<open>The arguments on the stack: numbers, and pointers to strings.\<close>

datatype uarg = Num u32 | Text string

text \<open>
  The variable \<open>state\<close> is whether the character before was a percent sign.
\<close>

fun printf :: "int \<Rightarrow> bool \<Rightarrow> string \<Rightarrow> uarg list \<Rightarrow> prog \<Rightarrow> prog" where
  "printf fd state [] ap k = k"
| "printf fd False (c # fmt) ap k =
     (if c = CHR ''%'' then printf fd True fmt ap k else putc fd c (printf fd False fmt ap k))"
| "printf fd True (c # fmt) ap k =
     (if c = CHR ''d'' \<or> c = CHR ''u'' then
        (case ap of Num x # ap \<Rightarrow> uprintint fd x 10 True (printf fd False fmt ap k) | _ \<Rightarrow> Crashed)
      else if c = CHR ''x'' \<or> c = CHR ''p'' then
        (case ap of Num x # ap \<Rightarrow> uprintint fd x 16 False (printf fd False fmt ap k) | _ \<Rightarrow> Crashed)
      else if c = CHR ''s'' then
        (case ap of
           Text s # ap \<Rightarrow> puts fd (takeWhile (\<lambda>c. c \<noteq> CHR 0x00) s) (printf fd False fmt ap k)
         | Num x # ap \<Rightarrow> if x = 0 then puts fd ''(null)'' (printf fd False fmt ap k) else Crashed
         | [] \<Rightarrow> Crashed)
      else if c = CHR ''c'' then
        (case ap of Num x # ap \<Rightarrow> putc fd (char_of (unat x)) (printf fd False fmt ap k) | _ \<Rightarrow> Crashed)
      else if c = CHR ''%'' then putc fd c (printf fd False fmt ap k)
      else putc fd CHR ''%'' (putc fd c (printf fd False fmt ap k)))"

section \<open>gets\<close>

text \<open>
  \<open>i\<close> characters are in the buffer.  The input is what standard input still delivers, a character for each
  \<open>read\<close>; at its end \<open>read\<close> returns 0.  The result is the line without its NUL, and the rest of the input.
\<close>

function gets_loop :: "nat \<Rightarrow> nat \<Rightarrow> string \<Rightarrow> string \<times> string" where
  "gets_loop i nbuf inp =
     (if i + 1 < nbuf then
        (case inp of [] \<Rightarrow> ([], [])
         | c # inp \<Rightarrow>
             if c = CHR 0x0A \<or> c = CHR 0x0D then ([c], inp)
             else let (s, rest) = gets_loop (i + 1) nbuf inp in (c # s, rest))
      else ([], inp))"
  by auto
termination
  by (relation "measure (\<lambda>(i, nbuf, inp). nbuf - i)") auto

declare gets_loop.simps [simp del]

definition gets :: "nat \<Rightarrow> string \<Rightarrow> string \<times> string" where
  "gets nbuf inp = gets_loop 0 nbuf inp"

lemma gets_loop_append: "gets_loop i nbuf inp = (s, rest) \<Longrightarrow> inp = s @ rest"
proof (induction i nbuf inp arbitrary: s rest rule: gets_loop.induct)
  case (1 i nbuf inp)
  then show ?case
    by (auto simp: gets_loop.simps[of i nbuf inp] Let_def split: if_splits list.splits prod.splits)
qed

lemma gets_loop_fits: "gets_loop i nbuf inp = (s, rest) \<Longrightarrow> length s \<le> nbuf - 1 - i"
proof (induction i nbuf inp arbitrary: s rest rule: gets_loop.induct)
  case (1 i nbuf inp)
  then show ?case
    by (fastforce simp: gets_loop.simps[of i nbuf inp] Let_def split: if_splits list.splits prod.splits)
qed

lemma gets_loop_line:
  "i + length s + 1 < nbuf \<Longrightarrow> set s \<inter> {CHR 0x0A, CHR 0x0D} = {} \<Longrightarrow>
   gets_loop i nbuf (s @ CHR 0x0A # rest) = (s @ [CHR 0x0A], rest)"
proof (induction s arbitrary: i)
  case (Cons a s)
  then have "gets_loop (i + 1) nbuf (s @ CHR 0x0A # rest) = (s @ [CHR 0x0A], rest)" "a \<noteq> CHR 0x0A" "a \<noteq> CHR 0x0D"
    using Cons.IH[of "i + 1"] by auto
  then show ?case
    using Cons.prems by (subst gets_loop.simps) simp
qed (simp add: gets_loop.simps)

text \<open>
  C0: \<open>gets\<close> never stores more characters than the buffer has room for beside the NUL, loses nothing of the
  input and takes no more than one line: what it stores and what it leaves is the input, and only the last
  character it stores can be a newline or a carriage return.
\<close>

theorem gets_bounded:
  assumes "gets nbuf inp = (s, rest)"
  shows "inp = s @ rest \<and> length s \<le> nbuf - 1 \<and> set (butlast s) \<inter> {CHR 0x0A, CHR 0x0D} = {}"
proof -
  have "set (butlast s) \<inter> {CHR 0x0A, CHR 0x0D} = {}" if "gets_loop i nbuf inp = (s, rest)" for i
    using that
  proof (induction i nbuf inp arbitrary: s rest rule: gets_loop.induct)
    case (1 i nbuf inp)
    then show ?case
      by (auto simp: gets_loop.simps[of i nbuf inp] Let_def split: if_splits list.splits prod.splits)
  qed
  then show ?thesis
    using assms gets_loop_append[of 0 nbuf inp s rest] gets_loop_fits[of 0 nbuf inp s rest] by (simp add: gets_def)
qed

theorem gets_bounded_witness:
  "gets 6 ''ls /bin'' = (''ls /b'', ''in'') \<and> length ''ls /b'' \<le> 6 - 1"
proof -
  have "gets 6 ''ls /bin'' = (''ls /b'', ''in'')"
    by (simp add: gets_def gets_loop.simps)
  then show ?thesis
    using gets_bounded[of 6 "''ls /bin''" "''ls /b''" "''in''"] by simp
qed

end
