(* ===== verification/Spec2Isabelle.thy ===== *)
theory Spec2Isabelle
  imports Lottery Boot Progress Grep Shell User
begin

text \<open>
  Verification of xv6 for the x86 with a lottery scheduler (\<open>src/\<close>): the kernel from the locks to the
  system calls, and what of the user programs has behaviour of its own.

  \<^bold>\<open>The program.\<close>  The kernel runs on several processors that share memory.  Spin locks
  (\<open>spinlock.c\<close>) protect short sections with interrupts off; sleep locks (\<open>sleeplock.c\<close>) are built on them
  and on \<open>sleep\<close>/\<open>wakeup\<close> of \<open>proc.c\<close>.  \<open>kalloc.c\<close> hands out pages, \<open>vm.c\<close> builds page tables from them,
  \<open>proc.c\<close> keeps the process table and draws the next process by lottery with \<open>rand.c\<close>.  The disk is reached
  through the buffer cache (\<open>bio.c\<close>) over \<open>memide.c\<close> or \<open>ide.c\<close>; \<open>log.c\<close> groups block writes into
  transactions; \<open>fs.c\<close> keeps inodes, directories and paths in the blocks; \<open>file.c\<close> and \<open>pipe.c\<close> give open
  files; \<open>exec.c\<close>, \<open>sysfile.c\<close>, \<open>sysproc.c\<close> and \<open>syscall.c\<close> are the system calls, entered through \<open>trap.c\<close>;
  \<open>console.c\<close>, \<open>kbd.c\<close>, \<open>uart.c\<close>, \<open>lapic.c\<close>, \<open>ioapic.c\<close>, \<open>picirq.c\<close> drive the devices, and \<open>mp.c\<close> and
  \<open>main.c\<close> start the machine.

  \<^bold>\<open>The model.\<close>  A kernel routine is a function from the state to a result and a new state, or to the
  way it stopped: \<open>Panic\<close> with its message, \<open>Spin\<close> (it waits for ever with interrupts off), \<open>Fault\<close> (it uses
  an address that is not mapped or runs over an array), \<open>Blocked\<close> (it has gone to sleep in a composition that
  needs it awake).  The state is one record, extended theory by theory in the order of the program's layers:
  processors and locks (\<open>Spinlock\<close>), the page allocator and memory by bytes (\<open>Kalloc\<close>), console (\<open>Cprintf\<close>),
  page tables (\<open>Vm\<close>), processes (\<open>Proc\<close>), sleep locks (\<open>Sleeplock\<close>), buffers and disk (\<open>Bio\<close>), log
  (\<open>Log\<close>), inodes (\<open>Inode\<close>), console input (\<open>Console\<close>), files (\<open>File\<close>), devices (\<open>Devices\<close>).
  Every routine works on all states that extend the layer it belongs to.  Machine integers are words of their
  width and wrap; counters that the code keeps as \<open>int\<close> far from overflow are integers.  A routine that
  switches to the scheduler is given as the part before the switch and the part after it
  (\<open>sleep_enter\<close>/\<open>sleep_exit\<close>, \<open>yield_enter\<close>/\<open>yield_exit\<close>), so that what other processes do in between is
  not fixed.

  \<^bold>\<open>Theories.\<close>
  \<^item> \<open>Prelude\<close>: the monad, frames (\<open>keeps\<close>), partial correctness (\<open>kpost\<close>), shared facts.
  \<^item> \<open>Mmu\<close>: \<open>mmu.h\<close>, \<open>memlayout.h\<close>.  \<open>Cstring\<close>: \<open>string.c\<close>, the string routines of \<open>ulib.c\<close>.  \<open>Rand\<close>: \<open>rand.c\<close>.
  \<^item> \<open>Spinlock\<close>: \<open>spinlock.c\<close>, \<open>cpuid\<close>, \<open>mycpu\<close>; the interleavings of several processors at one lock are the
    step relation \<open>spin_step\<close>.
  \<^item> \<open>Kalloc\<close>, \<open>Cprintf\<close>, \<open>Procdef\<close>, \<open>Vm\<close>, \<open>Proc\<close>, \<open>Sleeplock\<close>, \<open>Bio\<close>, \<open>Log\<close>, \<open>Inode\<close>, \<open>Fs\<close>, \<open>Console\<close>,
    \<open>File\<close>, \<open>Exec\<close>, \<open>Sysfile\<close>, \<open>Devices\<close>, \<open>Ide\<close>, \<open>Trap\<close>, \<open>Boot\<close>: the operations of the files of those names,
    in the order of the code.
  \<^item> \<open>Lottery\<close>: what the draw of the scheduler promises.
  \<^item> \<open>Bcache\<close>: the invariant of the buffer cache and the interface it offers its clients, as the locale
    \<open>write_through_cache\<close>, interpreted on \<open>bread\<close>, \<open>bwrite\<close>, \<open>brelse\<close>.
  \<^item> \<open>Crash\<close>: the log over that interface; the writes of a commit and the effect of recovery.
  \<^item> \<open>Progress\<close>: total correctness; the locale \<open>live_cache\<close> adds to the interface that its calls return; the
    atomicity of a transaction.

  \<^bold>\<open>What is shown.\<close>  Mutual exclusion of the spin lock under every interleaving; that a critical section
  restores the interrupt state; that misuse panics.  The page allocator hands out exactly the free pages.
  \<open>mappages\<close> makes the processor's translation what was asked and leaves the rest.  The random numbers have
  full period and the lottery gives each process its share of the draws.  Console output prints the text of
  the call.  The buffer cache is a transparent view of the disk, and a commit of the log is atomic under a
  crash at any point, with recovery.  Structures on disk (inode, bitmap, directory entry, log header) read
  back as written; paths split into their elements.

  \<^bold>\<open>Bounds and fuel.\<close>  The loops of the kernel are structural recursions over the tables they scan, except:
  \<open>walk\<close> follows the buffer list for at most \<open>NBUF\<close> steps, enough on a well-formed list (theory \<open>Bcache\<close>);
  \<open>freerange_loop\<close> is a \<open>function\<close> with a termination proof; the search of \<open>mpinit\<close>, which may run for ever, is
  a \<open>partial_function\<close> whose value is then \<open>None\<close>.

  \<^bold>\<open>Not modelled.\<close>  Assembly (\<open>bootasm.S\<close>, \<open>entry.S\<close>, \<open>swtch.S\<close>, \<open>trapasm.S\<close>, \<open>usys.S\<close>, \<open>vectors.S\<close>,
  \<open>initcode.S\<close>, \<open>entryother.S\<close>): the switch of contexts is where a routine is split, and trap entry is the
  call of \<open>trap\<close> with a trap frame.  Weak memory: processors interleave at the steps of \<open>spin_step\<close>, and
  \<open>__sync_synchronize\<close> has no effect of its own.  Device behaviour beyond what the code reads and writes: what
  a port returns is part of the state.  The test programs.
\<close>

end
